(* ===== verification/Prelude.thy ===== *)
theory Prelude
  imports Main "HOL-Library.Word" "HOL-Library.Multiset"
begin

text \<open>
  Shared vocabulary of the development: the widths of the C integers, the result codes of
  \<^verbatim>\<open>src/src/include/gnunet_common.h\<close>, the model of \<^verbatim>\<open>GNUNET_assert\<close> and the generic lemmas
  on words, lists and options that the component theories use.

  Conventions used everywhere:
  \<^item> a function that may run into a failing \<^verbatim>\<open>GNUNET_assert\<close> (which aborts the process) or into
    an access outside of allocated memory returns an \<open>option\<close>, where \<open>None\<close> is the abort;
  \<^item> \<^verbatim>\<open>GNUNET_break\<close> and \<^verbatim>\<open>LOG\<close> only write to the log and are not modelled;
  \<^item> \<^verbatim>\<open>GNUNET_malloc\<close> aborts the process when memory is exhausted, so it always succeeds here and
    returns zeroed memory, as it does in \<^verbatim>\<open>common_allocation.c\<close>;
  \<^item> the current time is an argument of every function that reads the clock.
\<close>

section \<open>Machine integers\<close>

type_synonym u8 = "8 word"
type_synonym u16 = "16 word"
type_synonym u32 = "32 word"
type_synonym u64 = "64 word"
type_synonym byte = "8 word"

section \<open>Result codes\<close>

definition GNUNET_OK :: int where [simp]: "GNUNET_OK = 1"

definition GNUNET_YES :: int where [simp]: "GNUNET_YES = 1"

definition GNUNET_NO :: int where [simp]: "GNUNET_NO = 0"

definition GNUNET_SYSERR :: int where [simp]: "GNUNET_SYSERR = - 1"

definition GNUNET_SERVER_MAX_MESSAGE_SIZE :: u64 where
  "GNUNET_SERVER_MAX_MESSAGE_SIZE = 65536"

section \<open>Collections of facts\<close>

named_theorems time_defs \<open>definitions of the time arithmetic\<close>
named_theorems sat_simps \<open>saturating arithmetic on words read as natural numbers\<close>
named_theorems invar_intros \<open>operations preserve the component invariants\<close>

section \<open>Words read as natural numbers\<close>

lemma u64_add_wraps_iff [sat_simps]:
  fixes x y :: u64
  shows "x + y < x \<longleftrightarrow> 2 ^ 64 \<le> unat x + unat y"
  using no_olen_add_nat [of x y] by (simp add: not_le [symmetric])

lemma unat_u64_add [sat_simps]:
  fixes x y :: u64
  shows "unat x + unat y < 2 ^ 64 \<Longrightarrow> unat (x + y) = unat x + unat y"
  using unat_add_lem [of x y] by simp

lemma unat_u64_lt [simp]: "unat (x :: u64) < 18446744073709551616"
  using unsigned_less [of x] by simp

lemma unat_u32_lt [simp]: "unat (x :: u32) < 4294967296"
  using unsigned_less [of x] by simp

lemma u64_eq_max_iff: "(x :: u64) = - 1 \<longleftrightarrow> unat x = 2 ^ 64 - 1"
  by (simp add: word_unat_eq_iff unsigned_minus_1_eq_mask mask_eq_exp_minus_1)

lemma unat_ucast_u32_u64 [simp]: "unat (ucast (x :: u32) :: u64) = unat x"
  by (simp add: unsigned_ucast_eq take_bit_nat_eq_self less_trans [OF unat_u32_lt])

end
