(* ===== verification/Endian.thy ===== *)
theory Endian
  imports Prelude
begin

text \<open>
  Byte order conversion, \<^verbatim>\<open>src/src/util/common_endian.c\<close>.  The C library's \<^verbatim>\<open>htonl\<close> and
  \<^verbatim>\<open>ntohl\<close> are modelled by what POSIX says of them: the identity on a big-endian host and a byte
  swap on a little-endian one.  The preprocessor's choice by \<^verbatim>\<open>__BYTE_ORDER\<close> is the argument
  \<open>bo\<close>.  \<open>mem64\<close> is the memory image of a 64-bit integer on such a host; the main fact is that
  \<open>GNUNET_htonll\<close> puts the value into memory in big-endian order on either kind of host.
\<close>

unbundle bit_operations_syntax

datatype byte_order = BIG_ENDIAN | LITTLE_ENDIAN

definition bswap32 :: "u32 \<Rightarrow> u32" where
  "bswap32 n =
     push_bit 24 (take_bit 8 n) OR push_bit 16 (take_bit 8 (drop_bit 8 n)) OR
     push_bit 8 (take_bit 8 (drop_bit 16 n)) OR take_bit 8 (drop_bit 24 n)"

fun htonl :: "byte_order \<Rightarrow> u32 \<Rightarrow> u32" where
  "htonl BIG_ENDIAN n = n"
| "htonl LITTLE_ENDIAN n = bswap32 n"

fun ntohl :: "byte_order \<Rightarrow> u32 \<Rightarrow> u32" where
  "ntohl BIG_ENDIAN n = n"
| "ntohl LITTLE_ENDIAN n = bswap32 n"

fun GNUNET_ntohll :: "byte_order \<Rightarrow> u64 \<Rightarrow> u64" where
  "GNUNET_ntohll BIG_ENDIAN n = n"
| "GNUNET_ntohll LITTLE_ENDIAN n =
     push_bit 32 (ucast (ntohl LITTLE_ENDIAN (ucast n))) +
     ucast (ntohl LITTLE_ENDIAN (ucast (drop_bit 32 n)))"

fun GNUNET_htonll :: "byte_order \<Rightarrow> u64 \<Rightarrow> u64" where
  "GNUNET_htonll BIG_ENDIAN n = n"
| "GNUNET_htonll LITTLE_ENDIAN n =
     push_bit 32 (ucast (htonl LITTLE_ENDIAN (ucast n))) +
     ucast (htonl LITTLE_ENDIAN (ucast (drop_bit 32 n)))"

definition byte_of :: "nat \<Rightarrow> u64 \<Rightarrow> byte" where
  "byte_of i w = ucast (drop_bit (8 * i) w)"

fun mem64 :: "byte_order \<Rightarrow> u64 \<Rightarrow> byte list" where
  "mem64 LITTLE_ENDIAN w = map (\<lambda>i. byte_of i w) [0, 1, 2, 3, 4, 5, 6, 7]"
| "mem64 BIG_ENDIAN w = map (\<lambda>i. byte_of i w) [7, 6, 5, 4, 3, 2, 1, 0]"

section \<open>Bitwise description of the swap\<close>

lemma bit_bswap32:
  "bit (bswap32 n) i \<longleftrightarrow>
     (if i < 8 then bit n (i + 24) else if i < 16 then bit n (i + 8)
      else if i < 24 then bit n (i - 8) else i < 32 \<and> bit n (i - 24))"
  by (auto simp: bswap32_def bit_simps add.commute not_less)

lemma bswap32_bswap32 [simp]: "bswap32 (bswap32 n) = n"
  by (rule bit_word_eqI) (auto simp: bit_bswap32)

lemma ntohl_htonl [simp]: "ntohl bo (htonl bo n) = n"
  by (cases bo) simp_all

lemma htonll_or:
  "GNUNET_htonll LITTLE_ENDIAN n =
     push_bit 32 (ucast (bswap32 (ucast n))) OR ucast (bswap32 (ucast (drop_bit 32 n)))"
  unfolding GNUNET_htonll.simps htonl.simps
  by (rule disjunctive_add) (auto simp: bit_simps bit_bswap32)

lemma bit_htonll:
  "bit (GNUNET_htonll LITTLE_ENDIAN n) i \<longleftrightarrow>
     (if i < 32 then bit (bswap32 (ucast (drop_bit 32 n))) i
      else i < 64 \<and> bit (bswap32 (ucast n)) (i - 32))"
  unfolding htonll_or by (auto simp: bit_simps) (auto simp: bit_bswap32)

lemma ntohll_eq_htonll: "GNUNET_ntohll bo n = GNUNET_htonll bo n"
  by (cases bo) simp_all

lemma htonll_htonll: "GNUNET_htonll bo (GNUNET_htonll bo n) = n"
proof (cases bo)
  case LITTLE_ENDIAN
  show ?thesis unfolding LITTLE_ENDIAN
    by (rule bit_word_eqI)
      (auto simp: bit_htonll bit_bswap32 bit_simps simp del: GNUNET_htonll.simps)
qed simp

lemma byte_of_htonll:
  assumes "i < 8"
  shows "byte_of i (GNUNET_htonll LITTLE_ENDIAN n) = byte_of (7 - i) n"
proof -
  from assms have "i \<in> {0, 1, 2, 3, 4, 5, 6, 7}" by auto
  then show ?thesis unfolding byte_of_def
    by (elim insertE emptyE; hypsubst; intro bit_word_eqI)
      (simp_all add: bit_htonll bit_bswap32 bit_simps add.commute del: GNUNET_htonll.simps)
qed

lemma mem64_htonll: "mem64 bo (GNUNET_htonll bo n) = mem64 BIG_ENDIAN n"
  by (cases bo) (simp_all add: byte_of_htonll del: GNUNET_htonll.simps(2))

section \<open>Integers in network byte order\<close>

text \<open>
  The bytes that \<^verbatim>\<open>htons\<close> and \<^verbatim>\<open>htonl\<close> leave in memory, and what \<^verbatim>\<open>ntohs\<close> and \<^verbatim>\<open>ntohl\<close> read from
  the bytes at an offset, on a machine of either byte order.
\<close>

definition be16 :: "u16 \<Rightarrow> byte list" where
  "be16 w = [ucast (drop_bit 8 w), ucast w]"

definition be32 :: "u32 \<Rightarrow> byte list" where
  "be32 w = [ucast (drop_bit 24 w), ucast (drop_bit 16 w), ucast (drop_bit 8 w), ucast w]"

definition get_be16 :: "byte list \<Rightarrow> nat \<Rightarrow> u16" where
  "get_be16 bs i = push_bit 8 (ucast (bs ! i)) OR ucast (bs ! (i + 1))"

definition get_be32 :: "byte list \<Rightarrow> nat \<Rightarrow> u32" where
  "get_be32 bs i =
     push_bit 24 (ucast (bs ! i)) OR push_bit 16 (ucast (bs ! (i + 1))) OR
     push_bit 8 (ucast (bs ! (i + 2))) OR ucast (bs ! (i + 3))"

lemma length_be [simp]: "length (be16 v) = 2" "length (be32 w) = 4"
  by (simp_all add: be16_def be32_def)

lemma be16_parts: "push_bit 8 (ucast (ucast (drop_bit 8 v) :: byte)) OR ucast (ucast v :: byte) = (v :: u16)"
  by (rule bit_word_eqI) (auto simp: bit_simps)

lemma be32_parts:
  "push_bit 24 (ucast (ucast (drop_bit 24 w) :: byte)) OR push_bit 16 (ucast (ucast (drop_bit 16 w) :: byte)) OR
   push_bit 8 (ucast (ucast (drop_bit 8 w) :: byte)) OR ucast (ucast w :: byte) = (w :: u32)"
  (is "?l = w")
proof (rule bit_word_eqI)
  fix n assume "n < LENGTH(32)"
  then consider "n < 8" | "8 \<le> n" "n < 16" | "16 \<le> n" "n < 24" | "24 \<le> n" "n < 32" by force
  then show "bit ?l n = bit w n" by cases (auto simp: bit_simps)
qed

lemma get_be16_be16 [simp]: "get_be16 (be16 v @ bs) 0 = v"
  using be16_parts [of v] by (simp add: get_be16_def be16_def)

lemma get_be32_be32 [simp]: "get_be32 (be32 w @ bs) 0 = w"
  using be32_parts [of w] by (simp add: get_be32_def be32_def)

lemma get_be_append [simp]:
  "get_be16 (xs @ bs) (length xs + i) = get_be16 bs i"
  "get_be32 (xs @ bs) (length xs + i) = get_be32 bs i"
  by (simp_all add: get_be16_def get_be32_def nth_append)

definition be64 :: "u64 \<Rightarrow> byte list" where
  "be64 w = be32 (ucast (drop_bit 32 w)) @ be32 (ucast w)"

definition get_be64 :: "byte list \<Rightarrow> nat \<Rightarrow> u64" where
  "get_be64 bs i = push_bit 32 (ucast (get_be32 bs i)) OR ucast (get_be32 bs (i + 4))"

lemma length_be64 [simp]: "length (be64 w) = 8"
  by (simp add: be64_def)

lemma get_be64_be64 [simp]: "get_be64 (be64 w @ bs) 0 = w"
proof -
  have "get_be32 (be32 (ucast (drop_bit 32 w)) @ be32 (ucast w) @ bs) 4 = ucast w"
    using get_be_append(2) [of "be32 (ucast (drop_bit 32 w))" "be32 (ucast w) @ bs" 0] by simp
  moreover have "push_bit 32 (ucast (ucast (drop_bit 32 w) :: u32)) OR ucast (ucast w :: u32) = w"
    by (rule bit_word_eqI) (auto simp: bit_simps)
  ultimately show ?thesis by (simp add: get_be64_def be64_def)
qed

lemma get_be64_append [simp]: "get_be64 (xs @ bs) (length xs + i) = get_be64 bs i"
  using get_be_append(2) [of xs bs i] get_be_append(2) [of xs bs "i + 4"]
  by (simp add: get_be64_def add.assoc)

lemma be64_mem64: "be64 w = mem64 BIG_ENDIAN w"
  by (simp add: be64_def be32_def byte_of_def) (auto intro!: bit_word_eqI simp: bit_simps)

lemma be16_get_be16:
  assumes "2 \<le> length bs"
  shows "be16 (get_be16 bs 0) = take 2 bs"
proof -
  obtain x y r where bs: "bs = x # y # r" using assms by (cases bs; cases "tl bs") auto
  have "ucast (drop_bit 8 (push_bit 8 (ucast x) OR ucast y :: u16)) = x"
    by (rule bit_word_eqI) (auto simp: bit_simps dest: bit_imp_le_length)
  moreover have "ucast (push_bit 8 (ucast x) OR ucast y :: u16) = y"
    by (rule bit_word_eqI) (auto simp: bit_simps)
  ultimately show ?thesis by (simp add: bs be16_def get_be16_def)
qed

end
