(* ===== verification/Time_Lib.thy ===== *)
theory Time_Lib
  imports Endian
begin

text \<open>
  Absolute and relative times, \<^verbatim>\<open>src/src/util/time.c\<close> and
  \<^verbatim>\<open>src/src/include/gnunet_time_lib.h\<close>.  Times are milliseconds in 64-bit unsigned integers and the
  value \<open>UINT64_MAX\<close> stands for \<^emph>\<open>forever\<close>.  A function that reads the clock takes the time it read
  as the argument \<open>now\<close>.  \<open>GNUNET_TIME_calculate_eta\<close> computes in floating point and is left out.

  The lemmas read times as natural numbers and show that addition and multiplication saturate at
  \<^emph>\<open>forever\<close> instead of wrapping around, that subtraction and differences stop at zero, and that the
  conversions to network byte order lose nothing.
\<close>

definition UINT64_MAX :: u64 where "UINT64_MAX = 0xFFFFFFFFFFFFFFFF"

record GNUNET_TIME_Absolute = abs_value :: u64

record GNUNET_TIME_Relative = rel_value :: u64

record GNUNET_TIME_AbsoluteNBO = abs_value_nbo :: u64

record GNUNET_TIME_RelativeNBO = rel_value_nbo :: u64

definition GNUNET_TIME_absolute_get :: "u64 \<Rightarrow> u64 \<Rightarrow> u64 \<Rightarrow> GNUNET_TIME_Absolute" where
  "GNUNET_TIME_absolute_get tv_sec tv_usec timestamp_offset =
     \<lparr>abs_value = (tv_sec * 1000 + tv_usec div 1000) + timestamp_offset\<rparr>"

definition GNUNET_TIME_UNIT_ZERO :: GNUNET_TIME_Relative where [time_defs]:
  "GNUNET_TIME_UNIT_ZERO = \<lparr>rel_value = 0\<rparr>"

definition GNUNET_TIME_UNIT_ZERO_ABS :: GNUNET_TIME_Absolute where [time_defs]:
  "GNUNET_TIME_UNIT_ZERO_ABS = \<lparr>abs_value = 0\<rparr>"

definition GNUNET_TIME_UNIT_MILLISECONDS :: GNUNET_TIME_Relative where [time_defs]:
  "GNUNET_TIME_UNIT_MILLISECONDS = \<lparr>rel_value = 1\<rparr>"

definition GNUNET_TIME_UNIT_SECONDS :: GNUNET_TIME_Relative where [time_defs]:
  "GNUNET_TIME_UNIT_SECONDS = \<lparr>rel_value = 1000\<rparr>"

definition GNUNET_TIME_UNIT_MINUTES :: GNUNET_TIME_Relative where [time_defs]:
  "GNUNET_TIME_UNIT_MINUTES = \<lparr>rel_value = 60 * 1000\<rparr>"

definition GNUNET_TIME_UNIT_HOURS :: GNUNET_TIME_Relative where [time_defs]:
  "GNUNET_TIME_UNIT_HOURS = \<lparr>rel_value = 60 * 60 * 1000\<rparr>"

definition GNUNET_TIME_UNIT_FOREVER_REL :: GNUNET_TIME_Relative where [time_defs]:
  "GNUNET_TIME_UNIT_FOREVER_REL = \<lparr>rel_value = UINT64_MAX\<rparr>"

definition GNUNET_TIME_UNIT_FOREVER_ABS :: GNUNET_TIME_Absolute where [time_defs]:
  "GNUNET_TIME_UNIT_FOREVER_ABS = \<lparr>abs_value = UINT64_MAX\<rparr>"

definition GNUNET_TIME_relative_to_absolute ::
    "GNUNET_TIME_Absolute \<Rightarrow> GNUNET_TIME_Relative \<Rightarrow> GNUNET_TIME_Absolute" where [time_defs]:
  "GNUNET_TIME_relative_to_absolute now rel =
     (if rel_value rel = UINT64_MAX then GNUNET_TIME_UNIT_FOREVER_ABS
      else if rel_value rel + abs_value now < rel_value rel then GNUNET_TIME_UNIT_FOREVER_ABS
      else \<lparr>abs_value = rel_value rel + abs_value now\<rparr>)"

definition GNUNET_TIME_relative_min ::
    "GNUNET_TIME_Relative \<Rightarrow> GNUNET_TIME_Relative \<Rightarrow> GNUNET_TIME_Relative" where [time_defs]:
  "GNUNET_TIME_relative_min t1 t2 = (if rel_value t1 < rel_value t2 then t1 else t2)"

definition GNUNET_TIME_relative_max ::
    "GNUNET_TIME_Relative \<Rightarrow> GNUNET_TIME_Relative \<Rightarrow> GNUNET_TIME_Relative" where [time_defs]:
  "GNUNET_TIME_relative_max t1 t2 = (if rel_value t1 > rel_value t2 then t1 else t2)"

definition GNUNET_TIME_absolute_min ::
    "GNUNET_TIME_Absolute \<Rightarrow> GNUNET_TIME_Absolute \<Rightarrow> GNUNET_TIME_Absolute" where [time_defs]:
  "GNUNET_TIME_absolute_min t1 t2 = (if abs_value t1 < abs_value t2 then t1 else t2)"

definition GNUNET_TIME_absolute_max ::
    "GNUNET_TIME_Absolute \<Rightarrow> GNUNET_TIME_Absolute \<Rightarrow> GNUNET_TIME_Absolute" where [time_defs]:
  "GNUNET_TIME_absolute_max t1 t2 = (if abs_value t1 > abs_value t2 then t1 else t2)"

definition GNUNET_TIME_absolute_get_remaining ::
    "GNUNET_TIME_Absolute \<Rightarrow> GNUNET_TIME_Absolute \<Rightarrow> GNUNET_TIME_Relative" where [time_defs]:
  "GNUNET_TIME_absolute_get_remaining now future =
     (if abs_value future = UINT64_MAX then GNUNET_TIME_UNIT_FOREVER_REL
      else if abs_value now > abs_value future then GNUNET_TIME_UNIT_ZERO
      else \<lparr>rel_value = abs_value future - abs_value now\<rparr>)"

definition GNUNET_TIME_absolute_get_difference ::
    "GNUNET_TIME_Absolute \<Rightarrow> GNUNET_TIME_Absolute \<Rightarrow> GNUNET_TIME_Relative" where [time_defs]:
  "GNUNET_TIME_absolute_get_difference start end_t =
     (if abs_value end_t = UINT64_MAX then GNUNET_TIME_UNIT_FOREVER_REL
      else if abs_value end_t < abs_value start then GNUNET_TIME_UNIT_ZERO
      else \<lparr>rel_value = abs_value end_t - abs_value start\<rparr>)"

definition GNUNET_TIME_absolute_get_duration ::
    "GNUNET_TIME_Absolute \<Rightarrow> GNUNET_TIME_Absolute \<Rightarrow> GNUNET_TIME_Relative option" where [time_defs]:
  "GNUNET_TIME_absolute_get_duration now whence =
     (if abs_value whence = UINT64_MAX then None
      else if abs_value whence > abs_value now then Some GNUNET_TIME_UNIT_ZERO
      else Some \<lparr>rel_value = abs_value now - abs_value whence\<rparr>)"

definition GNUNET_TIME_absolute_add ::
    "GNUNET_TIME_Absolute \<Rightarrow> GNUNET_TIME_Relative \<Rightarrow> GNUNET_TIME_Absolute" where [time_defs]:
  "GNUNET_TIME_absolute_add start duration =
     (if abs_value start = UINT64_MAX \<or> rel_value duration = UINT64_MAX
      then GNUNET_TIME_UNIT_FOREVER_ABS
      else if abs_value start + rel_value duration < abs_value start
      then GNUNET_TIME_UNIT_FOREVER_ABS
      else \<lparr>abs_value = abs_value start + rel_value duration\<rparr>)"

definition GNUNET_TIME_absolute_subtract ::
    "GNUNET_TIME_Absolute \<Rightarrow> GNUNET_TIME_Relative \<Rightarrow> GNUNET_TIME_Absolute" where [time_defs]:
  "GNUNET_TIME_absolute_subtract start duration =
     (if abs_value start \<le> rel_value duration then GNUNET_TIME_UNIT_ZERO_ABS
      else if abs_value start = abs_value GNUNET_TIME_UNIT_FOREVER_ABS
      then GNUNET_TIME_UNIT_FOREVER_ABS
      else \<lparr>abs_value = abs_value start - rel_value duration\<rparr>)"

definition GNUNET_TIME_relative_multiply ::
    "GNUNET_TIME_Relative \<Rightarrow> u32 \<Rightarrow> GNUNET_TIME_Relative" where [time_defs]:
  "GNUNET_TIME_relative_multiply rel factor =
     (if factor = 0 then GNUNET_TIME_UNIT_ZERO
      else let ret = rel_value rel * ucast factor in
        if ret div ucast factor \<noteq> rel_value rel then GNUNET_TIME_UNIT_FOREVER_REL
        else \<lparr>rel_value = ret\<rparr>)"

definition GNUNET_TIME_relative_divide ::
    "GNUNET_TIME_Relative \<Rightarrow> u32 \<Rightarrow> GNUNET_TIME_Relative" where [time_defs]:
  "GNUNET_TIME_relative_divide rel factor =
     (if factor = 0 \<or> rel_value rel = rel_value GNUNET_TIME_UNIT_FOREVER_REL
      then GNUNET_TIME_UNIT_FOREVER_REL
      else \<lparr>rel_value = rel_value rel div ucast factor\<rparr>)"

definition GNUNET_TIME_relative_add ::
    "GNUNET_TIME_Relative \<Rightarrow> GNUNET_TIME_Relative \<Rightarrow> GNUNET_TIME_Relative" where [time_defs]:
  "GNUNET_TIME_relative_add a1 a2 =
     (if rel_value a1 = UINT64_MAX \<or> rel_value a2 = UINT64_MAX
      then GNUNET_TIME_UNIT_FOREVER_REL
      else if rel_value a1 + rel_value a2 < rel_value a1 then GNUNET_TIME_UNIT_FOREVER_REL
      else \<lparr>rel_value = rel_value a1 + rel_value a2\<rparr>)"

definition GNUNET_TIME_relative_subtract ::
    "GNUNET_TIME_Relative \<Rightarrow> GNUNET_TIME_Relative \<Rightarrow> GNUNET_TIME_Relative" where [time_defs]:
  "GNUNET_TIME_relative_subtract a1 a2 =
     (if rel_value a2 \<ge> rel_value a1 then GNUNET_TIME_UNIT_ZERO
      else if rel_value a1 = UINT64_MAX then GNUNET_TIME_UNIT_FOREVER_REL
      else \<lparr>rel_value = rel_value a1 - rel_value a2\<rparr>)"

definition GNUNET_TIME_relative_hton ::
    "byte_order \<Rightarrow> GNUNET_TIME_Relative \<Rightarrow> GNUNET_TIME_RelativeNBO" where
  "GNUNET_TIME_relative_hton bo a = \<lparr>rel_value_nbo = GNUNET_htonll bo (rel_value a)\<rparr>"

definition GNUNET_TIME_relative_ntoh ::
    "byte_order \<Rightarrow> GNUNET_TIME_RelativeNBO \<Rightarrow> GNUNET_TIME_Relative" where
  "GNUNET_TIME_relative_ntoh bo a = \<lparr>rel_value = GNUNET_ntohll bo (rel_value_nbo a)\<rparr>"

definition GNUNET_TIME_absolute_hton ::
    "byte_order \<Rightarrow> GNUNET_TIME_Absolute \<Rightarrow> GNUNET_TIME_AbsoluteNBO" where
  "GNUNET_TIME_absolute_hton bo a = \<lparr>abs_value_nbo = GNUNET_htonll bo (abs_value a)\<rparr>"

definition GNUNET_TIME_absolute_ntoh ::
    "byte_order \<Rightarrow> GNUNET_TIME_AbsoluteNBO \<Rightarrow> GNUNET_TIME_Absolute" where
  "GNUNET_TIME_absolute_ntoh bo a = \<lparr>abs_value = GNUNET_ntohll bo (abs_value_nbo a)\<rparr>"

section \<open>Times as natural numbers\<close>

lemma unat_UINT64_MAX [simp]: "unat UINT64_MAX = 18446744073709551615"
  by (simp add: UINT64_MAX_def)

lemma UINT64_MAX_iff: "x = UINT64_MAX \<longleftrightarrow> unat x = 18446744073709551615"
  by (simp add: word_unat_eq_iff)

lemma unat_le_UINT64_MAX [simp]: "unat (x :: u64) \<le> 18446744073709551615"
  using unat_u64_lt [of x] by linarith

lemma sat_add_u64:
  "(if x = UINT64_MAX \<or> y = UINT64_MAX then UINT64_MAX
    else if x + y < x then UINT64_MAX else x + y) = z \<Longrightarrow>
   unat z = min 18446744073709551615 (unat x + unat y)"
  by (auto simp: UINT64_MAX_iff sat_simps)

lemma unat_absolute_add [sat_simps]:
  "unat (abs_value (GNUNET_TIME_absolute_add s d)) =
     min 18446744073709551615 (unat (abs_value s) + unat (rel_value d))"
  by (rule sat_add_u64) (simp add: time_defs)

lemma unat_relative_add [sat_simps]:
  "unat (rel_value (GNUNET_TIME_relative_add a b)) =
     min 18446744073709551615 (unat (rel_value a) + unat (rel_value b))"
  by (rule sat_add_u64) (simp add: time_defs)

lemma unat_relative_to_absolute [sat_simps]:
  "unat (abs_value (GNUNET_TIME_relative_to_absolute now r)) =
     min 18446744073709551615 (unat (rel_value r) + unat (abs_value now))"
  by (auto simp: UINT64_MAX_iff sat_simps time_defs)

lemma mult_overflow_detected:
  fixes a b m :: nat
  assumes "0 < b" "b < m" "a < m"
  shows "(a * b mod m) div b = a \<longleftrightarrow> a * b < m"
proof
  assume "a * b < m"
  then show "(a * b mod m) div b = a" using assms by simp
next
  assume eq: "(a * b mod m) div b = a"
  show "a * b < m"
  proof (rule ccontr)
    assume "\<not> a * b < m"
    then have "a * b mod m \<le> a * b - m"
      by (metis le_mod_geq mod_less_eq_dividend not_less)
    also have "\<dots> < a * b - b" using assms \<open>\<not> a * b < m\<close> by linarith
    finally have "(a * b mod m) div b \<le> (a * b - b - 1) div b"
      by (intro div_le_mono) linarith
    also have "\<dots> < a" using assms \<open>\<not> a * b < m\<close>
      by (auto simp: div_less_iff_less_mult)
    finally show False using eq by simp
  qed
qed

lemma unat_relative_multiply [sat_simps]:
  "unat (rel_value (GNUNET_TIME_relative_multiply r f)) =
     min 18446744073709551615 (unat (rel_value r) * unat f)"
proof (cases "f = 0")
  case False
  let ?a = "unat (rel_value r)" and ?b = "unat f"
  have b: "0 < ?b" using False by (simp add: unat_gt_0)
  have "?b < 2 ^ 64" by (rule less_trans [OF unat_u32_lt]) simp
  have uf: "unat (ucast f :: u64) = ?b" by simp
  have prod: "unat (rel_value r * ucast f) = ?a * ?b mod 2 ^ 64"
    by (simp add: unat_word_ariths uf)
  have "(rel_value r * ucast f) div ucast f = rel_value r \<longleftrightarrow> (?a * ?b mod 2 ^ 64) div ?b = ?a"
    by (simp add: word_unat_eq_iff unat_div_distrib prod uf)
  also have "\<dots> \<longleftrightarrow> ?a * ?b < 2 ^ 64"
    by (rule mult_overflow_detected) (use b \<open>?b < 2 ^ 64\<close> in auto)
  finally show ?thesis using False prod
    by (auto simp: time_defs Let_def)
qed (simp add: time_defs)

lemma unat_u64_diff:
  fixes x y :: u64
  shows "y \<le> x \<Longrightarrow> unat (x - y) = unat x - unat y"
  by (rule unat_sub)

lemma relative_eq_iff: "(a :: GNUNET_TIME_Relative) = b \<longleftrightarrow> unat (rel_value a) = unat (rel_value b)"
  by (auto simp: word_unat_eq_iff)

lemma absolute_eq_iff: "(a :: GNUNET_TIME_Absolute) = b \<longleftrightarrow> unat (abs_value a) = unat (abs_value b)"
  by (auto simp: word_unat_eq_iff)

lemma relative_add_commute:
  "GNUNET_TIME_relative_add a b = GNUNET_TIME_relative_add b a"
  by (simp add: relative_eq_iff sat_simps add.commute)

lemma relative_add_assoc:
  "GNUNET_TIME_relative_add (GNUNET_TIME_relative_add a b) c =
   GNUNET_TIME_relative_add a (GNUNET_TIME_relative_add b c)"
  by (simp add: relative_eq_iff sat_simps min_def)

lemma unat_get_difference:
  assumes "abs_value e \<noteq> UINT64_MAX"
  shows "unat (rel_value (GNUNET_TIME_absolute_get_difference s e)) =
     unat (abs_value e) - unat (abs_value s)"
  using assms by (auto simp: time_defs word_less_nat_alt word_le_nat_alt unat_sub not_less)

lemma unat_get_remaining:
  assumes "abs_value e \<noteq> UINT64_MAX"
  shows "unat (rel_value (GNUNET_TIME_absolute_get_remaining now e)) =
     unat (abs_value e) - unat (abs_value now)"
  using assms by (auto simp: time_defs word_less_nat_alt word_le_nat_alt unat_sub not_less)

lemma unat_absolute_subtract:
  assumes "abs_value s \<noteq> UINT64_MAX"
  shows "unat (abs_value (GNUNET_TIME_absolute_subtract s d)) =
     unat (abs_value s) - unat (rel_value d)"
  using assms by (auto simp: time_defs word_le_nat_alt unat_sub not_le)

lemma unat_relative_subtract:
  assumes "rel_value a \<noteq> UINT64_MAX"
  shows "unat (rel_value (GNUNET_TIME_relative_subtract a b)) =
     unat (rel_value a) - unat (rel_value b)"
  using assms by (auto simp: time_defs word_le_nat_alt unat_sub not_le)

lemma unat_get_duration:
  "abs_value w \<noteq> UINT64_MAX \<Longrightarrow>
   \<exists>d. GNUNET_TIME_absolute_get_duration now w = Some d \<and>
       unat (rel_value d) = unat (abs_value now) - unat (abs_value w)"
  by (auto simp: time_defs word_less_nat_alt word_le_nat_alt unat_sub not_less)

lemma unat_relative_divide:
  assumes "f \<noteq> 0" and "rel_value r \<noteq> UINT64_MAX"
  shows "unat (rel_value (GNUNET_TIME_relative_divide r f)) = unat (rel_value r) div unat f"
  using assms by (simp add: time_defs unat_div_distrib)

section \<open>Properties\<close>


text \<open>
  C22: Below saturation the operations undo each other: the difference from the start to start plus
  duration is the duration, subtracting the duration gives the start back, and the time remaining
  until a deadline made from a duration is that duration.
\<close>

theorem time_add_inverse:
  assumes "unat (abs_value s) + unat (rel_value d) < 2 ^ 64 - 1"
  shows "GNUNET_TIME_absolute_get_difference s (GNUNET_TIME_absolute_add s d) = d \<and>
    GNUNET_TIME_absolute_subtract (GNUNET_TIME_absolute_add s d) d = s \<and>
    GNUNET_TIME_absolute_get_remaining s (GNUNET_TIME_relative_to_absolute s d) = d"
  using assms
  by (simp_all add: relative_eq_iff absolute_eq_iff unat_get_difference unat_absolute_subtract
      unat_get_remaining UINT64_MAX_iff sat_simps)

theorem time_add_inverse_witness:
  "GNUNET_TIME_absolute_get_difference \<lparr>abs_value = 1000\<rparr>
     (GNUNET_TIME_absolute_add \<lparr>abs_value = 1000\<rparr> \<lparr>rel_value = 500\<rparr>) = \<lparr>rel_value = 500\<rparr>"
  using time_add_inverse [of "\<lparr>abs_value = 1000\<rparr>" "\<lparr>rel_value = 500\<rparr>"] by simp

text \<open>
  C23: Converting a time to network byte order and back is the identity on every host, and in memory
  the converted value is the big-endian encoding, whatever the byte order of the host.
\<close>

theorem time_network_order:
  "GNUNET_TIME_absolute_ntoh bo (GNUNET_TIME_absolute_hton bo a) = a \<and>
   GNUNET_TIME_relative_ntoh bo (GNUNET_TIME_relative_hton bo r) = r \<and>
   mem64 bo (abs_value_nbo (GNUNET_TIME_absolute_hton bo a)) = mem64 BIG_ENDIAN (abs_value a) \<and>
   mem64 bo (rel_value_nbo (GNUNET_TIME_relative_hton bo r)) = mem64 BIG_ENDIAN (rel_value r)"
  by (simp add: GNUNET_TIME_absolute_ntoh_def GNUNET_TIME_absolute_hton_def
      GNUNET_TIME_relative_ntoh_def GNUNET_TIME_relative_hton_def ntohll_eq_htonll
      htonll_htonll mem64_htonll)

end
