(* ===== verification/Hash_Code.thy ===== *)
theory Hash_Code
  imports Prelude
begin

text \<open>
  The 512-bit hash code of \<^verbatim>\<open>src/src/include/gnunet_common.h\<close>.  The C structure is an array of
  sixteen 32-bit words; here it is one 512-bit word whose \<open>i\<close>-th 32-bit slice is the array element,
  so that \<^verbatim>\<open>memcmp\<close> over the whole structure is equality.
\<close>

type_synonym GNUNET_HashCode = "512 word"

definition hash_bits :: "GNUNET_HashCode \<Rightarrow> nat \<Rightarrow> u32" where
  "hash_bits h i = ucast (drop_bit (32 * i) h)"

lemma hash_code_eqI:
  assumes "\<And>i. i < 16 \<Longrightarrow> hash_bits a i = hash_bits b i"
  shows "a = b"
proof (rule bit_word_eqI)
  fix n assume "n < LENGTH(512)"
  then have "n div 32 < 16" by simp
  then have "bit (hash_bits a (n div 32)) (n mod 32) = bit (hash_bits b (n div 32)) (n mod 32)"
    using assms by simp
  then show "bit a n = bit b n"
    by (simp add: hash_bits_def bit_simps)
qed

end
