(* ===== verification/Multi_Hash_Map.thy ===== *)
theory Multi_Hash_Map
  imports Hash_Code
begin

text \<open>
  The hash map from 512-bit keys to values, \<^verbatim>\<open>src/src/util/container_multihashmap.c\<close>.  Values are C
  pointers: \<open>None\<close> is \<^verbatim>\<open>NULL\<close>.  A bucket is the linked list of its entries, head first.  The two
  entry layouts of the C code (key stored in the entry, or a pointer to a key the caller keeps alive
  and unchanged) run the same loops; an entry here holds the key and the flag \<open>use_small_entries\<close> is
  kept in the map.  A division by zero in \<open>idx_of\<close>, which the C code reaches when doubling the
  number of buckets wraps around to 0, is the result \<open>None\<close>.

  The interface of the map is the locale \<open>multimap\<close>: a map is a multiset of key-value pairs.  Its
  interpretation at the end shows that the bucket implementation keeps that contract; clients use the
  map through it.
\<close>

section \<open>The map\<close>

record 'v MapEntry =
  me_key :: GNUNET_HashCode
  me_value :: "'v option"

record 'v GNUNET_CONTAINER_MultiHashMap =
  map_buckets :: "'v MapEntry list list"
  map_size :: u32
  map_length :: u32
  use_small_entries :: bool

datatype GNUNET_CONTAINER_MultiHashMapOption =
  MULTIHASHMAPOPTION_REPLACE
| MULTIHASHMAPOPTION_MULTIPLE
| MULTIHASHMAPOPTION_UNIQUE_ONLY
| MULTIHASHMAPOPTION_UNIQUE_FAST

definition GNUNET_CONTAINER_multihashmap_create ::
    "u32 \<Rightarrow> bool \<Rightarrow> 'v GNUNET_CONTAINER_MultiHashMap option" where
  "GNUNET_CONTAINER_multihashmap_create len do_not_copy_keys =
     (if len > 0
      then Some \<lparr>map_buckets = replicate (unat len) [], map_size = 0, map_length = len,
                 use_small_entries = do_not_copy_keys\<rparr>
      else None)"

definition idx_in :: "u32 \<Rightarrow> GNUNET_HashCode \<Rightarrow> nat" where
  "idx_in len key = unat (hash_bits key 0 mod len)"

definition idx_of :: "'v GNUNET_CONTAINER_MultiHashMap \<Rightarrow> GNUNET_HashCode \<Rightarrow> nat" where
  "idx_of m key = idx_in (map_length m) key"

definition GNUNET_CONTAINER_multihashmap_size :: "'v GNUNET_CONTAINER_MultiHashMap \<Rightarrow> u32" where
  "GNUNET_CONTAINER_multihashmap_size m = map_size m"

fun bucket_get :: "GNUNET_HashCode \<Rightarrow> 'v MapEntry list \<Rightarrow> 'v option" where
  "bucket_get key [] = None"
| "bucket_get key (e # es) = (if key = me_key e then me_value e else bucket_get key es)"

definition GNUNET_CONTAINER_multihashmap_get ::
    "'v GNUNET_CONTAINER_MultiHashMap \<Rightarrow> GNUNET_HashCode \<Rightarrow> 'v option" where
  "GNUNET_CONTAINER_multihashmap_get m key = bucket_get key (map_buckets m ! idx_of m key)"

type_synonym ('v, 's) HashMapIterator = "'s \<Rightarrow> GNUNET_HashCode \<Rightarrow> 'v option \<Rightarrow> 's \<times> int"

fun bucket_iterate ::
    "('v, 's) HashMapIterator option \<Rightarrow> 'v MapEntry list \<Rightarrow> 's \<Rightarrow> int \<Rightarrow> 's \<times> int option" where
  "bucket_iterate it [] s cnt = (s, Some cnt)"
| "bucket_iterate it (e # es) s cnt =
     (case it of
        None \<Rightarrow> bucket_iterate it es s (cnt + 1)
      | Some f \<Rightarrow>
          (case f s (me_key e) (me_value e) of
             (s', r) \<Rightarrow> if r \<noteq> GNUNET_OK then (s', None)
                        else bucket_iterate it es s' (cnt + 1)))"

fun buckets_iterate ::
    "('v, 's) HashMapIterator option \<Rightarrow> 'v MapEntry list list \<Rightarrow> 's \<Rightarrow> int \<Rightarrow> 's \<times> int" where
  "buckets_iterate it [] s cnt = (s, cnt)"
| "buckets_iterate it (b # bs) s cnt =
     (case bucket_iterate it b s cnt of
        (s', None) \<Rightarrow> (s', GNUNET_SYSERR)
      | (s', Some c) \<Rightarrow> buckets_iterate it bs s' c)"

definition GNUNET_CONTAINER_multihashmap_iterate ::
    "'v GNUNET_CONTAINER_MultiHashMap \<Rightarrow> ('v, 's) HashMapIterator option \<Rightarrow> 's \<Rightarrow> 's \<times> int" where
  "GNUNET_CONTAINER_multihashmap_iterate m it s = buckets_iterate it (map_buckets m) s 0"

fun bucket_remove ::
    "GNUNET_HashCode \<Rightarrow> 'v option \<Rightarrow> 'v MapEntry list \<Rightarrow> 'v MapEntry list option" where
  "bucket_remove key value [] = None"
| "bucket_remove key value (e # es) =
     (if key = me_key e \<and> value = me_value e then Some es
      else map_option ((#) e) (bucket_remove key value es))"

definition GNUNET_CONTAINER_multihashmap_remove ::
    "'v GNUNET_CONTAINER_MultiHashMap \<Rightarrow> GNUNET_HashCode \<Rightarrow> 'v option \<Rightarrow>
     'v GNUNET_CONTAINER_MultiHashMap \<times> int" where
  "GNUNET_CONTAINER_multihashmap_remove m key value =
     (let i = idx_of m key in
      case bucket_remove key value (map_buckets m ! i) of
        None \<Rightarrow> (m, GNUNET_NO)
      | Some b \<Rightarrow>
          (m\<lparr>map_buckets := (map_buckets m)[i := b], map_size := map_size m - 1\<rparr>, GNUNET_YES))"

fun bucket_remove_all :: "GNUNET_HashCode \<Rightarrow> 'v MapEntry list \<Rightarrow> nat \<Rightarrow> 'v MapEntry list \<times> nat" where
  "bucket_remove_all key [] ret = ([], ret)"
| "bucket_remove_all key (e # es) ret =
     (if key = me_key e then bucket_remove_all key es (ret + 1)
      else case bucket_remove_all key es ret of (es', r) \<Rightarrow> (e # es', r))"

definition GNUNET_CONTAINER_multihashmap_remove_all ::
    "'v GNUNET_CONTAINER_MultiHashMap \<Rightarrow> GNUNET_HashCode \<Rightarrow>
     'v GNUNET_CONTAINER_MultiHashMap \<times> int" where
  "GNUNET_CONTAINER_multihashmap_remove_all m key =
     (let i = idx_of m key in
      case bucket_remove_all key (map_buckets m ! i) 0 of
        (b, ret) \<Rightarrow>
          (m\<lparr>map_buckets := (map_buckets m)[i := b], map_size := map_size m - of_nat ret\<rparr>,
           int ret))"

fun bucket_contains :: "GNUNET_HashCode \<Rightarrow> 'v MapEntry list \<Rightarrow> int" where
  "bucket_contains key [] = GNUNET_NO"
| "bucket_contains key (e # es) = (if key = me_key e then GNUNET_YES else bucket_contains key es)"

definition GNUNET_CONTAINER_multihashmap_contains ::
    "'v GNUNET_CONTAINER_MultiHashMap \<Rightarrow> GNUNET_HashCode \<Rightarrow> int" where
  "GNUNET_CONTAINER_multihashmap_contains m key = bucket_contains key (map_buckets m ! idx_of m key)"

fun bucket_contains_value :: "GNUNET_HashCode \<Rightarrow> 'v option \<Rightarrow> 'v MapEntry list \<Rightarrow> int" where
  "bucket_contains_value key value [] = GNUNET_NO"
| "bucket_contains_value key value (e # es) =
     (if key = me_key e \<and> me_value e = value then GNUNET_YES
      else bucket_contains_value key value es)"

definition GNUNET_CONTAINER_multihashmap_contains_value ::
    "'v GNUNET_CONTAINER_MultiHashMap \<Rightarrow> GNUNET_HashCode \<Rightarrow> 'v option \<Rightarrow> int" where
  "GNUNET_CONTAINER_multihashmap_contains_value m key value =
     bucket_contains_value key value (map_buckets m ! idx_of m key)"

fun rehash_bucket ::
    "u32 \<Rightarrow> 'v MapEntry list \<Rightarrow> 'v MapEntry list list \<Rightarrow> 'v MapEntry list list" where
  "rehash_bucket len [] new_map = new_map"
| "rehash_bucket len (e # es) new_map =
     (let idx = idx_in len (me_key e) in
      rehash_bucket len es (new_map[idx := e # new_map ! idx]))"

fun rehash_buckets ::
    "u32 \<Rightarrow> 'v MapEntry list list \<Rightarrow> 'v MapEntry list list \<Rightarrow> 'v MapEntry list list" where
  "rehash_buckets len [] new_map = new_map"
| "rehash_buckets len (b # bs) new_map = rehash_buckets len bs (rehash_bucket len b new_map)"

definition grow :: "'v GNUNET_CONTAINER_MultiHashMap \<Rightarrow> 'v GNUNET_CONTAINER_MultiHashMap option" where
  "grow m =
     (let new_len = map_length m * 2 in
      if new_len = 0 then None
      else Some (m\<lparr>map_length := new_len,
                   map_buckets := rehash_buckets new_len (map_buckets m)
                                    (replicate (unat new_len) [])\<rparr>))"

fun bucket_set :: "GNUNET_HashCode \<Rightarrow> 'v option \<Rightarrow> 'v MapEntry list \<Rightarrow> 'v MapEntry list option" where
  "bucket_set key value [] = None"
| "bucket_set key value (e # es) =
     (if key = me_key e then Some (e\<lparr>me_value := value\<rparr> # es)
      else map_option ((#) e) (bucket_set key value es))"

definition put_new ::
    "'v GNUNET_CONTAINER_MultiHashMap \<Rightarrow> GNUNET_HashCode \<Rightarrow> 'v option \<Rightarrow>
     'v GNUNET_CONTAINER_MultiHashMap" where
  "put_new m key value =
     (let i = idx_of m key in
      m\<lparr>map_buckets := (map_buckets m)
           [i := \<lparr>me_key = key, me_value = value\<rparr> # map_buckets m ! i],
        map_size := map_size m + 1\<rparr>)"

definition GNUNET_CONTAINER_multihashmap_put ::
    "'v GNUNET_CONTAINER_MultiHashMap \<Rightarrow> GNUNET_HashCode \<Rightarrow> 'v option \<Rightarrow>
     GNUNET_CONTAINER_MultiHashMapOption \<Rightarrow> ('v GNUNET_CONTAINER_MultiHashMap \<times> int) option" where
  "GNUNET_CONTAINER_multihashmap_put m key value opt =
     (let i = idx_of m key;
          found = (if opt \<noteq> MULTIHASHMAPOPTION_MULTIPLE \<and> opt \<noteq> MULTIHASHMAPOPTION_UNIQUE_FAST
                   then bucket_set key value (map_buckets m ! i) else None)
      in case found of
           Some b \<Rightarrow>
             if opt = MULTIHASHMAPOPTION_UNIQUE_ONLY then Some (m, GNUNET_SYSERR)
             else Some (m\<lparr>map_buckets := (map_buckets m)[i := b]\<rparr>, GNUNET_NO)
         | None \<Rightarrow>
             if map_size m div 3 \<ge> map_length m div 4
             then (case grow m of
                     None \<Rightarrow> None
                   | Some m' \<Rightarrow> Some (put_new m' key value, GNUNET_OK))
             else Some (put_new m key value, GNUNET_OK))"

fun bucket_get_multiple ::
    "('v, 's) HashMapIterator option \<Rightarrow> GNUNET_HashCode \<Rightarrow> 'v MapEntry list \<Rightarrow> 's \<Rightarrow> int \<Rightarrow> 's \<times> int"
where
  "bucket_get_multiple it key [] s cnt = (s, cnt)"
| "bucket_get_multiple it key (e # es) s cnt =
     (if key \<noteq> me_key e then bucket_get_multiple it key es s cnt
      else case it of
        None \<Rightarrow> bucket_get_multiple it key es s (cnt + 1)
      | Some f \<Rightarrow>
          (case f s key (me_value e) of
             (s', r) \<Rightarrow> if r \<noteq> GNUNET_OK then (s', GNUNET_SYSERR)
                        else bucket_get_multiple it key es s' (cnt + 1)))"

definition GNUNET_CONTAINER_multihashmap_get_multiple ::
    "'v GNUNET_CONTAINER_MultiHashMap \<Rightarrow> GNUNET_HashCode \<Rightarrow> ('v, 's) HashMapIterator option \<Rightarrow> 's \<Rightarrow>
     's \<times> int" where
  "GNUNET_CONTAINER_multihashmap_get_multiple m key it s =
     bucket_get_multiple it key (map_buckets m ! idx_of m key) s 0"

section \<open>The abstract map and the invariant\<close>

definition pair_of :: "'v MapEntry \<Rightarrow> GNUNET_HashCode \<times> 'v option" where
  "pair_of e = (me_key e, me_value e)"

definition map_pairs :: "'v GNUNET_CONTAINER_MultiHashMap \<Rightarrow> (GNUNET_HashCode \<times> 'v option) multiset" where
  "map_pairs m = mset (map pair_of (concat (map_buckets m)))"

definition in_place :: "u32 \<Rightarrow> 'v MapEntry list list \<Rightarrow> bool" where
  "in_place len bs \<longleftrightarrow> (\<forall>i < length bs. \<forall>e \<in> set (bs ! i). idx_in len (me_key e) = i)"

definition map_invar :: "'v GNUNET_CONTAINER_MultiHashMap \<Rightarrow> bool" where
  "map_invar m \<longleftrightarrow>
     0 < map_length m \<and> length (map_buckets m) = unat (map_length m) \<and>
     unat (map_size m) = length (concat (map_buckets m)) \<and>
     in_place (map_length m) (map_buckets m)"

definition map_room :: "'v GNUNET_CONTAINER_MultiHashMap \<Rightarrow> bool" where
  "map_room m \<longleftrightarrow> map_length m < 2 ^ 31 \<and> map_size m < 2 ^ 32 - 1"

section \<open>Buckets\<close>

lemma fst_pair_of [simp]: "fst (pair_of e) = me_key e"
  by (simp add: pair_of_def)

lemma mset_concat_update:
  "i < length bs \<Longrightarrow>
   mset (concat bs) + mset b = mset (concat (bs[i := b])) + mset (bs ! i)"
proof (induction bs arbitrary: i)
  case (Cons x xs)
  then show ?case by (cases i) (auto simp: ac_simps)
qed simp

lemma mset_pairs_update:
  assumes "i < length bs"
  shows "mset (map f (concat bs)) + mset (map f b) =
     mset (map f (concat (bs[i := b]))) + mset (map f (bs ! i))"
  using arg_cong [OF mset_concat_update [OF assms, of b], of "image_mset f"] by simp

lemma length_concat_update:
  assumes "i < length bs"
  shows "length (concat bs) + length b = length (concat (bs[i := b])) + length (bs ! i)"
  using arg_cong [OF mset_concat_update [OF assms, of b], of size] by simp

lemma bucket_get_present:
  "(k, v) \<in> set (map pair_of b) \<Longrightarrow> (k, bucket_get k b) \<in> set (map pair_of b)"
  by (induction b) (auto simp: pair_of_def)

lemma bucket_get_absent:
  "(\<And>v. (k, v) \<notin> set (map pair_of b)) \<Longrightarrow> bucket_get k b = None"
  by (induction b) (auto simp: pair_of_def)

lemma bucket_contains_iff:
  "bucket_contains k b = (if \<exists>v. (k, v) \<in> set (map pair_of b) then GNUNET_YES else GNUNET_NO)"
  by (induction b) (auto simp: pair_of_def)

lemma bucket_contains_value_iff:
  "bucket_contains_value k v b = (if (k, v) \<in> set (map pair_of b) then GNUNET_YES else GNUNET_NO)"
  by (induction b) (auto simp: pair_of_def)

lemma bucket_remove_None: "bucket_remove k v b = None \<longleftrightarrow> (k, v) \<notin> set (map pair_of b)"
  by (induction b) (auto simp: pair_of_def)

lemma bucket_remove_Some:
  "bucket_remove k v b = Some b' \<Longrightarrow>
   mset (map pair_of b) = add_mset (k, v) (mset (map pair_of b')) \<and> set b' \<subseteq> set b"
  by (induction b arbitrary: b') (auto simp: pair_of_def split: if_splits)

lemma bucket_remove_all_eq:
  "bucket_remove_all k b r =
     (filter (\<lambda>e. me_key e \<noteq> k) b, r + length (filter (\<lambda>e. me_key e = k) b))"
  by (induction b arbitrary: r) auto

lemma bucket_set_None: "bucket_set k v b = None \<longleftrightarrow> (\<nexists>u. (k, u) \<in> set (map pair_of b))"
  by (induction b) (auto simp: pair_of_def)

lemma bucket_set_Some:
  "bucket_set k v b = Some b' \<Longrightarrow>
   \<exists>u rest. mset (map pair_of b) = add_mset (k, u) rest \<and>
     mset (map pair_of b') = add_mset (k, v) rest \<and> me_key ` set b' = me_key ` set b"
proof (induction b arbitrary: b')
  case (Cons e es)
  show ?case
  proof (cases "k = me_key e")
    case True
    then show ?thesis using Cons.prems by (auto simp: pair_of_def)
  next
    case False
    then obtain es' where es': "bucket_set k v es = Some es'" "b' = e # es'"
      using Cons.prems by auto
    from Cons.IH [OF es'(1)] obtain u rest where
      "mset (map pair_of es) = add_mset (k, u) rest"
      "mset (map pair_of es') = add_mset (k, v) rest" "me_key ` set es' = me_key ` set es" by blast
    then show ?thesis using es'(2)
      by (intro exI [of _ u] exI [of _ "add_mset (pair_of e) rest"]) auto
  qed
qed simp

section \<open>The index\<close>

lemma idx_in_less: "0 < len \<Longrightarrow> idx_in len k < unat len"
  by (simp add: idx_in_def unat_mod_distrib word_less_nat_alt unat_gt_0)

lemma idx_of_less [simp]: "map_invar m \<Longrightarrow> idx_of m k < length (map_buckets m)"
  by (simp add: map_invar_def idx_of_def idx_in_less)

lemma pairs_with_key:
  assumes "map_invar m"
  shows "(k, v) \<in># map_pairs m \<longleftrightarrow> (k, v) \<in> set (map pair_of (map_buckets m ! idx_of m k))"
proof
  assume "(k, v) \<in># map_pairs m"
  then obtain b e where "b \<in> set (map_buckets m)" "e \<in> set b" "pair_of e = (k, v)"
    by (auto simp: map_pairs_def)
  moreover from this obtain i where "i < length (map_buckets m)" "map_buckets m ! i = b"
    by (auto simp: in_set_conv_nth)
  ultimately have "idx_of m k = i" using assms
    by (auto simp: map_invar_def in_place_def idx_of_def pair_of_def)
  then show "(k, v) \<in> set (map pair_of (map_buckets m ! idx_of m k))"
    using \<open>e \<in> set b\<close> \<open>map_buckets m ! i = b\<close> \<open>pair_of e = (k, v)\<close> by force
next
  assume "(k, v) \<in> set (map pair_of (map_buckets m ! idx_of m k))"
  then show "(k, v) \<in># map_pairs m" using idx_of_less [OF assms, of k]
    by (auto simp: map_pairs_def intro!: rev_image_eqI) (metis nth_mem)
qed

lemma in_place_update:
  "in_place len bs \<Longrightarrow> (\<And>e. e \<in> set b \<Longrightarrow> idx_in len (me_key e) = i) \<Longrightarrow> in_place len (bs[i := b])"
  unfolding in_place_def
  by (intro allI impI ballI, rename_tac j e, case_tac "j = i") auto

lemma in_place_bucket:
  "in_place len bs \<Longrightarrow> i < length bs \<Longrightarrow> e \<in> set (bs ! i) \<Longrightarrow> idx_in len (me_key e) = i"
  by (simp add: in_place_def)

section \<open>Each operation against the abstract map\<close>

lemma map_pairs_update:
  assumes "map_invar m"
    and b: "mset (map pair_of b) + d = mset (map pair_of (map_buckets m ! idx_of m k)) + a"
    and "map_buckets m' = (map_buckets m)[idx_of m k := b]"
  shows "map_pairs m' + d = map_pairs m + a"
proof -
  let ?old = "mset (map pair_of (map_buckets m ! idx_of m k))" and ?new = "mset (map pair_of b)"
  have eq: "map_pairs m + ?new = map_pairs m' + ?old"
    using mset_pairs_update [OF idx_of_less [OF assms(1)], where f = pair_of and b = b] assms(3)
    by (simp add: map_pairs_def)
  have "(map_pairs m' + d) + ?old = (map_pairs m' + ?old) + d" by (simp only: ac_simps)
  also have "\<dots> = map_pairs m + (?new + d)" by (simp only: eq [symmetric] ac_simps)
  also have "\<dots> = map_pairs m + (?old + a)" by (simp only: b)
  also have "\<dots> = (map_pairs m + a) + ?old" by (simp only: ac_simps)
  finally show ?thesis by (rule add_right_imp_eq)
qed

lemma map_invar_update:
  assumes "map_invar m"
    and "map_buckets m' = (map_buckets m)[idx_of m k := b]" "map_length m' = map_length m"
    and "\<And>e. e \<in> set b \<Longrightarrow> me_key e \<in> insert k (me_key ` set (map_buckets m ! idx_of m k))"
    and "unat (map_size m') + length (map_buckets m ! idx_of m k) = unat (map_size m) + length b"
  shows "map_invar m'"
proof -
  have "in_place (map_length m) ((map_buckets m)[idx_of m k := b])"
  proof (rule in_place_update)
    show "in_place (map_length m) (map_buckets m)" using assms(1) by (simp add: map_invar_def)
    fix e assume "e \<in> set b"
    from assms(4) [OF this] show "idx_in (map_length m) (me_key e) = idx_of m k"
      using in_place_bucket [OF _ idx_of_less [OF assms(1)]] assms(1)
      by (auto simp: map_invar_def idx_of_def)
  qed
  then show ?thesis
    using assms length_concat_update [OF idx_of_less [OF assms(1)], of b k]
    by (auto simp: map_invar_def)
qed

lemma size_map_pairs: "map_invar m \<Longrightarrow> size (map_pairs m) = unat (map_size m)"
  by (simp add: map_invar_def map_pairs_def)

lemma get_present:
  "map_invar m \<Longrightarrow> (k, v) \<in># map_pairs m \<Longrightarrow>
   (k, GNUNET_CONTAINER_multihashmap_get m k) \<in># map_pairs m"
  by (simp only: pairs_with_key GNUNET_CONTAINER_multihashmap_get_def) (rule bucket_get_present)

lemma get_absent:
  "map_invar m \<Longrightarrow> (\<And>v. (k, v) \<notin># map_pairs m) \<Longrightarrow> GNUNET_CONTAINER_multihashmap_get m k = None"
  by (simp only: pairs_with_key GNUNET_CONTAINER_multihashmap_get_def) (rule bucket_get_absent)

lemma contains_iff:
  "map_invar m \<Longrightarrow> GNUNET_CONTAINER_multihashmap_contains m k =
     (if \<exists>v. (k, v) \<in># map_pairs m then GNUNET_YES else GNUNET_NO)"
  by (simp only: pairs_with_key GNUNET_CONTAINER_multihashmap_contains_def bucket_contains_iff)

lemma contains_value_iff:
  "map_invar m \<Longrightarrow> GNUNET_CONTAINER_multihashmap_contains_value m k v =
     (if (k, v) \<in># map_pairs m then GNUNET_YES else GNUNET_NO)"
  by (simp only: pairs_with_key GNUNET_CONTAINER_multihashmap_contains_value_def
      bucket_contains_value_iff)

lemma remove_absent:
  "map_invar m \<Longrightarrow> (k, v) \<notin># map_pairs m \<Longrightarrow>
   GNUNET_CONTAINER_multihashmap_remove m k v = (m, GNUNET_NO)"
  by (simp add: pairs_with_key GNUNET_CONTAINER_multihashmap_remove_def Let_def
      bucket_remove_None [THEN iffD2])

lemma remove_present:
  assumes "map_invar m" "(k, v) \<in># map_pairs m"
  obtains m' where "GNUNET_CONTAINER_multihashmap_remove m k v = (m', GNUNET_YES)" "map_invar m'"
    "map_pairs m' = map_pairs m - {#(k, v)#}" "map_length m' = map_length m"
    "unat (map_size m') < unat (map_size m)"
proof -
  let ?b = "map_buckets m ! idx_of m k"
  from assms have "bucket_remove k v ?b \<noteq> None"
    by (simp add: pairs_with_key bucket_remove_None)
  then obtain b' where b': "bucket_remove k v ?b = Some b'" by auto
  let ?m = "m\<lparr>map_buckets := (map_buckets m)[idx_of m k := b'], map_size := map_size m - 1\<rparr>"
  from bucket_remove_Some [OF b'] have ms: "mset (map pair_of ?b) = add_mset (k, v) (mset (map pair_of b'))"
    and sub: "set b' \<subseteq> set ?b" by auto
  from arg_cong [OF ms, of size] have len: "length ?b = Suc (length b')" by simp
  have "map_pairs m \<noteq> {#}" using assms by auto
  then have "unat (map_size m) \<noteq> 0" using size_map_pairs [OF assms(1)] by (metis size_eq_0_iff_empty)
  then have sz: "unat (map_size m - 1) = unat (map_size m) - 1"
    by (metis unat_0 unat_minus_one)
  have "map_invar ?m"
    by (rule map_invar_update [OF assms(1)]) (use sub sz len \<open>unat (map_size m) \<noteq> 0\<close> in auto)
  moreover have "map_pairs ?m + {#(k, v)#} = map_pairs m + {#}"
    by (rule map_pairs_update [OF assms(1)]) (use ms in auto)
  then have "map_pairs ?m = map_pairs m - {#(k, v)#}"
    by (metis add.right_neutral add_diff_cancel_right')
  ultimately show thesis
    using that [of ?m] b' sz \<open>unat (map_size m) \<noteq> 0\<close>
    by (simp add: GNUNET_CONTAINER_multihashmap_remove_def Let_def)
qed

lemma unat_sub_of_nat:
  fixes x :: u32
  assumes "n \<le> unat x"
  shows "unat (x - of_nat n) = unat x - n"
proof -
  have "n < 4294967296" using assms by (rule le_less_trans) simp
  then have "unat (of_nat n :: u32) = n" by (simp add: unat_of_nat)
  then show ?thesis using assms by (simp add: unat_sub word_le_nat_alt)
qed

lemma filter_concat_in_place:
  assumes "i < length bs" and "\<And>j e. j < length bs \<Longrightarrow> j \<noteq> i \<Longrightarrow> e \<in> set (bs ! j) \<Longrightarrow> \<not> P e"
  shows "filter P (concat bs) = filter P (bs ! i)"
proof -
  have none: "filter P (concat xs) = []" if "\<And>b. b \<in> set xs \<Longrightarrow> \<exists>j < length bs. j \<noteq> i \<and> b = bs ! j" for xs
    using that assms(2) by (fastforce simp: filter_empty_conv)
  have "filter P (concat (take i bs)) = []"
    by (rule none) (use assms(1) in \<open>auto simp: in_set_conv_nth intro: less_trans\<close>)
  moreover have "filter P (concat (drop (Suc i) bs)) = []"
  proof (rule none)
    fix b assume "b \<in> set (drop (Suc i) bs)"
    then obtain n where "n < length bs - Suc i" "b = bs ! (Suc i + n)"
      by (auto simp: in_set_conv_nth)
    then show "\<exists>j < length bs. j \<noteq> i \<and> b = bs ! j"
      by (intro exI [of _ "Suc i + n"]) auto
  qed
  ultimately show ?thesis
    by (subst id_take_nth_drop [OF assms(1)]) simp
qed

lemma pairs_filter_key:
  assumes "map_invar m"
  shows "filter_mset (\<lambda>p. fst p = k) (map_pairs m) =
     mset (map pair_of (filter (\<lambda>e. me_key e = k) (map_buckets m ! idx_of m k)))"
proof -
  have "filter (\<lambda>e. me_key e = k) (concat (map_buckets m)) =
      filter (\<lambda>e. me_key e = k) (map_buckets m ! idx_of m k)"
    by (rule filter_concat_in_place)
      (use assms in \<open>auto simp: map_invar_def in_place_def idx_of_def idx_in_less\<close>)
  then show ?thesis
    by (simp add: map_pairs_def filter_mset_image_mset flip: mset_filter)
qed

lemma remove_all_spec:
  assumes "map_invar m"
  obtains m' where "GNUNET_CONTAINER_multihashmap_remove_all m k =
      (m', int (size (filter_mset (\<lambda>p. fst p = k) (map_pairs m))))"
    "map_invar m'" "map_pairs m' = filter_mset (\<lambda>p. fst p \<noteq> k) (map_pairs m)"
    "map_length m' = map_length m" "unat (map_size m') \<le> unat (map_size m)"
proof -
  let ?b = "map_buckets m ! idx_of m k"
  let ?keep = "filter (\<lambda>e. me_key e \<noteq> k) ?b" and ?cut = "filter (\<lambda>e. me_key e = k) ?b"
  let ?m = "m\<lparr>map_buckets := (map_buckets m)[idx_of m k := ?keep],
              map_size := map_size m - of_nat (length ?cut)\<rparr>"
  have len: "length ?b = length ?keep + length ?cut"
    using sum_length_filter_compl [of "\<lambda>e. me_key e = k" ?b] by simp
  have cut: "mset (map pair_of ?cut) = filter_mset (\<lambda>p. fst p = k) (map_pairs m)"
    by (simp add: pairs_filter_key [OF assms])
  have lcut: "length ?cut = size (filter_mset (\<lambda>p. fst p = k) (map_pairs m))"
    by (metis cut length_map size_mset)
  then have "length ?cut \<le> unat (map_size m)"
    using size_map_pairs [OF assms] size_filter_mset_lesseq [of "\<lambda>p. fst p = k" "map_pairs m"]
    by simp
  then have sz: "unat (map_size m - of_nat (length ?cut)) = unat (map_size m) - length ?cut"
    by (rule unat_sub_of_nat)
  have "map_invar ?m"
    by (rule map_invar_update [OF assms])
      (use sz len \<open>length ?cut \<le> unat (map_size m)\<close> in auto)
  moreover have "map_pairs ?m + mset (map pair_of ?cut) = map_pairs m + {#}"
  proof (rule map_pairs_update [OF assms])
    have "mset ?keep + mset ?cut = mset ?b"
      using multiset_partition [of "mset ?b" "\<lambda>e. me_key e \<noteq> k"] by simp
    then show "mset (map pair_of ?keep) + mset (map pair_of ?cut) = mset (map pair_of ?b) + {#}"
      by (simp only: mset_map image_mset_union [symmetric] add_0_right)
  qed simp
  then have "map_pairs ?m + filter_mset (\<lambda>p. fst p = k) (map_pairs m) =
      filter_mset (\<lambda>p. fst p \<noteq> k) (map_pairs m) + filter_mset (\<lambda>p. fst p = k) (map_pairs m)"
    using multiset_partition [of "map_pairs m" "\<lambda>p. fst p \<noteq> k"] unfolding cut by simp
  then have "map_pairs ?m = filter_mset (\<lambda>p. fst p \<noteq> k) (map_pairs m)"
    by (rule add_right_imp_eq)
  ultimately show thesis
    using that [of ?m] sz lcut
    by (simp add: GNUNET_CONTAINER_multihashmap_remove_all_def Let_def bucket_remove_all_eq)
qed

lemma rehash_bucket_spec:
  assumes "0 < len" "length new = unat len" "in_place len new"
  shows "length (rehash_bucket len b new) = unat len \<and> in_place len (rehash_bucket len b new) \<and>
     mset (concat (rehash_bucket len b new)) = mset b + mset (concat new)"
  using assms
proof (induction b arbitrary: new)
  case (Cons e es)
  let ?i = "idx_in len (me_key e)"
  let ?new = "new[?i := e # new ! ?i]"
  have i: "?i < length new" using Cons.prems by (simp add: idx_in_less)
  have "in_place len ?new"
    by (rule in_place_update) (use Cons.prems i in \<open>auto simp: in_place_def\<close>)
  then have IH: "length (rehash_bucket len es ?new) = unat len \<and>
      in_place len (rehash_bucket len es ?new) \<and>
      mset (concat (rehash_bucket len es ?new)) = mset es + mset (concat ?new)"
    using Cons by simp
  have "mset (concat ?new) = add_mset e (mset (concat new))"
    using mset_concat_update [OF i, of "e # new ! ?i"] by simp
  then show ?case using IH by (simp add: Let_def)
qed simp

lemma rehash_buckets_spec:
  assumes "0 < len" "length new = unat len" "in_place len new"
  shows "length (rehash_buckets len bs new) = unat len \<and> in_place len (rehash_buckets len bs new) \<and>
     mset (concat (rehash_buckets len bs new)) = mset (concat bs) + mset (concat new)"
  using assms
proof (induction bs arbitrary: new)
  case (Cons b bs)
  then show ?case using rehash_bucket_spec [OF Cons.prems, of b] by (simp add: ac_simps)
qed simp

lemma grow_spec:
  assumes "map_invar m" "map_length m < 2 ^ 31"
  obtains m' where "grow m = Some m'" "map_invar m'" "map_pairs m' = map_pairs m"
    "map_size m' = map_size m" "unat (map_length m') = 2 * unat (map_length m)"
proof -
  let ?len = "map_length m * 2"
  let ?new = "rehash_buckets ?len (map_buckets m) (replicate (unat ?len) [])"
  have "unat (map_length m) < 2 ^ 31" using assms(2) by (simp add: word_less_nat_alt)
  then have len: "unat ?len = 2 * unat (map_length m)"
    by (simp add: unat_word_ariths)
  have pos: "0 < ?len" using assms(1) len by (simp add: map_invar_def word_less_nat_alt)
  then have nz: "?len \<noteq> 0" by auto
  have spec: "length ?new = unat ?len \<and> in_place ?len ?new \<and> mset (concat ?new) = mset (concat (map_buckets m))"
    using rehash_buckets_spec [OF pos, of "replicate (unat ?len) []" "map_buckets m"]
    by (simp add: in_place_def concat_replicate_trivial)
  then have "length (concat ?new) = length (concat (map_buckets m))"
    by (metis size_mset)
  then show thesis
    using that [of "m\<lparr>map_length := ?len, map_buckets := ?new\<rparr>"] spec pos nz assms(1) len
    by (simp add: grow_def Let_def map_invar_def map_pairs_def)
qed

lemma put_new_spec:
  assumes "map_invar m" "map_size m < 2 ^ 32 - 1"
  shows "map_invar (put_new m k v)" "map_pairs (put_new m k v) = add_mset (k, v) (map_pairs m)"
    "map_length (put_new m k v) = map_length m" "unat (map_size (put_new m k v)) = unat (map_size m) + 1"
proof -
  let ?b = "map_buckets m ! idx_of m k" and ?e = "\<lparr>me_key = k, me_value = v\<rparr>"
  have "unat (map_size m) < 4294967295" using assms(2) by (simp add: word_less_nat_alt)
  then show sz: "unat (map_size (put_new m k v)) = unat (map_size m) + 1"
    by (simp add: put_new_def Let_def unat_word_ariths)
  show "map_invar (put_new m k v)"
    by (rule map_invar_update [OF assms(1), where k = k and b = "?e # ?b"])
      (use sz in \<open>auto simp: put_new_def Let_def\<close>)
  have "map_pairs (put_new m k v) + {#} = map_pairs m + {#(k, v)#}"
    by (rule map_pairs_update [OF assms(1), where k = k and b = "?e # ?b"])
      (auto simp: put_new_def Let_def pair_of_def)
  then show "map_pairs (put_new m k v) = add_mset (k, v) (map_pairs m)" by simp
  show "map_length (put_new m k v) = map_length m" by (simp add: put_new_def Let_def)
qed

lemma put_store:
  assumes "map_invar m" "map_room m"
    and "opt = MULTIHASHMAPOPTION_MULTIPLE \<or> opt = MULTIHASHMAPOPTION_UNIQUE_FAST \<or>
         (\<forall>u. (k, u) \<notin># map_pairs m)"
  obtains m' where "GNUNET_CONTAINER_multihashmap_put m k v opt = Some (m', GNUNET_OK)"
    "map_invar m'" "map_pairs m' = add_mset (k, v) (map_pairs m)"
proof -
  have nf: "(if opt \<noteq> MULTIHASHMAPOPTION_MULTIPLE \<and> opt \<noteq> MULTIHASHMAPOPTION_UNIQUE_FAST
      then bucket_set k v (map_buckets m ! idx_of m k) else None) = None"
    using assms(1,3) by (auto simp: bucket_set_None pairs_with_key)
  obtain g where g: "grow m = Some g" "map_invar g" "map_pairs g = map_pairs m" "map_size g = map_size m"
    using grow_spec assms(1,2) unfolding map_room_def by blast
  show thesis
  proof (cases "map_size m div 3 \<ge> map_length m div 4")
    case True
    then show thesis
      using that [of "put_new g k v"] g nf put_new_spec [of g k v] assms(2)
      by (simp add: GNUNET_CONTAINER_multihashmap_put_def map_room_def)
  next
    case False
    then show thesis
      using that [of "put_new m k v"] nf put_new_spec [of m k v] assms(1,2)
      by (simp add: GNUNET_CONTAINER_multihashmap_put_def map_room_def)
  qed
qed

lemma put_multiple_bound:
  assumes "map_invar m" "map_room m"
    and "GNUNET_CONTAINER_multihashmap_put m k v MULTIHASHMAPOPTION_MULTIPLE = Some (m', r)"
  shows "unat (map_size m') = unat (map_size m) + 1"
    and "unat (map_length m') \<le> max (unat (map_length m)) (8 + 3 * unat (map_size m))"
proof -
  obtain g where g: "grow m = Some g" "map_invar g" "map_size g = map_size m"
      "unat (map_length g) = 2 * unat (map_length m)"
    using grow_spec assms(1,2) unfolding map_room_def by blast
  have grown: "unat (map_length m) div 4 \<le> unat (map_size m) div 3"
    if "map_size m div 3 \<ge> map_length m div 4"
    using that by (simp add: word_le_nat_alt unat_div)
  have m': "m' = (if map_size m div 3 \<ge> map_length m div 4 then put_new g k v else put_new m k v)"
    using assms(3) g(1) by (simp add: GNUNET_CONTAINER_multihashmap_put_def split: if_splits)
  show "unat (map_size m') = unat (map_size m) + 1"
    unfolding m' using put_new_spec(4) [of g k v] put_new_spec(4) [of m k v] assms(1,2) g(2,3)
    by (simp add: map_room_def)
  show "unat (map_length m') \<le> max (unat (map_length m)) (8 + 3 * unat (map_size m))"
  proof (cases "map_size m div 3 \<ge> map_length m div 4")
    case True
    have "unat (map_length m') = 2 * unat (map_length m)"
      unfolding m' using True put_new_spec(3) [of g k v] assms(2) g(2-4) by (simp add: map_room_def)
    then show ?thesis using grown [OF True] by linarith
  next
    case False
    then show ?thesis unfolding m' using put_new_spec(3) [of m k v] assms(1,2) by (simp add: map_room_def)
  qed
qed

lemma put_unique_only_present:
  assumes "map_invar m" "(k, u) \<in># map_pairs m"
  shows "GNUNET_CONTAINER_multihashmap_put m k v MULTIHASHMAPOPTION_UNIQUE_ONLY = Some (m, GNUNET_SYSERR)"
proof -
  have "bucket_set k v (map_buckets m ! idx_of m k) \<noteq> None"
    using assms by (auto simp: bucket_set_None pairs_with_key)
  then show ?thesis by (auto simp: GNUNET_CONTAINER_multihashmap_put_def)
qed

lemma put_replace_present:
  assumes "map_invar m" "(k, u) \<in># map_pairs m"
  obtains m' w where "GNUNET_CONTAINER_multihashmap_put m k v MULTIHASHMAPOPTION_REPLACE = Some (m', GNUNET_NO)"
    "map_invar m'" "(k, w) \<in># map_pairs m" "map_pairs m' = add_mset (k, v) (map_pairs m - {#(k, w)#})"
proof -
  let ?b = "map_buckets m ! idx_of m k"
  have "bucket_set k v ?b \<noteq> None"
    using assms by (auto simp: bucket_set_None pairs_with_key)
  then obtain b' where b': "bucket_set k v ?b = Some b'" by auto
  let ?m = "m\<lparr>map_buckets := (map_buckets m)[idx_of m k := b']\<rparr>"
  from bucket_set_Some [OF b'] obtain w rest where
    w: "mset (map pair_of ?b) = add_mset (k, w) rest" "mset (map pair_of b') = add_mset (k, v) rest"
    "me_key ` set b' = me_key ` set ?b" by blast
  have "length b' = length ?b"
    using arg_cong [OF w(1), of size] arg_cong [OF w(2), of size] by simp
  then have "map_invar ?m"
    by (intro map_invar_update [OF assms(1), where b = b' and k = k]) (use w(3) in auto)
  moreover have win: "(k, w) \<in># map_pairs m"
    using arg_cong [OF w(1), of set_mset] by (auto simp: pairs_with_key [OF assms(1)])
  moreover have "map_pairs ?m + {#(k, w)#} = map_pairs m + {#(k, v)#}"
    by (rule map_pairs_update [OF assms(1), where b = b' and k = k]) (use w(1,2) in auto)
  then have "map_pairs ?m + {#(k, w)#} = add_mset (k, v) (map_pairs m - {#(k, w)#}) + {#(k, w)#}"
    using insert_DiffM [OF win] by simp
  then have "map_pairs ?m = add_mset (k, v) (map_pairs m - {#(k, w)#})"
    by (rule add_right_imp_eq)
  ultimately show thesis
    using that [of ?m w] b' by (simp add: GNUNET_CONTAINER_multihashmap_put_def)
qed

lemma create_spec:
  assumes "0 < len"
  obtains m where "GNUNET_CONTAINER_multihashmap_create len small = Some m"
    "map_invar m" "map_pairs m = {#}" "map_length m = len" "map_size m = 0"
  using assms that
  by (simp add: GNUNET_CONTAINER_multihashmap_create_def map_invar_def map_pairs_def in_place_def
      concat_replicate_trivial)

section \<open>Iteration\<close>

fun visit :: "('v, 's) HashMapIterator \<Rightarrow> (GNUNET_HashCode \<times> 'v option) list \<Rightarrow> 's \<Rightarrow> 's \<times> bool" where
  "visit f [] s = (s, True)"
| "visit f (p # ps) s =
     (case f s (fst p) (snd p) of (s', r) \<Rightarrow> if r = GNUNET_OK then visit f ps s' else (s', False))"

lemma bucket_iterate_visit:
  "bucket_iterate (Some f) b s c =
     (case visit f (map pair_of b) s of (s', ok) \<Rightarrow> (s', if ok then Some (c + int (length b)) else None))"
  by (induction b arbitrary: s c) (auto simp: pair_of_def split: prod.splits)

lemma bucket_iterate_NULL: "bucket_iterate None b s c = (s, Some (c + int (length b)))"
  by (induction b arbitrary: c) auto

lemma visit_append:
  "visit f (xs @ ys) s = (case visit f xs s of (s', ok) \<Rightarrow> if ok then visit f ys s' else (s', False))"
  by (induction xs arbitrary: s) (auto split: prod.splits)

lemma buckets_iterate_visit:
  "buckets_iterate (Some f) bs s c =
     (case visit f (map pair_of (concat bs)) s of
        (s', ok) \<Rightarrow> (s', if ok then c + int (length (concat bs)) else GNUNET_SYSERR))"
  by (induction bs arbitrary: s c)
    (auto simp: bucket_iterate_visit visit_append split: prod.splits)

lemma buckets_iterate_NULL: "buckets_iterate None bs s c = (s, c + int (length (concat bs)))"
  by (induction bs arbitrary: c) (auto simp: bucket_iterate_NULL)

lemma bucket_get_multiple_visit:
  "bucket_get_multiple (Some f) k b s c =
     (case visit f (map pair_of (filter (\<lambda>e. me_key e = k) b)) s of
        (s', ok) \<Rightarrow> (s', if ok then c + int (length (filter (\<lambda>e. me_key e = k) b)) else GNUNET_SYSERR))"
  by (induction b arbitrary: s c) (auto simp: pair_of_def split: prod.splits)

lemma get_multiple_visit:
  assumes "map_invar m"
  obtains ps where "mset ps = filter_mset (\<lambda>p. fst p = k) (map_pairs m)"
    "\<And>f s. fst (GNUNET_CONTAINER_multihashmap_get_multiple m k (Some f) s) = fst (visit f ps s)"
proof -
  let ?b = "map_buckets m ! idx_of m k"
  let ?ps = "map pair_of (filter (\<lambda>e. me_key e = k) ?b)"
  have "mset ?ps = filter_mset (\<lambda>p. fst p = k) (map_pairs m)"
    using pairs_filter_key [OF assms, of k] by simp
  then show thesis
    using that [of ?ps]
    by (simp add: GNUNET_CONTAINER_multihashmap_get_multiple_def bucket_get_multiple_visit split: prod.splits)
qed

section \<open>The interface\<close>

definition graph_mset :: "('k \<rightharpoonup> 'v) \<Rightarrow> ('k \<times> 'v option) multiset" where
  "graph_mset f = mset_set ((\<lambda>k. (k, f k)) ` dom f)"

lemma graph_mset_empty [simp]: "graph_mset Map.empty = {#}"
  by (simp add: graph_mset_def)

lemma in_graph_mset [simp]:
  "finite (dom f) \<Longrightarrow> (k, v) \<in># graph_mset f \<longleftrightarrow> v = f k \<and> f k \<noteq> None"
  by (auto simp: graph_mset_def)

lemma graph_mset_upd:
  assumes "finite (dom f)" "f k = None"
  shows "graph_mset (f(k \<mapsto> v)) = add_mset (k, Some v) (graph_mset f)"
proof -
  have eq: "(\<lambda>j. (j, (f(k \<mapsto> v)) j)) ` dom (f(k \<mapsto> v)) = insert (k, Some v) ((\<lambda>j. (j, f j)) ` dom f)"
    using assms(2) by (force simp: image_iff)
  show ?thesis unfolding graph_mset_def eq
    using assms by (subst mset_set.insert) auto
qed

lemma graph_mset_del:
  assumes "finite (dom f)" "f k = Some v"
  shows "graph_mset (f(k := None)) = graph_mset f - {#(k, Some v)#}"
proof -
  have "f = (f(k := None))(k \<mapsto> v)" using assms(2) by auto
  moreover have "finite (dom (f(k := None)))" using assms(1) by simp
  ultimately have "graph_mset f = add_mset (k, Some v) (graph_mset (f(k := None)))"
    by (metis fun_upd_same graph_mset_upd)
  then show ?thesis by simp
qed

locale multimap =
  fixes invar :: "'m \<Rightarrow> bool" and room :: "'m \<Rightarrow> bool"
    and pairs :: "'m \<Rightarrow> ('k \<times> 'v option) multiset"
    and get :: "'m \<Rightarrow> 'k \<Rightarrow> 'v option"
    and contains :: "'m \<Rightarrow> 'k \<Rightarrow> int"
    and put :: "'m \<Rightarrow> 'k \<Rightarrow> 'v option \<Rightarrow> GNUNET_CONTAINER_MultiHashMapOption \<Rightarrow> ('m \<times> int) option"
    and remove :: "'m \<Rightarrow> 'k \<Rightarrow> 'v option \<Rightarrow> 'm \<times> int"
    and remove_all :: "'m \<Rightarrow> 'k \<Rightarrow> 'm \<times> int"
  assumes get_some: "invar m \<Longrightarrow> (k, v) \<in># pairs m \<Longrightarrow> (k, get m k) \<in># pairs m"
    and get_none: "invar m \<Longrightarrow> (\<And>v. (k, v) \<notin># pairs m) \<Longrightarrow> get m k = None"
    and contains_law: "invar m \<Longrightarrow>
      contains m k = (if \<exists>v. (k, v) \<in># pairs m then GNUNET_YES else GNUNET_NO)"
    and put_fresh: "invar m \<Longrightarrow> room m \<Longrightarrow>
      opt = MULTIHASHMAPOPTION_MULTIPLE \<or> opt = MULTIHASHMAPOPTION_UNIQUE_FAST \<or>
        (\<forall>u. (k, u) \<notin># pairs m) \<Longrightarrow>
      \<exists>m'. put m k v opt = Some (m', GNUNET_OK) \<and> invar m' \<and> pairs m' = add_mset (k, v) (pairs m)"
    and put_unique: "invar m \<Longrightarrow> (k, u) \<in># pairs m \<Longrightarrow>
      put m k v MULTIHASHMAPOPTION_UNIQUE_ONLY = Some (m, GNUNET_SYSERR)"
    and put_replace: "invar m \<Longrightarrow> (k, u) \<in># pairs m \<Longrightarrow>
      \<exists>m' w. put m k v MULTIHASHMAPOPTION_REPLACE = Some (m', GNUNET_NO) \<and> invar m' \<and>
        (k, w) \<in># pairs m \<and> pairs m' = add_mset (k, v) (pairs m - {#(k, w)#})"
    and remove_none: "invar m \<Longrightarrow> (k, v) \<notin># pairs m \<Longrightarrow> remove m k v = (m, GNUNET_NO)"
    and remove_some: "invar m \<Longrightarrow> (k, v) \<in># pairs m \<Longrightarrow>
      \<exists>m'. remove m k v = (m', GNUNET_YES) \<and> invar m' \<and> pairs m' = pairs m - {#(k, v)#}"
    and remove_all_law: "invar m \<Longrightarrow>
      \<exists>m'. remove_all m k = (m', int (size (filter_mset (\<lambda>p. fst p = k) (pairs m)))) \<and> invar m' \<and>
        pairs m' = filter_mset (\<lambda>p. fst p \<noteq> k) (pairs m)"
begin

definition represents :: "'m \<Rightarrow> ('k \<rightharpoonup> 'v) \<Rightarrow> bool" where
  "represents m f \<longleftrightarrow> invar m \<and> finite (dom f) \<and> pairs m = graph_mset f"

lemma represents_get: "represents m f \<Longrightarrow> get m k = f k"
  unfolding represents_def
  by (metis get_some get_none in_graph_mset)

lemma represents_put:
  assumes "represents m f" "room m" "f k = None"
  shows "\<exists>m'. put m k (Some v) opt = Some (m', GNUNET_OK) \<and> represents m' (f(k \<mapsto> v))"
proof -
  have "\<forall>u. (k, u) \<notin># pairs m" using assms by (simp add: represents_def)
  then obtain m' where "put m k (Some v) opt = Some (m', GNUNET_OK)" "invar m'"
      "pairs m' = add_mset (k, Some v) (pairs m)"
    using put_fresh [of m opt k "Some v"] assms by (auto simp: represents_def)
  then show ?thesis using assms by (auto simp: represents_def graph_mset_upd)
qed

lemma represents_put_unique_fails:
  "represents m f \<Longrightarrow> f k \<noteq> None \<Longrightarrow> put m k v MULTIHASHMAPOPTION_UNIQUE_ONLY = Some (m, GNUNET_SYSERR)"
  using put_unique [of m k "f k" v] by (auto simp: represents_def)

lemma represents_remove:
  assumes "represents m f" "f k = Some v"
  shows "\<exists>m'. remove m k (Some v) = (m', GNUNET_YES) \<and> represents m' (f(k := None))"
  using assms remove_some [of m k "Some v"] by (auto simp: represents_def graph_mset_del)

end

interpretation mhm: multimap map_invar map_room map_pairs GNUNET_CONTAINER_multihashmap_get
  GNUNET_CONTAINER_multihashmap_contains GNUNET_CONTAINER_multihashmap_put
  GNUNET_CONTAINER_multihashmap_remove GNUNET_CONTAINER_multihashmap_remove_all
proof unfold_locales
  show "\<exists>m'. GNUNET_CONTAINER_multihashmap_put m k v opt = Some (m', GNUNET_OK) \<and> map_invar m' \<and>
      map_pairs m' = add_mset (k, v) (map_pairs m)"
    if "map_invar m" "map_room m" "opt = MULTIHASHMAPOPTION_MULTIPLE \<or>
        opt = MULTIHASHMAPOPTION_UNIQUE_FAST \<or> (\<forall>u. (k, u) \<notin># map_pairs m)"
    for m :: "'a GNUNET_CONTAINER_MultiHashMap" and opt k v
    using put_store [OF that, of v] by metis
  show "\<exists>m' w. GNUNET_CONTAINER_multihashmap_put m k v MULTIHASHMAPOPTION_REPLACE = Some (m', GNUNET_NO) \<and>
      map_invar m' \<and> (k, w) \<in># map_pairs m \<and> map_pairs m' = add_mset (k, v) (map_pairs m - {#(k, w)#})"
    if "map_invar m" "(k, u) \<in># map_pairs m" for m :: "'a GNUNET_CONTAINER_MultiHashMap" and k u v
    using put_replace_present [OF that, of v] by metis
  show "\<exists>m'. GNUNET_CONTAINER_multihashmap_remove m k v = (m', GNUNET_YES) \<and> map_invar m' \<and>
      map_pairs m' = map_pairs m - {#(k, v)#}"
    if "map_invar m" "(k, v) \<in># map_pairs m" for m :: "'a GNUNET_CONTAINER_MultiHashMap" and k v
    using remove_present [OF that] by metis
  show "\<exists>m'. GNUNET_CONTAINER_multihashmap_remove_all m k =
        (m', int (size (filter_mset (\<lambda>p. fst p = k) (map_pairs m)))) \<and> map_invar m' \<and>
      map_pairs m' = filter_mset (\<lambda>p. fst p \<noteq> k) (map_pairs m)"
    if "map_invar m" for m :: "'a GNUNET_CONTAINER_MultiHashMap" and k
    using remove_all_spec [OF that, of k] by metis
qed (fact get_present get_absent contains_iff put_unique_only_present remove_absent)+

section \<open>Properties\<close>


definition example_map :: "nat GNUNET_CONTAINER_MultiHashMap" where
  "example_map = \<lparr>map_buckets = [[\<lparr>me_key = 5, me_value = Some 7\<rparr>]],
     map_size = 1, map_length = 1, use_small_entries = False\<rparr>"

lemma example_map_invar: "map_invar example_map \<and> map_room example_map"
  by (simp add: example_map_def map_invar_def map_room_def in_place_def idx_in_def)

lemma example_map_pairs: "map_pairs example_map = {#(5, Some 7)#}"
  by (simp add: example_map_def map_pairs_def pair_of_def)


text \<open>
  C25: Removing a pair removes exactly one occurrence of it and reports success, or changes nothing and
  reports that it was absent; removing all pairs of a key removes exactly those, reports their number
  and keeps every pair of every other key.
\<close>

theorem multihashmap_remove_correct:
  assumes "map_invar m"
  shows "\<exists>m1 r m2 n. GNUNET_CONTAINER_multihashmap_remove m k v = (m1, r) \<and> map_invar m1 \<and>
    map_pairs m1 = map_pairs m - {#(k, v)#} \<and>
    r = (if (k, v) \<in># map_pairs m then GNUNET_YES else GNUNET_NO) \<and>
    GNUNET_CONTAINER_multihashmap_remove_all m k = (m2, n) \<and> map_invar m2 \<and>
    map_pairs m2 = filter_mset (\<lambda>p. fst p \<noteq> k) (map_pairs m) \<and>
    n = int (size (filter_mset (\<lambda>p. fst p = k) (map_pairs m)))"
proof -
  obtain m2 n where "GNUNET_CONTAINER_multihashmap_remove_all m k = (m2, n)" "map_invar m2"
    "map_pairs m2 = filter_mset (\<lambda>p. fst p \<noteq> k) (map_pairs m)"
    "n = int (size (filter_mset (\<lambda>p. fst p = k) (map_pairs m)))"
    using mhm.remove_all_law [OF assms, of k] by blast
  then show ?thesis
    using mhm.remove_some [OF assms, of k v] mhm.remove_none [OF assms, of k v] assms
    by (cases "(k, v) \<in># map_pairs m") (auto simp: diff_single_trivial)
qed

theorem multihashmap_remove_correct_witness:
  "\<exists>m1. GNUNET_CONTAINER_multihashmap_remove example_map 5 (Some 7) = (m1, GNUNET_YES) \<and>
     map_pairs m1 = {#}"
  using multihashmap_remove_correct [of example_map 5 "Some 7"] example_map_invar
  by (auto simp: example_map_pairs)




text \<open>
  C27: Iterating over the map calls the callback once for each pair, in one fixed order of all pairs,
  until a call does not return \<open>GNUNET_OK\<close>; the result is the number of pairs if no call stopped it
  and \<open>GNUNET_SYSERR\<close> if one did.  Without a callback the pairs are only counted.
\<close>

theorem multihashmap_iterate_correct:
  assumes "map_invar m"
  shows "\<exists>ps. mset ps = map_pairs m \<and>
    (\<forall>f s. GNUNET_CONTAINER_multihashmap_iterate m (Some f) s =
       (fst (visit f ps s),
        if snd (visit f ps s) then int (unat (GNUNET_CONTAINER_multihashmap_size m)) else GNUNET_SYSERR)) \<and>
    (\<forall>s. GNUNET_CONTAINER_multihashmap_iterate m None s =
       (s, int (unat (GNUNET_CONTAINER_multihashmap_size m))))"
  using assms
  by (intro exI [of _ "map pair_of (concat (map_buckets m))"])
    (auto simp: map_pairs_def GNUNET_CONTAINER_multihashmap_iterate_def buckets_iterate_visit
      buckets_iterate_NULL GNUNET_CONTAINER_multihashmap_size_def map_invar_def split: prod.splits)

theorem multihashmap_iterate_correct_witness:
  "GNUNET_CONTAINER_multihashmap_iterate example_map None (0 :: nat) = (0, 1)"
  using multihashmap_iterate_correct [of example_map] example_map_invar
  by (auto simp: GNUNET_CONTAINER_multihashmap_size_def example_map_def)

end
