(* ===== verification/Peer.thy ===== *)
theory Peer
  imports Multi_Hash_Map
begin

text \<open>
  Interning of peer identities, \<^verbatim>\<open>src/src/util/peer.c\<close>.  The global variables of the C file are the
  record \<open>peer_state\<close>.  A peer identity is its hash code; the pointers to table entries that the C
  code stores in the hash map are the indices of the entries.  Unused table slots form a linked list
  through their \<open>pid\<close> fields that starts at \<open>free_list_start\<close> and ends at \<open>size\<close>.  A failing
  \<^verbatim>\<open>GNUNET_assert\<close> is the result \<open>None\<close>.

  The invariant \<open>peer_invar\<close> says how table, free list and hash map agree.  The hash map is used only
  through the facts of the locale \<open>multimap\<close>.
\<close>

record PeerEntry =
  pe_id :: GNUNET_HashCode
  pe_pid :: u32
  pe_rc :: u32

record peer_state =
  table :: "PeerEntry list"
  peer_map :: "nat GNUNET_CONTAINER_MultiHashMap option"
  peer_size :: u32
  free_list_start :: u32

definition peer_init :: peer_state where
  "peer_init = \<lparr>table = [], peer_map = None, peer_size = 0, free_list_start = 0\<rparr>"

definition GNUNET_PEER_search :: "peer_state \<Rightarrow> GNUNET_HashCode option \<Rightarrow> u32 option" where
  "GNUNET_PEER_search st pid =
     (case pid of
        None \<Rightarrow> Some 0
      | Some p \<Rightarrow>
          (case peer_map st of
             None \<Rightarrow> Some 0
           | Some m \<Rightarrow>
               (case GNUNET_CONTAINER_multihashmap_get m p of
                  None \<Rightarrow> Some 0
                | Some e \<Rightarrow> if pe_rc (table st ! e) > 0 then Some (pe_pid (table st ! e)) else None)))"

definition peer_grow :: "peer_state \<Rightarrow> peer_state" where
  "peer_grow st =
     (let n = length (table st) in
      st\<lparr>table := table st @
           map (\<lambda>i. \<lparr>pe_id = 0, pe_pid = of_nat (i + 1), pe_rc = 0\<rparr>) [n ..< n + 16],
         peer_size := peer_size st + 16\<rparr>)"

definition peer_alloc :: "peer_state \<Rightarrow> peer_state \<times> u32" where
  "peer_alloc st =
     (let ret = free_list_start st;
          st1 = (if ret = peer_size st then peer_grow st else st)
      in if ret = 0
         then (st1\<lparr>table := (table st1)[0 := (table st1 ! 0)\<lparr>pe_pid := 0, pe_rc := 1\<rparr>]\<rparr>, 1)
         else (st1, ret))"

definition GNUNET_PEER_intern ::
    "peer_state \<Rightarrow> GNUNET_HashCode option \<Rightarrow> (peer_state \<times> u32) option" where
  "GNUNET_PEER_intern st pid =
     (case pid of
        None \<Rightarrow> Some (st, 0)
      | Some p \<Rightarrow>
          (case (case peer_map st of
                   None \<Rightarrow> GNUNET_CONTAINER_multihashmap_create 32 True
                 | Some m \<Rightarrow> Some m) of
             None \<Rightarrow> None
           | Some m \<Rightarrow>
               (case GNUNET_CONTAINER_multihashmap_get m p of
                  Some e \<Rightarrow>
                    if pe_rc (table st ! e) > 0
                    then Some (st\<lparr>peer_map := Some m,
                                  table := (table st)
                                    [e := (table st ! e)\<lparr>pe_rc := pe_rc (table st ! e) + 1\<rparr>]\<rparr>,
                               pe_pid (table st ! e))
                    else None
                | None \<Rightarrow>
                    (case peer_alloc st of
                       (st1, ret) \<Rightarrow>
                         if ret < peer_size st1 \<and> pe_rc (table st1 ! unat ret) = 0
                         then (case GNUNET_CONTAINER_multihashmap_put m p (Some (unat ret))
                                      MULTIHASHMAPOPTION_UNIQUE_ONLY of
                                 None \<Rightarrow> None
                               | Some (m', _) \<Rightarrow>
                                   Some (st1\<lparr>free_list_start := pe_pid (table st1 ! unat ret),
                                             table := (table st1)
                                               [unat ret := \<lparr>pe_id = p, pe_pid = ret, pe_rc = 1\<rparr>],
                                             peer_map := Some m'\<rparr>,
                                         ret))
                         else None))))"

definition peer_release :: "peer_state \<Rightarrow> u32 \<Rightarrow> peer_state option" where
  "peer_release st i =
     (if pe_rc (table st ! unat i) = 0
      then (case peer_map st of
              None \<Rightarrow> None
            | Some m \<Rightarrow>
                (case GNUNET_CONTAINER_multihashmap_remove m (pe_id (table st ! unat i)) (Some (unat i)) of
                   (m', _) \<Rightarrow>
                     Some (st\<lparr>peer_map := Some m',
                              table := (table st)
                                [unat i := (table st ! unat i)\<lparr>pe_pid := free_list_start st\<rparr>],
                              free_list_start := i\<rparr>)))
      else Some st)"



definition GNUNET_PEER_change_rc :: "peer_state \<Rightarrow> u32 \<Rightarrow> int \<Rightarrow> peer_state option" where
  "GNUNET_PEER_change_rc st i delta =
     (if i = 0 then Some st
      else if i < peer_size st \<and> pe_rc (table st ! unat i) > 0 \<and>
              (delta \<ge> 0 \<or> pe_rc (table st ! unat i) \<ge> of_int (- delta))
      then peer_release
             (st\<lparr>table := (table st)
                   [unat i := (table st ! unat i)\<lparr>pe_rc := pe_rc (table st ! unat i) + of_int delta\<rparr>]\<rparr>) i
      else None)"


definition GNUNET_PEER_resolve2 :: "peer_state \<Rightarrow> u32 \<Rightarrow> GNUNET_HashCode option" where
  "GNUNET_PEER_resolve2 st i =
     (if unat i < length (table st) then Some (pe_id (table st ! unat i)) else None)"

lemma u32_eq_of_natI: "unat (w :: u32) = n \<Longrightarrow> w = of_nat n"
  by auto

section \<open>The invariant\<close>

fun free_chain :: "PeerEntry list \<Rightarrow> u32 \<Rightarrow> u32 \<Rightarrow> nat list \<Rightarrow> bool" where
  "free_chain tab start stop [] \<longleftrightarrow> start = stop"
| "free_chain tab start stop (x # xs) \<longleftrightarrow>
     unat start = x \<and> free_chain tab (pe_pid (tab ! x)) stop xs"

definition slot_used :: "PeerEntry list \<Rightarrow> nat \<Rightarrow> bool" where
  "slot_used tab i \<longleftrightarrow> 0 < i \<and> i < length tab \<and> pe_rc (tab ! i) \<noteq> 0"

definition slot_free :: "PeerEntry list \<Rightarrow> nat \<Rightarrow> bool" where
  "slot_free tab i \<longleftrightarrow> 0 < i \<and> i < length tab \<and> pe_rc (tab ! i) = 0"

definition table_invar :: "PeerEntry list \<Rightarrow> u32 \<Rightarrow> u32 \<Rightarrow> bool" where
  "table_invar tab sz start \<longleftrightarrow>
     length tab = unat sz \<and> 0 < length tab \<and> pe_rc (tab ! 0) = 1 \<and>
     (\<forall>i. slot_used tab i \<longrightarrow> unat (pe_pid (tab ! i)) = i) \<and>
     (\<exists>fl. free_chain tab start sz fl \<and> distinct fl \<and> set fl = {i. slot_free tab i})"

definition map_agrees :: "PeerEntry list \<Rightarrow> nat GNUNET_CONTAINER_MultiHashMap \<Rightarrow> bool" where
  "map_agrees tab m \<longleftrightarrow>
     (\<exists>f. mhm.represents m f \<and> (\<forall>k i. f k = Some i \<longleftrightarrow> slot_used tab i \<and> pe_id (tab ! i) = k))"

definition peer_invar :: "peer_state \<Rightarrow> bool" where
  "peer_invar st \<longleftrightarrow>
     (case peer_map st of
        None \<Rightarrow> table st = [] \<and> peer_size st = 0 \<and> free_list_start st = 0
      | Some m \<Rightarrow> table_invar (table st) (peer_size st) (free_list_start st) \<and> map_agrees (table st) m)"

definition peer_room :: "peer_state \<Rightarrow> bool" where
  "peer_room st \<longleftrightarrow> peer_size st < 2 ^ 32 - 16 \<and>
     (case peer_map st of None \<Rightarrow> True | Some m \<Rightarrow> map_room m)"

definition interned :: "peer_state \<Rightarrow> GNUNET_HashCode \<Rightarrow> nat option" where
  "interned st k = (case peer_map st of None \<Rightarrow> None | Some m \<Rightarrow> GNUNET_CONTAINER_multihashmap_get m k)"

definition refcount :: "peer_state \<Rightarrow> GNUNET_HashCode \<Rightarrow> nat" where
  "refcount st k = (case interned st k of None \<Rightarrow> 0 | Some i \<Rightarrow> unat (pe_rc (table st ! i)))"

section \<open>Free list\<close>

lemma free_chain_update:
  "x \<notin> set fl \<Longrightarrow> free_chain (tab[x := e]) start stop fl = free_chain tab start stop fl"
  by (induction fl arbitrary: start) auto

lemma free_chain_append:
  "(\<And>x. x \<in> set fl \<Longrightarrow> x < length tab) \<Longrightarrow>
   free_chain (tab @ new) start stop fl = free_chain tab start stop fl"
  by (induction fl arbitrary: start) (auto simp: nth_append)

lemma free_chain_upto:
  assumes "a \<le> b" "b < 2 ^ 32" "\<And>i. a \<le> i \<Longrightarrow> i < b \<Longrightarrow> pe_pid (tab ! i) = of_nat (i + 1)"
  shows "free_chain tab (of_nat a) (of_nat b) [a ..< b]"
  using assms
proof (induction "b - a" arbitrary: a)
  case (Suc n)
  then have "a < b" by simp
  have "free_chain tab (of_nat (a + 1)) (of_nat b) [a + 1 ..< b]"
    by (rule Suc.hyps(1)) (use Suc \<open>a < b\<close> in auto)
  then show ?case using \<open>a < b\<close> Suc.prems
    by (simp add: upt_conv_Cons unat_of_nat)
qed simp

lemma slot_cases: "0 < i \<Longrightarrow> i < length tab \<Longrightarrow> slot_used tab i \<or> slot_free tab i"
  by (auto simp: slot_used_def slot_free_def)

section \<open>Lookups\<close>

lemma interned_iff:
  assumes "peer_invar st"
  shows "interned st k = Some i \<longleftrightarrow> slot_used (table st) i \<and> pe_id (table st ! i) = k"
proof (cases "peer_map st")
  case None
  then show ?thesis using assms by (simp add: peer_invar_def interned_def slot_used_def)
next
  case (Some m)
  then obtain f where "mhm.represents m f" "\<forall>k i. f k = Some i \<longleftrightarrow> slot_used (table st) i \<and> pe_id (table st ! i) = k"
    using assms by (auto simp: peer_invar_def map_agrees_def)
  then show ?thesis using Some by (simp add: interned_def mhm.represents_get)
qed

lemma refcount_pos: "peer_invar st \<Longrightarrow> 0 < refcount st k \<longleftrightarrow> interned st k \<noteq> None"
  by (auto simp: refcount_def slot_used_def unat_gt_0 split: option.splits dest!: interned_iff [THEN iffD1, rotated])

lemma search_interned:
  assumes "peer_invar st"
  shows "GNUNET_PEER_search st (Some k) =
     Some (case interned st k of None \<Rightarrow> 0 | Some i \<Rightarrow> of_nat i)"
proof (cases "interned st k")
  case None
  then show ?thesis by (auto simp: GNUNET_PEER_search_def interned_def split: option.splits)
next
  case (Some i)
  then have "slot_used (table st) i" using interned_iff [OF assms] by simp
  moreover obtain m where m: "peer_map st = Some m" "GNUNET_CONTAINER_multihashmap_get m k = Some i"
    using Some by (auto simp: interned_def split: option.splits)
  ultimately have "unat (pe_pid (table st ! i)) = i" "0 < pe_rc (table st ! i)"
    using assms by (auto simp: peer_invar_def table_invar_def slot_used_def word_neq_0_conv)
  then show ?thesis using m Some
    by (simp add: GNUNET_PEER_search_def u32_eq_of_natI)
qed

section \<open>Allocating a slot\<close>

definition alloc_ready :: "peer_state \<Rightarrow> u32 \<Rightarrow> bool" where
  "alloc_ready st ret \<longleftrightarrow>
     length (table st) = unat (peer_size st) \<and> pe_rc (table st ! 0) = 1 \<and>
     slot_free (table st) (unat ret) \<and>
     (\<exists>fl. free_chain (table st) (pe_pid (table st ! unat ret)) (peer_size st) fl \<and>
        distinct (unat ret # fl) \<and> set (unat ret # fl) = {i. slot_free (table st) i})"

lemma peer_grow_table:
  "i < length (table st) \<Longrightarrow> table (peer_grow st) ! i = table st ! i"
  "length (table (peer_grow st)) = length (table st) + 16"
  "length (table st) \<le> i \<Longrightarrow> i < length (table st) + 16 \<Longrightarrow>
     table (peer_grow st) ! i = \<lparr>pe_id = 0, pe_pid = of_nat (i + 1), pe_rc = 0\<rparr>"
  by (auto simp: peer_grow_def Let_def nth_append)

lemma peer_grow_frame [simp]:
  "peer_map (peer_grow st) = peer_map st" "free_list_start (peer_grow st) = free_list_start st"
  by (simp_all add: peer_grow_def Let_def)

lemma peer_grow_size:
  assumes "length (table st) = unat (peer_size st)" "unat (peer_size st) < 4294967280"
  shows "unat (peer_size (peer_grow st)) = length (table st) + 16"
    "peer_size (peer_grow st) = of_nat (length (table st) + 16)"
proof -
  show "unat (peer_size (peer_grow st)) = length (table st) + 16"
    using assms by (simp add: peer_grow_def Let_def unat_word_ariths)
  then show "peer_size (peer_grow st) = of_nat (length (table st) + 16)"
    by (rule u32_eq_of_natI)
qed

lemma peer_grow_chain:
  assumes "length (table st) = unat (peer_size st)" "unat (peer_size st) < 4294967280"
    and "length (table st) \<le> a" "a \<le> length (table st) + 16"
  shows "free_chain (table (peer_grow st)) (of_nat a) (peer_size (peer_grow st))
     [a ..< length (table st) + 16]"
  unfolding peer_grow_size(2) [OF assms(1,2)]
  by (rule free_chain_upto) (use assms peer_grow_table(3) [of st] in auto)

lemma slot_used_grow:
  "slot_used (table (peer_grow st)) i \<longleftrightarrow> slot_used (table st) i"
proof (cases "i < length (table st)")
  case False
  then show ?thesis
    using peer_grow_table(3) [of st i] by (auto simp: slot_used_def peer_grow_table(2))
qed (auto simp: slot_used_def peer_grow_table)

lemma slot_free_grow:
  assumes "0 < length (table st)" "\<And>j. \<not> slot_free (table st) j"
  shows "{j. slot_free (table (peer_grow st)) j} = {length (table st) ..< length (table st) + 16}"
proof (intro set_eqI)
  fix j
  show "j \<in> {j. slot_free (table (peer_grow st)) j} \<longleftrightarrow> j \<in> {length (table st) ..< length (table st) + 16}"
    using assms peer_grow_table(1) [of j st] peer_grow_table(2) [of st] peer_grow_table(3) [of st j]
    by (cases "j < length (table st)"; cases "j = 0") (auto simp: slot_free_def)
qed

lemma chain_empty_at_end:
  assumes "free_chain tab sz sz fl" "set fl = {i. slot_free tab i}" "length tab = unat sz"
  shows "fl = []"
  using assms by (cases fl) (auto simp: slot_free_def)

lemma peer_alloc_empty:
  assumes "table st = []" "peer_size st = 0" "free_list_start st = 0"
  obtains st1 where "peer_alloc st = (st1, 1)" "alloc_ready st1 1" "peer_map st1 = peer_map st"
    "\<And>i. \<not> slot_used (table st1) i"
proof -
  let ?g = "peer_grow st"
  let ?st1 = "?g\<lparr>table := (table ?g)[0 := (table ?g ! 0)\<lparr>pe_pid := 0, pe_rc := 1\<rparr>]\<rparr>"
  have T: "length (table ?g) = 16" using assms(1) by (simp add: peer_grow_table)
  have E: "table ?g ! i = \<lparr>pe_id = 0, pe_pid = of_nat (i + 1), pe_rc = 0\<rparr>" if "i < 16" for i
    using peer_grow_table(3) [of st i] that assms(1) by simp
  have chain: "free_chain (table ?g) (of_nat 2) (peer_size ?g) [2 ..< 16]"
    using peer_grow_chain [of st 2] assms by simp
  have free: "{i. slot_free (table ?st1) i} = {1 ..< 16}"
    using T by (auto simp: slot_free_def nth_list_update E)
  have "pe_pid (table ?st1 ! unat (1 :: u32)) = of_nat 2" using E [of 1] T by simp
  then have "free_chain (table ?st1) (pe_pid (table ?st1 ! unat (1 :: u32))) (peer_size ?st1) [2 ..< 16]"
    using chain by (simp add: free_chain_update del: upt_rec_numeral)
  moreover have "length (table ?st1) = unat (peer_size ?st1)"
    using T peer_grow_size(1) [of st] assms by simp
  moreover have "pe_rc (table ?st1 ! 0) = 1" using T by simp
  moreover have "slot_free (table ?st1) (unat (1 :: u32))" using free by auto
  moreover have "set (unat (1 :: u32) # [2 ..< 16]) = {i. slot_free (table ?st1) i}"
    unfolding free by (auto simp del: upt_rec_numeral)
  ultimately have "alloc_ready ?st1 1"
    unfolding alloc_ready_def by (intro conjI exI [of _ "[2 ..< 16]"]) simp_all
  moreover have "\<not> slot_used (table ?st1) i" for i
    using T E [of i] by (auto simp: slot_used_def nth_list_update)
  ultimately show thesis
    using that [of ?st1] assms by (simp add: peer_alloc_def Let_def)
qed

lemma peer_alloc_full:
  assumes "table_invar (table st) (peer_size st) (free_list_start st)"
    and "free_list_start st = peer_size st" "unat (peer_size st) < 4294967280"
  shows "peer_alloc st = (peer_grow st, peer_size st) \<and> alloc_ready (peer_grow st) (peer_size st)"
proof -
  let ?g = "peer_grow st" and ?n = "length (table st)"
  obtain fl where fl: "free_chain (table st) (free_list_start st) (peer_size st) fl"
    "set fl = {i. slot_free (table st) i}" and len: "?n = unat (peer_size st)" "0 < ?n"
    and rc0: "pe_rc (table st ! 0) = 1"
    using assms(1) unfolding table_invar_def by blast
  have "fl = []" using chain_empty_at_end fl len assms(2) by metis
  then have "\<not> slot_free (table st) j" for j using fl(2) by auto
  then have free: "{j. slot_free (table ?g) j} = {?n ..< ?n + 16}"
    using slot_free_grow len(2) by blast
  have "pe_pid (table ?g ! ?n) = of_nat (?n + 1)" by (simp add: peer_grow_table(3))
  then have "free_chain (table ?g) (pe_pid (table ?g ! ?n)) (peer_size ?g) [?n + 1 ..< ?n + 16]"
    using peer_grow_chain [OF len(1) assms(3), of "?n + 1"] by simp
  then have "alloc_ready ?g (peer_size st)"
    unfolding alloc_ready_def
    using free len rc0 peer_grow_size [OF len(1) assms(3)]
    by (intro conjI exI [of _ "[?n + 1 ..< ?n + 16]"])
      (simp_all add: peer_grow_table set_eq_iff, linarith?)
  moreover have "peer_size st \<noteq> 0" using len by auto
  ultimately show ?thesis using assms(2) by (simp add: peer_alloc_def Let_def)
qed

lemma peer_alloc_free:
  assumes "table_invar (table st) (peer_size st) (free_list_start st)"
    and "free_list_start st \<noteq> peer_size st"
  shows "peer_alloc st = (st, free_list_start st) \<and> alloc_ready st (free_list_start st)"
proof -
  obtain fl where fl: "free_chain (table st) (free_list_start st) (peer_size st) fl" "distinct fl"
    "set fl = {i. slot_free (table st) i}" and inv: "length (table st) = unat (peer_size st)"
    "pe_rc (table st ! 0) = 1"
    using assms(1) by (auto simp: table_invar_def)
  from fl(1) assms(2) obtain xs where xs: "fl = unat (free_list_start st) # xs"
    "free_chain (table st) (pe_pid (table st ! unat (free_list_start st))) (peer_size st) xs"
    by (cases fl) auto
  then have free: "slot_free (table st) (unat (free_list_start st))" using fl(3) by auto
  then have "free_list_start st \<noteq> 0" by (auto simp: slot_free_def)
  then show ?thesis using assms(2) fl xs free inv
    by (auto simp: peer_alloc_def Let_def alloc_ready_def)
qed

lemma peer_alloc_spec:
  assumes "peer_invar st" "unat (peer_size st) < 4294967280"
  obtains st1 ret where "peer_alloc st = (st1, ret)" "alloc_ready st1 ret" "peer_map st1 = peer_map st"
    "\<And>i. slot_used (table st1) i \<longleftrightarrow> slot_used (table st) i"
    "\<And>i. slot_used (table st) i \<Longrightarrow> table st1 ! i = table st ! i"
proof (cases "peer_map st")
  case None
  then have "table st = []" "peer_size st = 0" "free_list_start st = 0"
    using assms(1) by (auto simp: peer_invar_def)
  from peer_alloc_empty [OF this] that \<open>table st = []\<close> show ?thesis
    by (metis length_greater_0_conv not_less_zero slot_used_def length_0_conv)
next
  case (Some m)
  then have inv: "table_invar (table st) (peer_size st) (free_list_start st)"
    using assms(1) by (simp add: peer_invar_def)
  show ?thesis
  proof (cases "free_list_start st = peer_size st")
    case True
    from peer_alloc_full [OF inv True assms(2)] show ?thesis
      using that slot_used_grow peer_grow_table(1) by (auto simp: slot_used_def)
  next
    case False
    from peer_alloc_free [OF inv False] show ?thesis using that by auto
  qed
qed

section \<open>Changing a slot\<close>

lemma slots_of_update:
  assumes "0 < r" "r < length tab"
  shows "slot_used (tab[r := e]) i \<longleftrightarrow> (if i = r then pe_rc e \<noteq> 0 else slot_used tab i)"
    and "slot_free (tab[r := e]) i \<longleftrightarrow> (if i = r then pe_rc e = 0 else slot_free tab i)"
  using assms by (auto simp: slot_used_def slot_free_def nth_list_update)

lemma table_invarI:
  assumes "length tab = unat sz" "0 < length tab" "pe_rc (tab ! 0) = 1"
    "\<And>i. slot_used tab i \<Longrightarrow> unat (pe_pid (tab ! i)) = i"
    "free_chain tab start sz fl" "distinct fl" "set fl = {i. slot_free tab i}"
  shows "table_invar tab sz start"
  using assms unfolding table_invar_def by blast

lemma store_invar:
  assumes ready: "alloc_ready st ret" and agree: "mhm.represents m f"
    "\<And>k i. f k = Some i \<longleftrightarrow> slot_used (table st) i \<and> pe_id (table st ! i) = k"
    and pids: "\<And>i. slot_used (table st) i \<Longrightarrow> unat (pe_pid (table st ! i)) = i"
    and new: "mhm.represents m' (f(p \<mapsto> unat ret))" "f p = None"
  defines "tab \<equiv> (table st)[unat ret := \<lparr>pe_id = p, pe_pid = ret, pe_rc = 1\<rparr>]"
  shows "table_invar tab (peer_size st) (pe_pid (table st ! unat ret)) \<and> map_agrees tab m'"
proof -
  let ?r = "unat ret"
  obtain fl where fl: "free_chain (table st) (pe_pid (table st ! ?r)) (peer_size st) fl"
    "distinct (?r # fl)" "set (?r # fl) = {i. slot_free (table st) i}"
    using ready by (auto simp: alloc_ready_def)
  have r: "0 < ?r" "?r < length (table st)" "\<not> slot_used (table st) ?r"
    using ready by (auto simp: alloc_ready_def slot_free_def slot_used_def)
  note slots = slots_of_update [OF r(1,2), of "\<lparr>pe_id = p, pe_pid = ret, pe_rc = 1\<rparr>", folded tab_def]
  have "free_chain tab (pe_pid (table st ! ?r)) (peer_size st) fl"
    using fl by (simp add: tab_def free_chain_update)
  moreover have "set fl = {i. slot_free tab i}" using fl(2,3) by (auto simp: slots)
  moreover have nth: "tab ! j = (if j = ?r then \<lparr>pe_id = p, pe_pid = ret, pe_rc = 1\<rparr> else table st ! j)" for j
    using r by (simp add: tab_def)
  moreover have "length tab = length (table st)" by (simp add: tab_def)
  ultimately have "table_invar tab (peer_size st) (pe_pid (table st ! ?r))"
    using ready fl(2) r pids unfolding alloc_ready_def
    by (intro table_invarI [where fl = fl]) (auto simp: slots split: if_splits)
  moreover have "(f(p \<mapsto> ?r)) k = Some i \<longleftrightarrow> slot_used tab i \<and> pe_id (tab ! i) = k" for k i
    using agree(2) [of k i] new(2) r agree(2) [of p i] by (auto simp: slots nth)
  ultimately show ?thesis using new(1) by (auto simp: map_agrees_def)
qed

lemma set_rc_invar:
  assumes "table_invar tab sz start" "map_agrees tab m" "slot_used tab e" "rc \<noteq> 0"
  shows "table_invar (tab[e := (tab ! e)\<lparr>pe_rc := rc\<rparr>]) sz start \<and>
     map_agrees (tab[e := (tab ! e)\<lparr>pe_rc := rc\<rparr>]) m"
proof -
  let ?t = "tab[e := (tab ! e)\<lparr>pe_rc := rc\<rparr>]"
  have e: "0 < e" "e < length tab" "\<not> slot_free tab e"
    using assms(3) by (auto simp: slot_used_def slot_free_def)
  have used: "slot_used ?t i \<longleftrightarrow> slot_used tab i" and free: "slot_free ?t i \<longleftrightarrow> slot_free tab i" for i
    using slots_of_update [OF e(1,2)] assms(3,4) e(3) by auto
  obtain fl where fl: "free_chain tab start sz fl" "distinct fl" "set fl = {i. slot_free tab i}"
    using assms(1) by (auto simp: table_invar_def)
  then have "free_chain ?t start sz fl" using e(3) by (simp add: free_chain_update)
  then have "table_invar ?t sz start"
    using assms(1) fl e unfolding table_invar_def by (auto simp: used free nth_list_update)
  moreover have "pe_id (?t ! i) = pe_id (tab ! i)" for i using e by (simp add: nth_list_update)
  ultimately show ?thesis using assms(2) by (simp add: map_agrees_def used)
qed

lemma free_slot_invar:
  assumes inv: "table_invar tab sz start" and agree: "mhm.represents m f"
    "\<And>k i. f k = Some i \<longleftrightarrow> slot_used tab i \<and> pe_id (tab ! i) = k"
    and used: "slot_used tab (unat i)" and new: "mhm.represents m' (f(pe_id (tab ! unat i) := None))"
  defines "t \<equiv> tab[unat i := (tab ! unat i)\<lparr>pe_rc := 0, pe_pid := start\<rparr>]"
  shows "table_invar t sz i \<and> map_agrees t m'"
proof -
  let ?e = "unat i"
  have e: "0 < ?e" "?e < length tab" "\<not> slot_free tab ?e"
    using used by (auto simp: slot_used_def slot_free_def)
  note slots = slots_of_update [OF e(1,2), of "(tab ! ?e)\<lparr>pe_rc := 0, pe_pid := start\<rparr>", folded t_def]
  obtain fl where fl: "free_chain tab start sz fl" "distinct fl" "set fl = {i. slot_free tab i}"
    using inv by (auto simp: table_invar_def)
  have "free_chain t i sz (?e # fl)" using fl e by (simp add: t_def free_chain_update)
  moreover have "distinct (?e # fl)" "set (?e # fl) = {i. slot_free t i}"
    using fl e by (auto simp: slots)
  moreover have nth: "t ! j = (if j = ?e then (tab ! ?e)\<lparr>pe_rc := 0, pe_pid := start\<rparr> else tab ! j)" for j
    using e by (simp add: t_def)
  moreover have "length t = length tab" by (simp add: t_def)
  ultimately have "table_invar t sz i"
    using inv e unfolding table_invar_def [of tab]
    by (intro table_invarI [where fl = "?e # fl"]) (auto simp: slots split: if_splits)
  moreover have "(f(pe_id (tab ! ?e) := None)) k = Some j \<longleftrightarrow> slot_used t j \<and> pe_id (t ! j) = k" for k j
    using agree(2) [of k j] agree(2) [of k ?e] used by (auto simp: slots nth)
  ultimately show ?thesis using new by (auto simp: map_agrees_def)
qed

section \<open>Interning and releasing\<close>

lemma interned_cong:
  assumes "peer_invar st" "peer_invar st'"
    and "\<And>i. slot_used (table st') i \<and> pe_id (table st' ! i) = j \<longleftrightarrow>
             slot_used (table st) i \<and> pe_id (table st ! i) = j"
  shows "interned st' j = interned st j"
proof -
  have "interned st' j = Some i \<longleftrightarrow> interned st j = Some i" for i
    by (simp only: interned_iff [OF assms(1)] interned_iff [OF assms(2)] assms(3))
  then show ?thesis by (metis not_None_eq)
qed

lemma refcount_cong:
  assumes "interned st' j = interned st j" "\<And>i. interned st j = Some i \<Longrightarrow> table st' ! i = table st ! i"
  shows "refcount st' j = refcount st j"
  using assms by (auto simp: refcount_def split: option.splits)

lemma used_slot:
  assumes "peer_invar st" "interned st k = Some e"
  obtains m where "peer_map st = Some m" "GNUNET_CONTAINER_multihashmap_get m k = Some e"
    "slot_used (table st) e" "pe_id (table st ! e) = k" "unat (pe_pid (table st ! e)) = e"
    "e < unat (peer_size st)" "table_invar (table st) (peer_size st) (free_list_start st)"
    "map_agrees (table st) m"
proof -
  obtain m where m: "peer_map st = Some m" "GNUNET_CONTAINER_multihashmap_get m k = Some e"
    using assms(2) by (auto simp: interned_def split: option.splits)
  then have "table_invar (table st) (peer_size st) (free_list_start st)" "map_agrees (table st) m"
    using assms(1) by (auto simp: peer_invar_def)
  then show ?thesis using that m interned_iff [OF assms(1)] assms(2)
    by (auto simp: table_invar_def slot_used_def)
qed

lemma update_rc:
  assumes inv: "peer_invar st" and k: "interned st k = Some e" and "rc \<noteq> 0"
  defines "st' \<equiv> st\<lparr>table := (table st)[e := (table st ! e)\<lparr>pe_rc := rc\<rparr>]\<rparr>"
  shows "peer_invar st' \<and> refcount st' k = unat rc \<and> interned st' k = Some e \<and>
     (\<forall>j. j \<noteq> k \<longrightarrow> refcount st' j = refcount st j) \<and> interned st' = interned st"
proof -
  obtain m where m: "peer_map st = Some m" "slot_used (table st) e"
    "table_invar (table st) (peer_size st) (free_list_start st)" "map_agrees (table st) m"
    using used_slot [OF inv k] by metis
  have e: "e < length (table st)" "pe_id (table st ! e) = k"
    using m(2) k interned_iff [OF inv] by (auto simp: slot_used_def)
  have inv': "peer_invar st'"
    using set_rc_invar [OF m(3,4,2) \<open>rc \<noteq> 0\<close>] m(1) by (simp add: peer_invar_def st'_def)
  have int: "interned st' = interned st"
    by (rule ext) (simp add: interned_def st'_def)
  have "refcount st' j = refcount st j" if "j \<noteq> k" for j
    by (rule refcount_cong)
      (use int that interned_iff [OF inv, of j] e in \<open>auto simp: st'_def nth_list_update\<close>)
  moreover have "refcount st' k = unat rc" using int k e by (simp add: refcount_def st'_def)
  ultimately show ?thesis using inv' int k by simp
qed


lemma intern_new:
  assumes inv: "peer_invar st" and k: "interned st k = None" and room: "peer_room st"
  obtains st' ret where "GNUNET_PEER_intern st (Some k) = Some (st', ret)" "peer_invar st'" "ret \<noteq> 0"
    "interned st' k = Some (unat ret)" "refcount st' k = 1"
    "\<And>j. j \<noteq> k \<Longrightarrow> interned st' j = interned st j"
    "\<And>j. j \<noteq> k \<Longrightarrow> refcount st' j = refcount st j"
proof -
  have "unat (peer_size st) < 4294967280"
    using room by (simp add: peer_room_def word_less_nat_alt)
  then obtain st1 ret where al: "peer_alloc st = (st1, ret)" and ready: "alloc_ready st1 ret"
    and frame: "peer_map st1 = peer_map st" "\<And>i. slot_used (table st1) i \<longleftrightarrow> slot_used (table st) i"
      "\<And>i. slot_used (table st) i \<Longrightarrow> table st1 ! i = table st ! i"
    using peer_alloc_spec [OF inv] by metis
  obtain m f where m: "(case peer_map st of None \<Rightarrow> GNUNET_CONTAINER_multihashmap_create 32 True
      | Some m \<Rightarrow> Some m) = Some m" "map_room m" and f: "mhm.represents m f"
      "\<And>k i. f k = Some i \<longleftrightarrow> slot_used (table st) i \<and> pe_id (table st ! i) = k"
  proof (cases "peer_map st")
    case None
    have "(0 :: u32) < 32" by simp
    then obtain m :: "nat GNUNET_CONTAINER_MultiHashMap" where
      c: "GNUNET_CONTAINER_multihashmap_create 32 True = Some m" "map_invar m" "map_pairs m = {#}"
      "map_length m = 32" "map_size m = 0" by (rule create_spec)
    then have "mhm.represents m Map.empty" "map_room m"
      by (simp_all add: mhm.represents_def map_room_def)
    then show ?thesis using that [of m Map.empty] None c(1) inv
      by (auto simp: peer_invar_def slot_used_def)
  next
    case (Some m)
    then show ?thesis using that [of m] inv room by (auto simp: peer_invar_def map_agrees_def peer_room_def)
  qed
  have fk: "f k = None" using f(2) k interned_iff [OF inv, of k] by (metis not_None_eq)
  obtain m' where m': "GNUNET_CONTAINER_multihashmap_put m k (Some (unat ret))
      MULTIHASHMAPOPTION_UNIQUE_ONLY = Some (m', GNUNET_OK)" "mhm.represents m' (f(k \<mapsto> unat ret))"
    using mhm.represents_put [OF f(1) m(2) fk] by blast
  let ?tab = "(table st1)[unat ret := \<lparr>pe_id = k, pe_pid = ret, pe_rc = 1\<rparr>]"
  let ?st = "st1\<lparr>free_list_start := pe_pid (table st1 ! unat ret), table := ?tab, peer_map := Some m'\<rparr>"
  have r: "0 < unat ret" "unat ret < length (table st1)" "pe_rc (table st1 ! unat ret) = 0"
    "length (table st1) = unat (peer_size st1)" "\<not> slot_used (table st) (unat ret)"
    using ready frame(2) by (auto simp: alloc_ready_def slot_free_def slot_used_def)
  have pids: "unat (pe_pid (table st1 ! i)) = i" if "slot_used (table st1) i" for i
    using that frame inv by (auto simp: peer_invar_def table_invar_def slot_used_def split: option.splits)
  have f1: "f j = Some i \<longleftrightarrow> slot_used (table st1) i \<and> pe_id (table st1 ! i) = j" for j i
    using f(2) frame(2,3) by auto
  have inv': "peer_invar ?st"
    using store_invar [OF ready f(1) f1 pids m'(2) fk] by (simp add: peer_invar_def)
  have "GNUNET_CONTAINER_multihashmap_get m k = None" using f(1) fk by (simp add: mhm.represents_get)
  then have res: "GNUNET_PEER_intern st (Some k) = Some (?st, ret)"
    using m(1) al r m'(1) by (simp add: GNUNET_PEER_intern_def word_less_nat_alt)
  have slots: "slot_used ?tab i \<and> pe_id (?tab ! i) = j \<longleftrightarrow>
      (if i = unat ret then j = k else slot_used (table st) i \<and> pe_id (table st ! i) = j)" for i j
    using slots_of_update(1) [OF r(1,2)] frame r by (auto simp: nth_list_update)
  have int: "interned ?st j = interned st j" if "j \<noteq> k" for j
    by (rule interned_cong [OF inv inv']) (use slots that r(5) in auto)
  moreover have "refcount ?st j = refcount st j" if "j \<noteq> k" for j
    by (rule refcount_cong)
      (use int that interned_iff [OF inv, of j] r frame in \<open>auto simp: nth_list_update\<close>)
  moreover have "interned ?st k = Some (unat ret)"
    unfolding interned_iff [OF inv'] using slots [of "unat ret" k] by simp
  moreover from this have "refcount ?st k = 1" using r by (simp add: refcount_def)
  moreover have "ret \<noteq> 0" using r(1) by auto
  ultimately show thesis using that res inv' by blast
qed

lemma release_last:
  assumes inv: "peer_invar st" and k: "interned st k = Some (unat i)"
  defines "st0 \<equiv> st\<lparr>table := (table st)[unat i := (table st ! unat i)\<lparr>pe_rc := 0\<rparr>]\<rparr>"
  obtains st' where "peer_release st0 i = Some st'" "peer_invar st'" "interned st' k = None"
    "\<And>j. j \<noteq> k \<Longrightarrow> interned st' j = interned st j"
    "\<And>j. j \<noteq> k \<Longrightarrow> refcount st' j = refcount st j"
proof -
  let ?e = "unat i"
  obtain m where m: "peer_map st = Some m" "slot_used (table st) ?e" "pe_id (table st ! ?e) = k"
    "table_invar (table st) (peer_size st) (free_list_start st)" "map_agrees (table st) m"
    using used_slot [OF inv k] by metis
  obtain f where f: "mhm.represents m f"
      "\<And>k i. f k = Some i \<longleftrightarrow> slot_used (table st) i \<and> pe_id (table st ! i) = k"
    using m(5) by (auto simp: map_agrees_def)
  obtain m' where m': "GNUNET_CONTAINER_multihashmap_remove m k (Some ?e) = (m', GNUNET_YES)"
      "mhm.represents m' (f(k := None))"
    using mhm.represents_remove [OF f(1), of k ?e] f(2) m(2,3) by auto
  let ?t = "(table st)[?e := (table st ! ?e)\<lparr>pe_rc := 0, pe_pid := free_list_start st\<rparr>]"
  let ?st = "st\<lparr>table := ?t, free_list_start := i, peer_map := Some m'\<rparr>"
  have e: "0 < ?e" "?e < length (table st)" using m(2) by (auto simp: slot_used_def)
  have res: "peer_release st0 i = Some ?st"
    using m(1,3) e m'(1) by (simp add: peer_release_def st0_def)
  have inv': "peer_invar ?st"
    using free_slot_invar [OF m(4) f m(2)] m'(2) m(3) by (simp add: peer_invar_def)
  have slots: "slot_used ?t n \<and> pe_id (?t ! n) = j \<longleftrightarrow>
      n \<noteq> ?e \<and> slot_used (table st) n \<and> pe_id (table st ! n) = j" for n j
    using slots_of_update(1) [OF e] e by (auto simp: nth_list_update)
  have int: "interned ?st j = interned st j" if "j \<noteq> k" for j
    by (rule interned_cong [OF inv inv']) (use slots that m(3) in auto)
  moreover have "refcount ?st j = refcount st j" if "j \<noteq> k" for j
    by (rule refcount_cong)
      (use int that interned_iff [OF inv, of j] m(3) e in \<open>auto simp: nth_list_update\<close>)
  moreover have "interned ?st k \<noteq> Some n" for n
  proof
    assume "interned ?st k = Some n"
    then have "interned st k = Some n" "n \<noteq> ?e"
      using slots [of n k] by (auto simp: interned_iff [OF inv'] interned_iff [OF inv])
    then show False using k by simp
  qed
  ultimately show thesis using that [OF res inv'] by blast
qed

lemma unat_u32_of_int: "0 \<le> z \<Longrightarrow> z < 4294967296 \<Longrightarrow> unat (of_int z :: u32) = nat z"
  by (simp add: unsigned_of_int take_bit_int_eq_self)

lemma unat_add_of_int:
  fixes w :: u32
  assumes "0 \<le> int (unat w) + d" "int (unat w) + d < 4294967296"
  shows "unat (w + of_int d) = nat (int (unat w) + d)"
proof -
  have "w + of_int d = of_int (uint w + d)" by simp
  moreover have "int (unat w) = uint w" by simp
  ultimately show ?thesis using assms unat_u32_of_int [of "uint w + d"] by metis
qed

lemma change_rc_spec:
  assumes inv: "peer_invar st" and k: "interned st k = Some (unat i)"
    and d: "0 \<le> int (refcount st k) + delta" "int (refcount st k) + delta < 4294967296"
  obtains st' where "GNUNET_PEER_change_rc st i delta = Some st'" "peer_invar st'"
    "int (refcount st' k) = int (refcount st k) + delta"
    "interned st' k = (if int (refcount st k) + delta = 0 then None else Some (unat i))"
    "\<And>j. j \<noteq> k \<Longrightarrow> interned st' j = interned st j"
    "\<And>j. j \<noteq> k \<Longrightarrow> refcount st' j = refcount st j"
proof -
  let ?rc = "pe_rc (table st ! unat i)"
  let ?st = "st\<lparr>table := (table st)[unat i := (table st ! unat i)\<lparr>pe_rc := ?rc + of_int delta\<rparr>]\<rparr>"
  obtain m where m: "peer_map st = Some m" "slot_used (table st) (unat i)" "unat i < unat (peer_size st)"
    using used_slot [OF inv k] by metis
  have rc: "refcount st k = unat ?rc" using k by (simp add: refcount_def)
  have new: "unat (?rc + of_int delta) = nat (int (unat ?rc) + delta)"
    by (rule unat_add_of_int) (use d rc in auto)
  have "of_int (- delta) \<le> ?rc" if "delta < 0"
  proof -
    have "- delta < 4294967296" using d(1) rc unat_u32_lt [of ?rc] by linarith
    then have "unat (of_int (- delta) :: u32) = nat (- delta)"
      using that by (intro unat_u32_of_int) simp_all
    also have "\<dots> \<le> unat ?rc" using d rc that by linarith
    finally show ?thesis by (simp add: word_le_nat_alt)
  qed
  then have "delta \<ge> 0 \<or> of_int (- delta) \<le> ?rc" by (cases "delta < 0") (simp_all only: not_less simp_thms)
  moreover have "i \<noteq> 0" "?rc > 0" "i < peer_size st"
    using m by (auto simp: slot_used_def word_neq_0_conv word_less_nat_alt)
  ultimately have step: "GNUNET_PEER_change_rc st i delta = peer_release ?st i"
    unfolding GNUNET_PEER_change_rc_def by (simp only: if_True if_False simp_thms)
  have ilen: "unat i < length (table st)" using m(2) by (simp add: slot_used_def)
  show thesis
  proof (cases "int (refcount st k) + delta = 0")
    case True
    then have z: "?rc + of_int delta = 0" using new rc by (simp add: unat_eq_0)
    obtain st' where "peer_release ?st i = Some st'" "peer_invar st'" "interned st' k = None"
      "\<And>j. j \<noteq> k \<Longrightarrow> interned st' j = interned st j" "\<And>j. j \<noteq> k \<Longrightarrow> refcount st' j = refcount st j"
      using release_last [OF inv k] unfolding z by metis
    then show thesis using that [of st'] True step by (simp add: refcount_def)
  next
    case False
    then have "unat (?rc + of_int delta) \<noteq> 0" using new rc d by linarith
    then have nz: "?rc + of_int delta \<noteq> 0" by (simp only: unat_eq_0 not_False_eq_True)
    then have "peer_release ?st i = Some ?st" using ilen
      by (simp add: peer_release_def)
    then show thesis using that [of ?st] update_rc [OF inv k nz] step new rc d False k by simp
  qed
qed


lemma peer_init_invar:
  "peer_invar peer_init \<and> peer_room peer_init \<and> refcount peer_init k = 0 \<and> interned peer_init k = None"
  by (simp add: peer_init_def peer_invar_def peer_room_def refcount_def interned_def)

section \<open>Properties\<close>

lemma search_eq_iff:
  assumes "peer_invar st"
  shows "GNUNET_PEER_search st (Some k) = Some i \<and> i \<noteq> 0 \<longleftrightarrow> interned st k = Some (unat i) \<and> i \<noteq> 0"
proof (cases "interned st k")
  case (Some e)
  then have "e < unat (peer_size st)" using used_slot [OF assms] by metis
  then have "e < 4294967296" using unat_u32_lt [of "peer_size st"] by linarith
  then have "unat (of_nat e :: u32) = e" by (simp add: unat_of_nat)
  then show ?thesis using Some by (auto simp: search_interned [OF assms] dest: u32_eq_of_natI)
qed (auto simp: search_interned [OF assms])




text \<open>
  C29: Changing the reference counter of an identifier by an amount that keeps it in range changes
  exactly that counter; when it reaches zero the identity is forgotten (the search no longer finds
  it) and its slot returns to the free list, and every other identity keeps its identifier and its
  counter.
\<close>

theorem peer_change_rc_correct:
  assumes "peer_invar st" "GNUNET_PEER_search st (Some k) = Some i" "i \<noteq> 0"
    and "0 \<le> int (refcount st k) + delta" "int (refcount st k) + delta < 4294967296"
  shows "\<exists>st'. GNUNET_PEER_change_rc st i delta = Some st' \<and> peer_invar st' \<and>
    int (refcount st' k) = int (refcount st k) + delta \<and>
    GNUNET_PEER_search st' (Some k) = Some (if int (refcount st k) + delta = 0 then 0 else i) \<and>
    (\<forall>j. j \<noteq> k \<longrightarrow> refcount st' j = refcount st j \<and>
       GNUNET_PEER_search st' (Some j) = GNUNET_PEER_search st (Some j))"
proof -
  have k: "interned st k = Some (unat i)" using search_eq_iff assms(1-3) by metis
  obtain st' where n: "GNUNET_PEER_change_rc st i delta = Some st'" "peer_invar st'"
    "int (refcount st' k) = int (refcount st k) + delta"
    "interned st' k = (if int (refcount st k) + delta = 0 then None else Some (unat i))"
    "\<And>j. j \<noteq> k \<Longrightarrow> interned st' j = interned st j" "\<And>j. j \<noteq> k \<Longrightarrow> refcount st' j = refcount st j"
    using change_rc_spec [OF assms(1) k assms(4,5)] by metis
  moreover have "GNUNET_PEER_search st' (Some j) = GNUNET_PEER_search st (Some j)" if "j \<noteq> k" for j
    using n(5) [OF that] by (simp add: search_interned n(2) assms(1))
  moreover have "GNUNET_PEER_search st' (Some k) = Some (if int (refcount st k) + delta = 0 then 0 else i)"
    using n(4) by (simp add: search_interned n(2))
  ultimately show ?thesis by (intro exI [of _ st']) simp
qed

theorem peer_change_rc_correct_witness:
  "\<exists>st i st'. GNUNET_PEER_intern peer_init (Some 7) = Some (st, i) \<and>
     GNUNET_PEER_change_rc st i (- 1) = Some st' \<and> refcount st' 7 = 0 \<and>
     GNUNET_PEER_search st' (Some 7) = Some 0"
proof -
  obtain st i where n: "GNUNET_PEER_intern peer_init (Some 7) = Some (st, i)" "peer_invar st" "i \<noteq> 0"
    "interned st 7 = Some (unat i)" "refcount st 7 = 1"
    by (rule intern_new [of peer_init 7]) (simp_all add: peer_init_invar)
  moreover from this have "GNUNET_PEER_search st (Some 7) = Some i" using search_eq_iff by blast
  ultimately obtain st' where "GNUNET_PEER_change_rc st i (- 1) = Some st'" "refcount st' 7 = 0"
    "GNUNET_PEER_search st' (Some 7) = Some 0"
    using peer_change_rc_correct [of st 7 i "- 1"] by auto
  then show ?thesis using n by blast
qed



end
