(* ===== verification/Bandwidth.thy ===== *)
theory Bandwidth
  imports Time_Lib
begin

text \<open>
  Bandwidth values and the bandwidth tracker, \<^verbatim>\<open>src/src/util/bandwidth.c\<close>.  The struct fields drop their trailing underscores.  The signed 64-bit
  integers of the tracker are words whose value is read by \<open>sint\<close>; arithmetic that mixes signed and
  unsigned operands is done on the words, as the usual arithmetic conversions of C make it.  The
  tracker's carry limit is a product of two 32-bit integers and wraps there, as in the code.
  \<open>credit\<close> and \<open>carry_limit\<close> are the specification over the unbounded integers; the lemmas show that
  the tracker is a token bucket with that refill and that cap.
\<close>

type_synonym i64 = "64 word"

record GNUNET_BANDWIDTH_Value32NBO = nbo_value :: u32

record GNUNET_BANDWIDTH_Tracker =
  consumption_since_last_update :: i64
  last_update :: GNUNET_TIME_Absolute
  available_bytes_per_s :: u32
  max_carry_s :: u32

definition GNUNET_BANDWIDTH_value_init :: "byte_order \<Rightarrow> u32 \<Rightarrow> GNUNET_BANDWIDTH_Value32NBO" where
  "GNUNET_BANDWIDTH_value_init bo bytes_per_second = \<lparr>nbo_value = htonl bo bytes_per_second\<rparr>"

definition GNUNET_BANDWIDTH_value_min ::
    "byte_order \<Rightarrow> GNUNET_BANDWIDTH_Value32NBO \<Rightarrow> GNUNET_BANDWIDTH_Value32NBO \<Rightarrow>
     GNUNET_BANDWIDTH_Value32NBO" where
  "GNUNET_BANDWIDTH_value_min bo b1 b2 =
     GNUNET_BANDWIDTH_value_init bo
       (if ntohl bo (nbo_value b1) < ntohl bo (nbo_value b2)
        then ntohl bo (nbo_value b1) else ntohl bo (nbo_value b2))"

definition GNUNET_BANDWIDTH_value_get_available_until ::
    "byte_order \<Rightarrow> GNUNET_BANDWIDTH_Value32NBO \<Rightarrow> GNUNET_TIME_Relative \<Rightarrow> u64" where
  "GNUNET_BANDWIDTH_value_get_available_until bo bps deadline =
     (let b = ucast (ntohl bo (nbo_value bps)) in (b * rel_value deadline + 500) div 1000)"

definition GNUNET_BANDWIDTH_value_get_delay_for ::
    "byte_order \<Rightarrow> GNUNET_BANDWIDTH_Value32NBO \<Rightarrow> u64 \<Rightarrow> GNUNET_TIME_Relative" where
  "GNUNET_BANDWIDTH_value_get_delay_for bo bps sz =
     (let b = ucast (ntohl bo (nbo_value bps)) :: u64 in
      if b = 0 then GNUNET_TIME_UNIT_FOREVER_REL
      else \<lparr>rel_value = sz * 1000 div b\<rparr>)"

definition GNUNET_BANDWIDTH_tracker_init ::
    "byte_order \<Rightarrow> GNUNET_TIME_Absolute \<Rightarrow> GNUNET_BANDWIDTH_Value32NBO \<Rightarrow> u32 \<Rightarrow>
     GNUNET_BANDWIDTH_Tracker" where
  "GNUNET_BANDWIDTH_tracker_init bo now bytes_per_second_limit carry_s =
     \<lparr>consumption_since_last_update = 0,
      last_update = now,
      available_bytes_per_s = ntohl bo (nbo_value bytes_per_second_limit),
      max_carry_s = carry_s\<rparr>"

definition update_tracker ::
    "GNUNET_TIME_Absolute \<Rightarrow> GNUNET_BANDWIDTH_Tracker \<Rightarrow> GNUNET_BANDWIDTH_Tracker" where
  "update_tracker now av =
     (let delta_time = abs_value now - abs_value (last_update av);
          delta_avail = (delta_time * ucast (available_bytes_per_s av) + 500) div 1000;
          consumption = consumption_since_last_update av - delta_avail;
          consumption' =
            (if sint consumption < 0
             then (let left_bytes = - consumption;
                       max_carry = ucast (available_bytes_per_s av * max_carry_s av) :: u64;
                       max_carry = (if max_carry < GNUNET_SERVER_MAX_MESSAGE_SIZE
                                    then GNUNET_SERVER_MAX_MESSAGE_SIZE else max_carry)
                   in if max_carry > left_bytes then - left_bytes else - max_carry)
             else consumption)
      in av\<lparr>consumption_since_last_update := consumption', last_update := now\<rparr>)"

definition GNUNET_BANDWIDTH_tracker_consume ::
    "GNUNET_TIME_Absolute \<Rightarrow> GNUNET_BANDWIDTH_Tracker \<Rightarrow> i64 \<Rightarrow> GNUNET_BANDWIDTH_Tracker \<times> int" where
  "GNUNET_BANDWIDTH_tracker_consume now av sz =
     (if sint sz > 0
      then (let nc = consumption_since_last_update av + sz in
            if sint nc < sint (consumption_since_last_update av) then (av, GNUNET_SYSERR)
            else (let av' = update_tracker now (av\<lparr>consumption_since_last_update := nc\<rparr>) in
                  if sint (consumption_since_last_update av') > 0 then (av', GNUNET_YES)
                  else (av', GNUNET_NO)))
      else (av\<lparr>consumption_since_last_update := consumption_since_last_update av + sz\<rparr>,
            GNUNET_NO))"

definition GNUNET_BANDWIDTH_tracker_get_delay ::
    "GNUNET_TIME_Absolute \<Rightarrow> GNUNET_BANDWIDTH_Tracker \<Rightarrow> u64 \<Rightarrow>
     GNUNET_BANDWIDTH_Tracker \<times> GNUNET_TIME_Relative" where
  "GNUNET_BANDWIDTH_tracker_get_delay now av sz =
     (if available_bytes_per_s av = 0 then (av, GNUNET_TIME_UNIT_FOREVER_REL)
      else (let av' = update_tracker now av;
                bytes_needed = sz + consumption_since_last_update av' in
            if sint bytes_needed \<le> 0 then (av', GNUNET_TIME_UNIT_ZERO)
            else (av', \<lparr>rel_value = (1000 * bytes_needed) div ucast (available_bytes_per_s av')\<rparr>)))"

definition GNUNET_BANDWIDTH_tracker_get_available ::
    "byte_order \<Rightarrow> GNUNET_TIME_Absolute \<Rightarrow> GNUNET_TIME_Absolute \<Rightarrow> GNUNET_BANDWIDTH_Tracker \<Rightarrow>
     (GNUNET_BANDWIDTH_Tracker \<times> i64) option" where
  "GNUNET_BANDWIDTH_tracker_get_available bo now now' av =
     (let av' = update_tracker now av;
          bps = GNUNET_BANDWIDTH_value_init bo (available_bytes_per_s av') in
      case GNUNET_TIME_absolute_get_duration now' (last_update av') of
        None \<Rightarrow> None
      | Some duration \<Rightarrow>
          (let avail = GNUNET_BANDWIDTH_value_get_available_until bo bps duration;
               used = consumption_since_last_update av'
           in Some (av', avail - used)))"

definition GNUNET_BANDWIDTH_tracker_update_quota ::
    "byte_order \<Rightarrow> GNUNET_TIME_Absolute \<Rightarrow> GNUNET_TIME_Absolute \<Rightarrow> GNUNET_BANDWIDTH_Tracker \<Rightarrow>
     GNUNET_BANDWIDTH_Value32NBO \<Rightarrow> GNUNET_BANDWIDTH_Tracker" where
  "GNUNET_BANDWIDTH_tracker_update_quota bo now now' av bytes_per_second_limit =
     (let new_limit = ntohl bo (nbo_value bytes_per_second_limit);
          av1 = update_tracker now av;
          old_limit = available_bytes_per_s av1;
          av2 = av1\<lparr>available_bytes_per_s := new_limit\<rparr>
      in if old_limit > new_limit then update_tracker now' av2 else av2)"

section \<open>The token bucket\<close>

definition consumed :: "GNUNET_BANDWIDTH_Tracker \<Rightarrow> int" where
  "consumed av = sint (consumption_since_last_update av)"

definition rate :: "GNUNET_BANDWIDTH_Tracker \<Rightarrow> int" where
  "rate av = uint (available_bytes_per_s av)"

definition carry_limit :: "GNUNET_BANDWIDTH_Tracker \<Rightarrow> int" where
  "carry_limit av = max 65536 ((rate av * uint (max_carry_s av)) mod 2 ^ 32)"

definition elapsed :: "GNUNET_TIME_Absolute \<Rightarrow> GNUNET_BANDWIDTH_Tracker \<Rightarrow> int" where
  "elapsed now av = uint (abs_value now) - uint (abs_value (last_update av))"

definition credit :: "int \<Rightarrow> int \<Rightarrow> int" where
  "credit bps ms = (bps * ms + 500) div 1000"

definition in_i64 :: "int \<Rightarrow> bool" where
  "in_i64 z \<longleftrightarrow> - (2 ^ 63) \<le> z \<and> z < 2 ^ 63"

definition tracker_range :: "GNUNET_TIME_Absolute \<Rightarrow> GNUNET_BANDWIDTH_Tracker \<Rightarrow> bool" where
  "tracker_range now av \<longleftrightarrow> 0 \<le> elapsed now av \<and> rate av * elapsed now av + 500 < 2 ^ 64 \<and>
     in_i64 (consumed av - credit (rate av) (elapsed now av))"

lemma sint_of_int_i64: "in_i64 z \<Longrightarrow> sint (of_int z :: i64) = z"
  by (simp add: in_i64_def signed_of_int signed_take_bit_int_eq_self)

lemma uint_u64_of_int: "0 \<le> z \<Longrightarrow> z < 2 ^ 64 \<Longrightarrow> uint (of_int z :: u64) = z"
  by (simp add: unsigned_of_int take_bit_int_eq_self)

lemma in_i64_sint [simp]: "in_i64 (sint (w :: i64))"
  using sint_ge [of w] sint_lt [of w] by (simp add: in_i64_def)

lemma sint_neg_uint: "sint (w :: i64) < 0 \<Longrightarrow> uint (- w) = - sint w"
proof -
  assume "sint w < 0"
  moreover have "- w = of_int (- sint w)" by simp
  moreover have "- sint w < 2 ^ 64" using in_i64_sint [of w] by (simp add: in_i64_def)
  ultimately show ?thesis using uint_u64_of_int [of "- sint w"] by simp
qed

lemma sint_ucast_u32: "uint (ucast (x :: u32) :: u64) = uint x"
proof -
  have "uint x < 2 ^ 64" using uint_bounded [of x] by simp
  then show ?thesis by (simp add: unsigned_ucast_eq take_bit_int_eq_self)
qed

lemma max_carry_word:
  "uint (if (ucast (available_bytes_per_s av * max_carry_s av) :: u64) < GNUNET_SERVER_MAX_MESSAGE_SIZE
         then GNUNET_SERVER_MAX_MESSAGE_SIZE else ucast (available_bytes_per_s av * max_carry_s av)) =
   carry_limit av"
  by (simp add: carry_limit_def rate_def GNUNET_SERVER_MAX_MESSAGE_SIZE_def word_less_def
      sint_ucast_u32 uint_word_ariths max_def)

lemma carry_limit_bounds: "65536 \<le> carry_limit av" "carry_limit av < 2 ^ 32"
  by (auto simp: carry_limit_def max_def)

lemma sint_minus_word: "uint (w :: u64) < 2 ^ 63 \<Longrightarrow> sint (- w) = - uint w"
proof -
  assume "uint w < 2 ^ 63"
  moreover have "0 \<le> uint w" by simp
  ultimately have "in_i64 (- uint w)" unfolding in_i64_def by linarith
  then show ?thesis using sint_of_int_i64 [of "- uint w"] by simp
qed

text \<open>The cap: whatever the clock does, the unused bandwidth never exceeds the carry limit.\<close>

lemma cap_word:
  fixes c m :: i64
  assumes "uint m = carry_limit av" "sint c < 0"
  shows "sint (if m > - c then - (- c) else - m) = max (sint c) (- carry_limit av)"
proof -
  have "sint (- m) = - carry_limit av"
    using sint_minus_word [of m] carry_limit_bounds [of av] assms(1) by simp
  then show ?thesis using sint_neg_uint [OF assms(2)] assms(1) by (simp add: word_less_def max_def)
qed

lemma consumption_updated:
  "consumption_since_last_update (av\<lparr>consumption_since_last_update := c, last_update := t\<rparr>) = c"
  by simp

lemma consumed_update:
  "consumed (update_tracker now av) =
     max (sint (consumption_since_last_update av -
            ((abs_value now - abs_value (last_update av)) * ucast (available_bytes_per_s av) + 500) div 1000))
         (- carry_limit av)"
  (is "_ = max (sint ?c) _")
proof (cases "sint ?c < 0")
  case True
  have "consumption_since_last_update (update_tracker now av) =
      (let m = (if (ucast (available_bytes_per_s av * max_carry_s av) :: u64) < GNUNET_SERVER_MAX_MESSAGE_SIZE
                then GNUNET_SERVER_MAX_MESSAGE_SIZE else ucast (available_bytes_per_s av * max_carry_s av))
       in if m > - ?c then - (- ?c) else - m)"
    using True by (simp only: update_tracker_def Let_def if_True consumption_updated)
  then show ?thesis
    using cap_word [OF max_carry_word True] by (simp only: consumed_def Let_def)
next
  case False
  then have "consumption_since_last_update (update_tracker now av) = ?c"
    by (simp only: update_tracker_def Let_def if_False consumption_updated)
  moreover have "- carry_limit av \<le> sint ?c" using False carry_limit_bounds(1) [of av] by linarith
  ultimately show ?thesis by (simp only: consumed_def max_absorb1)
qed

lemma credit_word:
  assumes "0 \<le> elapsed now av" "rate av * elapsed now av + 500 < 2 ^ 64"
  shows "uint (((abs_value now - abs_value (last_update av)) * ucast (available_bytes_per_s av) + 500) div 1000) =
    credit (rate av) (elapsed now av)"
proof -
  let ?d = "abs_value now - abs_value (last_update av)" and ?b = "ucast (available_bytes_per_s av) :: u64"
  have "?d * ?b + 500 = of_int (rate av * elapsed now av + 500)"
    by (simp add: rate_def elapsed_def algebra_simps)
  moreover have "0 \<le> rate av" by (simp add: rate_def)
  then have "0 \<le> rate av * elapsed now av + 500" using assms(1) by simp
  ultimately have "uint (?d * ?b + 500) = rate av * elapsed now av + 500"
    using uint_u64_of_int assms(2) by metis
  then show ?thesis by (simp add: uint_div_distrib credit_def)
qed

lemma update_tracker_spec:
  assumes "tracker_range now av"
  shows "consumed (update_tracker now av) =
     max (consumed av - credit (rate av) (elapsed now av)) (- carry_limit av)"
proof -
  let ?a = "((abs_value now - abs_value (last_update av)) * ucast (available_bytes_per_s av) + 500) div 1000"
  have "uint ?a = credit (rate av) (elapsed now av)"
    using assms by (intro credit_word) (auto simp: tracker_range_def)
  then have a: "?a = of_int (credit (rate av) (elapsed now av))" using word_of_int_uint [of ?a] by simp
  have "consumption_since_last_update av = of_int (consumed av)" by (simp add: consumed_def)
  then have "consumption_since_last_update av - ?a = of_int (consumed av - credit (rate av) (elapsed now av))"
    unfolding a by simp
  moreover have "in_i64 (consumed av - credit (rate av) (elapsed now av))"
    using assms by (simp add: tracker_range_def)
  ultimately show ?thesis unfolding consumed_update by (simp only: sint_of_int_i64)
qed

lemma update_tracker_frame [simp]:
  "last_update (update_tracker now av) = now" "rate (update_tracker now av) = rate av"
  "carry_limit (update_tracker now av) = carry_limit av"
  "available_bytes_per_s (update_tracker now av) = available_bytes_per_s av"
  "elapsed t (update_tracker now av) = uint (abs_value t) - uint (abs_value now)"
  by (simp_all add: update_tracker_def Let_def rate_def carry_limit_def elapsed_def)


lemma sint_add_i64: "in_i64 (sint x + sint y) \<Longrightarrow> sint (x + y :: i64) = sint x + sint y"
  using sint_of_int_i64 [of "sint x + sint y"] by simp

lemma sint_add_overflow:
  fixes x y :: i64
  assumes "0 < sint y" "\<not> in_i64 (sint x + sint y)"
  shows "sint (x + y) < sint x"
proof -
  have "x + y = of_int (sint x + sint y - 2 ^ 64)" by simp
  moreover have "in_i64 (sint x + sint y - 2 ^ 64)" and b: "sint y < 2 ^ 63"
    using assms in_i64_sint [of x] in_i64_sint [of y] by (auto simp: in_i64_def)
  ultimately have "sint (x + y) = sint x + sint y - 2 ^ 64" using sint_of_int_i64 by metis
  then show ?thesis using b by simp
qed

lemma credit_nonneg: "0 \<le> bps \<Longrightarrow> 0 \<le> ms \<Longrightarrow> 0 \<le> credit bps ms"
  by (simp add: credit_def pos_imp_zdiv_nonneg_iff)

section \<open>Properties\<close>



text \<open>
  Consuming bytes adds them to the consumption, refills, and reports excess exactly when the
  consumption is then positive; an amount that would overflow the counter is rejected and leaves
  the tracker unchanged; a negative amount gives bandwidth back.
\<close>

theorem bandwidth_consume_correct:
  assumes "GNUNET_BANDWIDTH_tracker_consume now av sz = (av', res)"
  shows "(0 < sint sz \<and> in_i64 (consumed av + sint sz) \<and>
            tracker_range now (av\<lparr>consumption_since_last_update := consumption_since_last_update av + sz\<rparr>) \<longrightarrow>
          consumed av' = max (consumed av + sint sz - credit (rate av) (elapsed now av)) (- carry_limit av) \<and>
          last_update av' = now \<and> res = (if 0 < consumed av' then GNUNET_YES else GNUNET_NO)) \<and>
         (0 < sint sz \<and> \<not> in_i64 (consumed av + sint sz) \<longrightarrow> av' = av \<and> res = GNUNET_SYSERR) \<and>
         (sint sz \<le> 0 \<and> in_i64 (consumed av + sint sz) \<longrightarrow>
          consumed av' = consumed av + sint sz \<and> last_update av' = last_update av \<and> res = GNUNET_NO)"
proof -
  let ?av = "av\<lparr>consumption_since_last_update := consumption_since_last_update av + sz\<rparr>"
  have frame: "rate ?av = rate av" "carry_limit ?av = carry_limit av" "elapsed now ?av = elapsed now av"
    by (simp_all add: rate_def carry_limit_def elapsed_def)
  have added: "consumed ?av = consumed av + sint sz" if "in_i64 (consumed av + sint sz)"
    using that sint_add_i64 by (simp add: consumed_def)
  have rejected: "av' = av \<and> res = GNUNET_SYSERR" if "0 < sint sz" "\<not> in_i64 (consumed av + sint sz)"
    using assms that sint_add_overflow by (auto simp: GNUNET_BANDWIDTH_tracker_consume_def Let_def consumed_def)
  have given: "av' = ?av \<and> res = GNUNET_NO" if "sint sz \<le> 0"
    using assms that by (simp add: GNUNET_BANDWIDTH_tracker_consume_def)
  have taken: "av' = update_tracker now ?av \<and> res = (if 0 < consumed av' then GNUNET_YES else GNUNET_NO)"
    if "0 < sint sz" "in_i64 (consumed av + sint sz)"
    using assms that added
    by (auto simp: GNUNET_BANDWIDTH_tracker_consume_def Let_def consumed_def split: if_splits)
  show ?thesis
    by (intro conjI impI; elim conjE)
      (use rejected given taken added update_tracker_spec [of now ?av] frame in simp_all)
qed

lemma get_delay_value:
  assumes "0 < rate av" "GNUNET_BANDWIDTH_tracker_get_delay now av sz = (av', d)"
    and "uint sz < 2 ^ 63" "1000 * (uint sz + consumed (update_tracker now av)) < 2 ^ 63"
  shows "av' = update_tracker now av"
    and "uint (rel_value d) = max 0 (1000 * (uint sz + consumed av')) div rate av"
    and "uint sz + consumed av' \<le> 0 \<Longrightarrow> d = GNUNET_TIME_UNIT_ZERO"
proof -
  let ?av = "update_tracker now av"
  let ?n = "uint sz + consumed ?av"
  have r: "available_bytes_per_s av \<noteq> 0" using assms(1) by (auto simp: rate_def)
  then show av': "av' = ?av" using assms(2)
    by (auto simp: GNUNET_BANDWIDTH_tracker_get_delay_def Let_def split: if_splits)
  have "- carry_limit av \<le> consumed ?av" unfolding consumed_update by simp
  moreover have "0 \<le> uint sz" by simp
  moreover have "carry_limit av < 4294967296" using carry_limit_bounds(2) [of av] by simp
  ultimately have "- 9223372036854775808 \<le> ?n" by linarith
  moreover have "?n < 9223372036854775808" using assms(4) by simp
  ultimately have n: "in_i64 ?n" by (simp add: in_i64_def)
  have w: "sz + consumption_since_last_update ?av = of_int ?n" by (simp add: consumed_def)
  then have sn: "sint (sz + consumption_since_last_update ?av) = ?n" using sint_of_int_i64 [OF n] by simp
  then show zero: "uint sz + consumed av' \<le> 0 \<Longrightarrow> d = GNUNET_TIME_UNIT_ZERO"
    using assms(2) r av' by (simp add: GNUNET_BANDWIDTH_tracker_get_delay_def Let_def)
  have "1000 * (sz + consumption_since_last_update ?av) = of_int (1000 * ?n)" using w by simp
  then have m: "uint (1000 * (sz + consumption_since_last_update ?av)) = 1000 * ?n" if "0 < ?n"
    using uint_u64_of_int [of "1000 * ?n"] that assms(4) by simp
  show "uint (rel_value d) = max 0 (1000 * (uint sz + consumed av')) div rate av"
  proof (cases "?n \<le> 0")
    case True
    then have "max 0 (1000 * ?n) = 0" by (intro max_absorb1) simp
    then show ?thesis using True zero av' by (simp add: GNUNET_TIME_UNIT_ZERO_def)
  next
    case False
    then have "d = \<lparr>rel_value = (1000 * (sz + consumption_since_last_update ?av)) div ucast (available_bytes_per_s av)\<rparr>"
      using assms(2) r sn unfolding av' by (simp add: GNUNET_BANDWIDTH_tracker_get_delay_def Let_def)
    then have "uint (rel_value d) = uint (1000 * (sz + consumption_since_last_update ?av)) div rate av"
      by (simp only: GNUNET_TIME_Relative.select_convs uint_div_distrib sint_ucast_u32 rate_def)
    moreover have "max 0 (1000 * ?n) = 1000 * ?n" using False by simp
    ultimately show ?thesis using m False unfolding av' by simp
  qed
qed

lemma credit_after_delay:
  assumes "0 < b" "0 \<le> n"
  shows "n \<le> credit b (1000 * n div b + 1)"
proof -
  have "1000 * n < b * (1000 * n div b + 1)"
    using assms(1) by (simp add: distrib_left) (metis add.commute add_less_cancel_left mult_div_mod_eq pos_mod_bound)
  then show ?thesis by (simp add: credit_def)
qed

lemma delay_range:
  fixes b x c :: int
  assumes "0 < b" "b < 4294967296" "0 \<le> x" "x < 9223372036854775808" "in_i64 c" "- 4294967296 < c"
  shows "0 \<le> x div b + 1" "b * (x div b + 1) + 500 < 2 ^ 64" "in_i64 (c - credit b (x div b + 1))"
proof -
  show nn: "0 \<le> x div b + 1" using assms by (simp add: pos_imp_zdiv_nonneg_iff add_nonneg_nonneg)
  have "b * (x div b) \<le> x" using assms(1) by (metis add_le_same_cancel1 minus_mod_eq_mult_div diff_le_eq
        le_add_same_cancel1 pos_mod_sign)
  then have up: "b * (x div b + 1) \<le> x + b" by (simp add: distrib_left)
  then show "b * (x div b + 1) + 500 < 2 ^ 64" using assms by simp
  have "credit b (x div b + 1) \<le> (x + b + 500) div 1000"
    using up unfolding credit_def by (intro zdiv_mono1) simp_all
  moreover have "0 \<le> credit b (x div b + 1)" using nn assms(1) by (intro credit_nonneg) simp_all
  ultimately show "in_i64 (c - credit b (x div b + 1))" using assms unfolding in_i64_def by simp
qed

text \<open>
  C33: The delay the tracker asks for is enough: a sender that wants to consume no more than the
  carry limit and waits one millisecond longer than the returned delay is allowed to send at once.
\<close>

theorem bandwidth_delay_sufficient:
  assumes "0 < rate av" "GNUNET_BANDWIDTH_tracker_get_delay now av sz = (av', d)"
    and "uint sz \<le> carry_limit av" "1000 * (uint sz + consumed (update_tracker now av)) < 2 ^ 63"
    and "uint (abs_value now) + uint (rel_value d) + 1 = uint (abs_value now')"
  shows "snd (GNUNET_BANDWIDTH_tracker_get_delay now' av' sz) = GNUNET_TIME_UNIT_ZERO"
proof -
  let ?n = "uint sz + consumed av'" and ?b = "rate av"
  have sz: "uint sz < 2 ^ 63" using assms(3) carry_limit_bounds [of av] by simp
  note dv = get_delay_value [OF assms(1,2) sz assms(4)]
  have lo: "- carry_limit av \<le> consumed av'" unfolding dv(1) consumed_update by simp
  have e: "elapsed now' av' = max 0 (1000 * ?n) div ?b + 1"
    using assms(5) dv by (simp add: elapsed_def)
  have x: "0 \<le> max 0 (1000 * ?n)" "max 0 (1000 * ?n) < 2 ^ 63" using assms(4) dv(1) by simp_all
  have b: "0 < ?b" "?b < 2 ^ 32" using assms(1) uint_bounded [of "available_bytes_per_s av"] by (simp_all add: rate_def)
  have "in_i64 (consumed av')" "- 4294967296 < consumed av'"
    using lo carry_limit_bounds [of av] by (simp_all add: consumed_def)
  then have "tracker_range now' av'"
    using delay_range [of ?b "max 0 (1000 * ?n)" "consumed av'"] x b unfolding tracker_range_def e
    by (simp add: dv(1))
  then have "consumed (update_tracker now' av') = max (consumed av' - credit ?b (elapsed now' av')) (- carry_limit av)"
    by (simp add: update_tracker_spec dv(1))
  moreover have "max 0 ?n \<le> credit ?b (elapsed now' av')"
    using credit_after_delay [OF b(1), of "max 0 ?n"] unfolding e by (simp add: max_mult_distrib_left)
  then have "?n \<le> credit ?b (elapsed now' av')" by linarith
  ultimately have "uint sz + consumed (update_tracker now' av') \<le> 0" using assms(3) by linarith
  moreover obtain av2 d2 where r: "GNUNET_BANDWIDTH_tracker_get_delay now' av' sz = (av2, d2)" by fastforce
  moreover have "0 < rate av'" using b(1) dv(1) by simp
  ultimately show ?thesis using get_delay_value [OF _ r sz] by simp
qed

theorem bandwidth_delay_sufficient_witness:
  "let av = \<lparr>consumption_since_last_update = 5000, last_update = \<lparr>abs_value = 1000\<rparr>,
             available_bytes_per_s = 2000, max_carry_s = 3\<rparr>;
       r = GNUNET_BANDWIDTH_tracker_get_delay \<lparr>abs_value = 1000\<rparr> av 1000
   in snd r = \<lparr>rel_value = 3000\<rparr> \<and>
      snd (GNUNET_BANDWIDTH_tracker_get_delay \<lparr>abs_value = 4001\<rparr> (fst r) 1000) = GNUNET_TIME_UNIT_ZERO"
proof -
  let ?av = "\<lparr>consumption_since_last_update = 5000, last_update = \<lparr>abs_value = 1000\<rparr>,
             available_bytes_per_s = 2000, max_carry_s = 3\<rparr>"
  have r: "GNUNET_BANDWIDTH_tracker_get_delay \<lparr>abs_value = 1000\<rparr> ?av 1000 = (?av, \<lparr>rel_value = 3000\<rparr>)"
    by (simp add: GNUNET_BANDWIDTH_tracker_get_delay_def update_tracker_def Let_def)
  show ?thesis
    using bandwidth_delay_sufficient [OF _ r, of "\<lparr>abs_value = 4001\<rparr>"]
    by (simp add: r carry_limit_def consumed_def rate_def update_tracker_def)
qed

end
