(* ===== verification/Container_Heap.thy ===== *)
theory Container_Heap
  imports Prelude
begin

text \<open>
  The binary heap of \<^verbatim>\<open>src/src/util/container_heap.c\<close>.  A node pointer is the tree it is the root
  of: a \<open>HeapNode\<close> carries the address the client holds (\<open>node_id\<close>), the element pointer, the
  cost, the number of nodes below it and its two children.  The parent pointers of the code are the
  position in the tree; \<^verbatim>\<open>GNUNET_assert (node->parent == NULL)\<close> holds at every call of
  \<open>insert_node\<close> because the inserted tree is detached.  \<open>insert_node\<close> returns the tree that takes the
  place of \<open>pos\<close>, be it in the parent or in the root pointer of the heap.  The address that
  \<^verbatim>\<open>GNUNET_malloc\<close> returns and the result of \<^verbatim>\<open>GNUNET_CRYPTO_random_u32 (QUALITY_WEAK, 2)\<close> are
  arguments.  \<open>walk_pos\<close> is an address, so that a walk that continues at a freed node is visible: it
  is the result \<open>None\<close>.

  The lemmas show the shape invariant (sizes, order, distinct addresses), that every operation
  changes the multiset of nodes as it promises, and that the heap is a priority queue.
\<close>

datatype GNUNET_CONTAINER_HeapOrder =
  GNUNET_CONTAINER_HEAP_ORDER_MAX | GNUNET_CONTAINER_HEAP_ORDER_MIN

datatype 'e GNUNET_CONTAINER_HeapNode =
  NULL
| HeapNode (node_id: nat) (node_element: "'e option") (node_cost: u64) (tree_size: u32)
    (left_child: "'e GNUNET_CONTAINER_HeapNode") (right_child: "'e GNUNET_CONTAINER_HeapNode")
  where "tree_size NULL = - 1" | "left_child NULL = NULL" | "right_child NULL = NULL"

record 'e GNUNET_CONTAINER_Heap =
  heap_root :: "'e GNUNET_CONTAINER_HeapNode"
  walk_pos :: "nat option"
  heap_size :: u32
  heap_order :: GNUNET_CONTAINER_HeapOrder

definition GNUNET_CONTAINER_heap_create :: "GNUNET_CONTAINER_HeapOrder \<Rightarrow> 'e GNUNET_CONTAINER_Heap" where
  "GNUNET_CONTAINER_heap_create order =
     \<lparr>heap_root = NULL, walk_pos = None, heap_size = 0, heap_order = order\<rparr>"

definition GNUNET_CONTAINER_heap_peek :: "'e GNUNET_CONTAINER_Heap \<Rightarrow> 'e option" where
  "GNUNET_CONTAINER_heap_peek heap =
     (case heap_root heap of NULL \<Rightarrow> None | HeapNode _ element _ _ _ _ \<Rightarrow> element)"

definition GNUNET_CONTAINER_heap_get_size :: "'e GNUNET_CONTAINER_Heap \<Rightarrow> u32" where
  "GNUNET_CONTAINER_heap_get_size heap = heap_size heap"

fun GNUNET_CONTAINER_heap_node_get_cost :: "'e GNUNET_CONTAINER_HeapNode \<Rightarrow> u64 option" where
  "GNUNET_CONTAINER_heap_node_get_cost NULL = None"
| "GNUNET_CONTAINER_heap_node_get_cost (HeapNode _ _ cost _ _ _) = Some cost"

text \<open>
  An iterator gets the closure's state, the node's address, the element and the cost, and returns
  the new state and whether to go on.
\<close>

fun node_iterator ::
    "('s \<Rightarrow> nat \<Rightarrow> 'e option \<Rightarrow> u64 \<Rightarrow> 's \<times> int) \<Rightarrow> 'e GNUNET_CONTAINER_HeapNode \<Rightarrow> 's \<Rightarrow> 's \<times> int" where
  "node_iterator iter NULL s = (s, GNUNET_YES)"
| "node_iterator iter (HeapNode i element cost ts l r) s =
     (case node_iterator iter l s of
        (s1, res1) \<Rightarrow>
          if res1 \<noteq> GNUNET_YES then (s1, GNUNET_NO)
          else (case node_iterator iter r s1 of
                  (s2, res2) \<Rightarrow>
                    if res2 \<noteq> GNUNET_YES then (s2, GNUNET_NO) else iter s2 i element cost))"

definition GNUNET_CONTAINER_heap_iterate ::
    "'e GNUNET_CONTAINER_Heap \<Rightarrow> ('s \<Rightarrow> nat \<Rightarrow> 'e option \<Rightarrow> u64 \<Rightarrow> 's \<times> int) \<Rightarrow> 's \<Rightarrow> 's" where
  "GNUNET_CONTAINER_heap_iterate heap iter s = fst (node_iterator iter (heap_root heap) s)"

text \<open>The node an address points to, where the heap still has it.\<close>

fun find_node :: "nat \<Rightarrow> 'e GNUNET_CONTAINER_HeapNode \<Rightarrow> 'e GNUNET_CONTAINER_HeapNode option" where
  "find_node a NULL = None"
| "find_node a (HeapNode i element cost ts l r) =
     (if a = i then Some (HeapNode i element cost ts l r)
      else case find_node a l of Some n \<Rightarrow> Some n | None \<Rightarrow> find_node a r)"

fun address_of :: "'e GNUNET_CONTAINER_HeapNode \<Rightarrow> nat option" where
  "address_of NULL = None"
| "address_of (HeapNode i _ _ _ _ _) = Some i"

definition GNUNET_CONTAINER_heap_walk_get_next ::
    "u32 \<Rightarrow> 'e GNUNET_CONTAINER_Heap \<Rightarrow> ('e GNUNET_CONTAINER_Heap \<times> 'e option) option" where
  "GNUNET_CONTAINER_heap_walk_get_next random heap =
     (if heap_root heap = NULL then Some (heap, None)
      else case (case walk_pos heap of None \<Rightarrow> Some (heap_root heap)
                                     | Some a \<Rightarrow> find_node a (heap_root heap)) of
             None \<Rightarrow> None
           | Some pos \<Rightarrow>
               Some (heap\<lparr>walk_pos := address_of (if random = 0 then right_child pos else left_child pos)\<rparr>,
                     node_element pos))"

fun below :: "GNUNET_CONTAINER_HeapOrder \<Rightarrow> u64 \<Rightarrow> u64 \<Rightarrow> bool" where
  "below GNUNET_CONTAINER_HEAP_ORDER_MAX pos_cost cost \<longleftrightarrow> pos_cost \<ge> cost"
| "below GNUNET_CONTAINER_HEAP_ORDER_MIN pos_cost cost \<longleftrightarrow> pos_cost \<le> cost"

lemma below_total: "below order a b \<or> below order b a"
  by (cases order) auto

text \<open>
  One turn of the loop descends from \<open>pos\<close>; when the node has to become the parent of \<open>pos\<close> it takes
  its place and \<open>pos\<close> is inserted below it.  \<open>NULL\<close> is no argument of the code.
\<close>

function (sequential) insert_node ::
    "GNUNET_CONTAINER_HeapOrder \<Rightarrow> 'e GNUNET_CONTAINER_HeapNode \<Rightarrow> 'e GNUNET_CONTAINER_HeapNode \<Rightarrow>
     'e GNUNET_CONTAINER_HeapNode" where
  "insert_node order NULL node = node"
| "insert_node order pos NULL = pos"
| "insert_node order (HeapNode i element cost ts l r) (HeapNode i' element' cost' ts' l' r') =
     (let node = HeapNode i' element' cost' ts' l' r' in
      if below order cost cost'
      then (let ts1 = ts + (1 + ts') in
            if l = NULL then HeapNode i element cost ts1 node r
            else if r = NULL then HeapNode i element cost ts1 l node
            else if tree_size l < tree_size r
                 then HeapNode i element cost ts1 (insert_node order l node) r
                 else HeapNode i element cost ts1 l (insert_node order r node))
      else insert_node order node (HeapNode i element cost ts l r))"
  by pat_completeness auto
termination
  by (relation "measures [\<lambda>(order, pos, node). size pos + size node,
        \<lambda>(order, pos, node). if below order (node_cost pos) (node_cost node) then 0 else 1]")
    (use below_total in auto)

definition GNUNET_CONTAINER_heap_insert ::
    "nat \<Rightarrow> 'e GNUNET_CONTAINER_Heap \<Rightarrow> 'e option \<Rightarrow> u64 \<Rightarrow> ('e GNUNET_CONTAINER_Heap \<times> nat) option" where
  "GNUNET_CONTAINER_heap_insert addr heap element cost =
     (let node = HeapNode addr element cost 0 NULL NULL;
          root = (if heap_root heap = NULL then node
                  else insert_node (heap_order heap) (heap_root heap) node);
          heap' = heap\<lparr>heap_root := root, heap_size := heap_size heap + 1\<rparr>
      in if heap_size heap' = tree_size root + 1 then Some (heap', addr) else None)"

definition GNUNET_CONTAINER_heap_remove_root ::
    "'e GNUNET_CONTAINER_Heap \<Rightarrow> 'e GNUNET_CONTAINER_Heap \<times> 'e option" where
  "GNUNET_CONTAINER_heap_remove_root heap =
     (case heap_root heap of
        NULL \<Rightarrow> (heap, None)
      | HeapNode i element cost ts l r \<Rightarrow>
          (heap\<lparr>heap_size := heap_size heap - 1,
                heap_root := (if l = NULL then r
                              else if r = NULL then l
                              else insert_node (heap_order heap) l r)\<rparr>,
           element))"

text \<open>
  \<open>remove_node\<close>: the ancestors lose one node each, the parent's link to the node is cut and the
  node's children are inserted at the parent.  \<open>at_node\<close> applies a function to the subtree at an
  address: the parent is found by its pointer again before the second child is inserted.
\<close>

fun at_node ::
    "nat \<Rightarrow> ('e GNUNET_CONTAINER_HeapNode \<Rightarrow> 'e GNUNET_CONTAINER_HeapNode) \<Rightarrow>
     'e GNUNET_CONTAINER_HeapNode \<Rightarrow> 'e GNUNET_CONTAINER_HeapNode" where
  "at_node a f NULL = NULL"
| "at_node a f (HeapNode i element cost ts l r) =
     (if a = i then f (HeapNode i element cost ts l r)
      else HeapNode i element cost ts (at_node a f l) (at_node a f r))"

fun add_tree_size :: "u32 \<Rightarrow> 'e GNUNET_CONTAINER_HeapNode \<Rightarrow> 'e GNUNET_CONTAINER_HeapNode" where
  "add_tree_size d NULL = NULL"
| "add_tree_size d (HeapNode i element cost ts l r) = HeapNode i element cost (ts + d) l r"

definition adopt ::
    "GNUNET_CONTAINER_HeapOrder \<Rightarrow> 'e GNUNET_CONTAINER_HeapNode \<Rightarrow> 'e GNUNET_CONTAINER_HeapNode \<Rightarrow>
     'e GNUNET_CONTAINER_HeapNode" where
  "adopt order child parent =
     (if child = NULL then parent
      else insert_node order (add_tree_size (- (1 + tree_size child)) parent) child)"

fun remove_below ::
    "GNUNET_CONTAINER_HeapOrder \<Rightarrow> nat \<Rightarrow> 'e GNUNET_CONTAINER_HeapNode \<Rightarrow> 'e GNUNET_CONTAINER_HeapNode" where
  "remove_below order a NULL = NULL"
| "remove_below order a (HeapNode i element cost ts l r) =
     (if address_of l = Some a
      then at_node i (adopt order (right_child l))
             (adopt order (left_child l) (HeapNode i element cost (ts - 1) NULL r))
      else if address_of r = Some a
      then at_node i (adopt order (right_child r))
             (adopt order (left_child r) (HeapNode i element cost (ts - 1) l NULL))
      else if find_node a l \<noteq> None
      then HeapNode i element cost (ts - 1) (remove_below order a l) r
      else HeapNode i element cost (ts - 1) l (remove_below order a r))"

definition remove_node ::
    "nat \<Rightarrow> 'e GNUNET_CONTAINER_Heap \<Rightarrow>
     ('e GNUNET_CONTAINER_Heap \<times> 'e GNUNET_CONTAINER_HeapNode) option" where
  "remove_node a heap =
     (case find_node a (heap_root heap) of
        None \<Rightarrow> None
      | Some NULL \<Rightarrow> None
      | Some (HeapNode i element cost ts l r) \<Rightarrow>
          (let ts1 = (if l \<noteq> NULL then ts - (1 + tree_size l) else ts);
               ts2 = (if r \<noteq> NULL then ts1 - (1 + tree_size r) else ts1);
               root = (if address_of (heap_root heap) = Some a
                       then (if l \<noteq> NULL
                             then (if r \<noteq> NULL then insert_node (heap_order heap) l r else l)
                             else r)
                       else remove_below (heap_order heap) a (heap_root heap))
           in if ts2 = 0
              then Some (heap\<lparr>heap_root := root\<rparr>, HeapNode i element cost ts2 NULL NULL)
              else None))"

definition GNUNET_CONTAINER_heap_remove_node ::
    "u32 \<Rightarrow> nat \<Rightarrow> 'e GNUNET_CONTAINER_Heap \<Rightarrow> ('e GNUNET_CONTAINER_Heap \<times> 'e option) option" where
  "GNUNET_CONTAINER_heap_remove_node random a heap =
     (case (if walk_pos heap = Some a then GNUNET_CONTAINER_heap_walk_get_next random heap
            else Some (heap, None)) of
        None \<Rightarrow> None
      | Some (heap1, _) \<Rightarrow>
          (case remove_node a heap1 of
             None \<Rightarrow> None
           | Some (heap2, node) \<Rightarrow>
               Some (heap2\<lparr>heap_size := heap_size heap2 - 1,
                           walk_pos := (if walk_pos heap2 = Some a then None else walk_pos heap2)\<rparr>,
                     node_element node)))"

definition GNUNET_CONTAINER_heap_update_cost ::
    "'e GNUNET_CONTAINER_Heap \<Rightarrow> nat \<Rightarrow> u64 \<Rightarrow> 'e GNUNET_CONTAINER_Heap option" where
  "GNUNET_CONTAINER_heap_update_cost heap a new_cost =
     (case remove_node a heap of
        Some (heap1, HeapNode i element cost ts l r) \<Rightarrow>
          (let node = HeapNode i element new_cost ts l r in
           Some (heap1\<lparr>heap_root := (if heap_root heap1 = NULL then node
                                     else insert_node (heap_order heap1) (heap_root heap1) node)\<rparr>))
      | _ \<Rightarrow> None)"

section \<open>Shape of the tree\<close>

fun nodes :: "'e GNUNET_CONTAINER_HeapNode \<Rightarrow> (nat \<times> 'e option \<times> u64) multiset" where
  "nodes NULL = {#}"
| "nodes (HeapNode i element cost ts l r) = add_mset (i, element, cost) (nodes l + nodes r)"

abbreviation ids :: "'e GNUNET_CONTAINER_HeapNode \<Rightarrow> nat set" where
  "ids t \<equiv> fst ` set_mset (nodes t)"

fun sizes_ok :: "'e GNUNET_CONTAINER_HeapNode \<Rightarrow> bool" where
  "sizes_ok NULL \<longleftrightarrow> True"
| "sizes_ok (HeapNode i element cost ts l r) \<longleftrightarrow>
     ts = of_nat (size (nodes l) + size (nodes r)) \<and> sizes_ok l \<and> sizes_ok r"

definition all_below :: "GNUNET_CONTAINER_HeapOrder \<Rightarrow> u64 \<Rightarrow> 'e GNUNET_CONTAINER_HeapNode \<Rightarrow> bool" where
  "all_below order cost t \<longleftrightarrow> (\<forall>(i, element, c) \<in># nodes t. below order cost c)"

fun ordered :: "GNUNET_CONTAINER_HeapOrder \<Rightarrow> 'e GNUNET_CONTAINER_HeapNode \<Rightarrow> bool" where
  "ordered order NULL \<longleftrightarrow> True"
| "ordered order (HeapNode i element cost ts l r) \<longleftrightarrow>
     all_below order cost l \<and> all_below order cost r \<and> ordered order l \<and> ordered order r"

fun distinct_ids :: "'e GNUNET_CONTAINER_HeapNode \<Rightarrow> bool" where
  "distinct_ids NULL \<longleftrightarrow> True"
| "distinct_ids (HeapNode i element cost ts l r) \<longleftrightarrow>
     i \<notin> ids l \<and> i \<notin> ids r \<and> ids l \<inter> ids r = {} \<and> distinct_ids l \<and> distinct_ids r"

lemma distinct_ids_count: "distinct_ids t \<longleftrightarrow> (\<forall>a. count (image_mset fst (nodes t)) a \<le> 1)"
proof (induction t)
  case (HeapNode i element cost ts l r)
  have mem: "x \<in> ids t \<longleftrightarrow> 1 \<le> count (image_mset fst (nodes t)) x" for x and t :: "'a GNUNET_CONTAINER_HeapNode"
    by (metis count_greater_eq_one_iff set_image_mset)
  have "(\<forall>a. (if i = a then 1 else 0) + m a + n a \<le> (1::nat)) \<longleftrightarrow>
      \<not> 1 \<le> m i \<and> \<not> 1 \<le> n i \<and> (\<forall>a. \<not> (1 \<le> m a \<and> 1 \<le> n a)) \<and> (\<forall>a. m a \<le> 1) \<and> (\<forall>a. n a \<le> 1)" for m n
  proof -
    have "(if i = a then 1 else 0) + m a + n a \<le> (1::nat) \<longleftrightarrow>
      (i = a \<longrightarrow> \<not> 1 \<le> m a \<and> \<not> 1 \<le> n a) \<and> \<not> (1 \<le> m a \<and> 1 \<le> n a) \<and> m a \<le> 1 \<and> n a \<le> 1" for a
      by auto
    then show ?thesis by blast
  qed
  moreover have "count (image_mset fst (nodes (HeapNode i element cost ts l r))) a =
      (if i = a then 1 else 0) + count (image_mset fst (nodes l)) a + count (image_mset fst (nodes r)) a" for a
    by simp
  ultimately show ?case
    using HeapNode by (simp only: distinct_ids.simps mem disjoint_iff de_Morgan_conj imp_conv_disj)
qed simp

lemma below_trans: "below order a b \<Longrightarrow> below order b c \<Longrightarrow> below order a c"
  by (cases order) auto

lemma below_refl [simp]: "below order a a"
  by (cases order) auto

lemma all_below_simps [simp]:
  "all_below order c NULL"
  "all_below order c (HeapNode i element cost ts l r) \<longleftrightarrow>
     below order c cost \<and> all_below order c l \<and> all_below order c r"
  by (auto simp: all_below_def ball_Un)

lemma all_below_trans: "below order a b \<Longrightarrow> all_below order b t \<Longrightarrow> all_below order a t"
  using below_trans by (fastforce simp: all_below_def)

lemma ordered_root: "ordered order t \<Longrightarrow> t \<noteq> NULL \<Longrightarrow> below order c (node_cost t) \<Longrightarrow> all_below order c t"
  by (cases t) (auto intro: all_below_trans)

lemma tree_size_nodes: "sizes_ok t \<Longrightarrow> 1 + tree_size t = of_nat (size (nodes t))"
  by (cases t) simp_all

lemma nodes_eq_empty [simp]: "nodes t = {#} \<longleftrightarrow> t = NULL"
  by (cases t) simp_all

section \<open>Insertion\<close>

lemma nodes_insert_node [simp]: "nodes (insert_node order pos node) = nodes pos + nodes node"
  by (induction order pos node rule: insert_node.induct) (auto simp: Let_def)

lemma sizes_insert_node:
  "sizes_ok pos \<Longrightarrow> sizes_ok node \<Longrightarrow> sizes_ok (insert_node order pos node)"
  by (induction order pos node rule: insert_node.induct) (auto simp: Let_def)

lemma all_below_insert_node [simp]:
  "all_below order c (insert_node order' pos node) \<longleftrightarrow> all_below order c pos \<and> all_below order c node"
  by (auto simp: all_below_def ball_Un)

lemma ordered_insert_node:
  "ordered order pos \<Longrightarrow> ordered order node \<Longrightarrow> ordered order (insert_node order pos node)"
proof (induction order pos node rule: insert_node.induct)
  case (3 order i element cost ts l r i' element' cost' ts' l' r')
  then show ?case using below_total [of order cost cost']
    by (auto simp: Let_def intro: all_below_trans)
qed simp_all

lemma insert_node_not_NULL: "node \<noteq> NULL \<Longrightarrow> insert_node order pos node \<noteq> NULL"
  using nodes_insert_node [of order pos node] by (metis nodes.simps(1) nodes_eq_empty union_eq_empty)

lemma insert_add_tree_size:
  assumes "all_below order (node_cost pos) node" "pos \<noteq> NULL"
  shows "insert_node order (add_tree_size d pos) node = add_tree_size d (insert_node order pos node)"
  using assms by (cases pos; cases node) (auto simp: Let_def)

lemma insert_keeps_root:
  assumes "all_below order (node_cost pos) node" "pos \<noteq> NULL"
  shows "node_id (insert_node order pos node) = node_id pos"
    and "node_cost (insert_node order pos node) = node_cost pos"
  using assms by (cases pos; cases node; auto simp: Let_def)+

lemma add_tree_size_add [simp]:
  "add_tree_size a (add_tree_size b t) = add_tree_size (a + b) t" "add_tree_size 0 t = t"
  "node_cost (add_tree_size a t) = node_cost t" "add_tree_size a t = NULL \<longleftrightarrow> t = NULL"
  by (cases t; simp add: ac_simps)+

lemma at_root: "t \<noteq> NULL \<Longrightarrow> at_node (node_id t) f t = f t"
  by (cases t) simp_all

lemma adopt_eq:
  assumes "all_below order (node_cost parent) child" "parent \<noteq> NULL" "sizes_ok child"
  shows "adopt order child (add_tree_size d parent) =
    add_tree_size (d - of_nat (size (nodes child))) (insert_node order parent child)"
proof (cases "child = NULL")
  case True
  then show ?thesis using assms by (cases parent) (simp_all add: adopt_def)
next
  case False
  have "- (1 + tree_size child) = - of_nat (size (nodes child))"
    using tree_size_nodes [OF assms(3)] by simp
  then show ?thesis using False assms insert_add_tree_size [OF assms(1,2)] by (simp add: adopt_def)
qed

section \<open>Removal\<close>

lemma find_node_SomeD:
  "find_node a t = Some n \<Longrightarrow> n \<noteq> NULL \<and> node_id n = a \<and> (a, node_element n, node_cost n) \<in># nodes t"
  by (induction t) (auto split: if_splits option.splits)

lemma find_node_None: "find_node a t = None \<longleftrightarrow> a \<notin> ids t"
  by (induction t) (auto simp: image_Un split: option.splits)

lemma find_node_subtree:
  "find_node a t = Some n \<Longrightarrow>
     (sizes_ok t \<longrightarrow> sizes_ok n) \<and> (ordered order t \<longrightarrow> ordered order n) \<and> ids n \<subseteq> ids t"
  by (induction t) (auto split: if_splits option.splits)

lemma address_of_Some: "address_of t = Some a \<longleftrightarrow> t \<noteq> NULL \<and> node_id t = a"
  by (cases t) auto

lemma address_of_ids: "address_of t = Some a \<Longrightarrow> a \<in> ids t"
  by (cases t) auto

text \<open>Cutting out a child with subtrees \<open>x\<close> and \<open>y\<close> amounts to inserting the two below the parent.\<close>

lemma unlink_eq:
  assumes "p = HeapNode i element cost (of_nat (size (nodes l) + size (nodes r))) l r"
    and "all_below order cost x" "all_below order cost y" "sizes_ok x" "sizes_ok y"
    and "ts = of_nat (size (nodes x) + size (nodes y) + (size (nodes l) + size (nodes r)))"
  shows "at_node i (adopt order y) (adopt order x (HeapNode i element cost ts l r)) =
    insert_node order (insert_node order p x) y"
proof -
  let ?x = "of_nat (size (nodes x)) :: u32" and ?y = "of_nat (size (nodes y)) :: u32"
  have p: "p \<noteq> NULL" "node_cost p = cost" "node_id p = i" using assms(1) by auto
  have "HeapNode i element cost ts l r = add_tree_size (?x + ?y) p"
    using assms(1,6) by simp
  moreover have "adopt order x (add_tree_size (?x + ?y) p) = add_tree_size ?y (insert_node order p x)"
    using adopt_eq [of order p x "?x + ?y"] assms(2,4) p by simp
  moreover have "node_id (insert_node order p x) = i" "node_cost (insert_node order p x) = cost"
    "insert_node order p x \<noteq> NULL"
    using insert_keeps_root [of order p x] assms(2) p by (auto simp: nodes_eq_empty [symmetric] simp del: nodes_eq_empty)
  moreover have "node_id (add_tree_size d t) = node_id t" if "t \<noteq> NULL" for d and t :: "'a GNUNET_CONTAINER_HeapNode"
    using that by (cases t) auto
  ultimately show ?thesis
    using at_root [of "add_tree_size ?y (insert_node order p x)" "adopt order y"]
      adopt_eq [of order "insert_node order p x" y ?y] assms(3,5) by simp
qed

definition well_formed :: "GNUNET_CONTAINER_HeapOrder \<Rightarrow> 'e GNUNET_CONTAINER_HeapNode \<Rightarrow> bool" where
  "well_formed order t \<longleftrightarrow> sizes_ok t \<and> ordered order t"

lemma insert_well_formed [invar_intros]:
  "well_formed order p \<Longrightarrow> well_formed order n \<Longrightarrow> well_formed order (insert_node order p n)"
  by (simp add: well_formed_def sizes_insert_node ordered_insert_node)

lemma unlink_spec:
  assumes "well_formed order (HeapNode i element cost (of_nat (size (nodes l) + size (nodes r))) l r)"
    and "well_formed order x" "well_formed order y" "all_below order cost x" "all_below order cost y"
    and "ts = of_nat (size (nodes x) + size (nodes y) + (size (nodes l) + size (nodes r)))"
    and "t = at_node i (adopt order y) (adopt order x (HeapNode i element cost ts l r))"
  shows "nodes t = add_mset (i, element, cost) (nodes l + nodes r + nodes x + nodes y) \<and> well_formed order t"
proof -
  let ?p = "HeapNode i element cost (of_nat (size (nodes l) + size (nodes r))) l r"
  have "t = insert_node order (insert_node order ?p x) y"
    using unlink_eq [OF refl assms(4,5) _ _ assms(6)] assms(2,3,7) by (simp add: well_formed_def)
  then show ?thesis using assms(1-3) by (auto intro!: invar_intros)
qed

lemma remove_below_spec:
  "find_node a t = Some n \<Longrightarrow> address_of t \<noteq> Some a \<Longrightarrow> well_formed order t \<Longrightarrow> distinct_ids t \<Longrightarrow>
     nodes t = add_mset (a, node_element n, node_cost n) (nodes (remove_below order a t)) \<and>
     well_formed order (remove_below order a t)"
proof (induction t)
  case (HeapNode i element cost ts l r)
  have wf: "well_formed order l" "well_formed order r" "all_below order cost l" "all_below order cost r"
    and ts: "ts = of_nat (size (nodes l) + size (nodes r))"
    using HeapNode.prems(3) by (auto simp: well_formed_def)
  have ai: "a \<noteq> i" using HeapNode.prems(2) by simp
  consider (left) "address_of l = Some a" | (right) "address_of l \<noteq> Some a" "address_of r = Some a"
    | (inl) "address_of l \<noteq> Some a" "address_of r \<noteq> Some a" "find_node a l \<noteq> None"
    | (inr) "address_of l \<noteq> Some a" "address_of r \<noteq> Some a" "find_node a l = None" by blast
  then show ?case
  proof cases
    case left
    then obtain e' c' ts' x y where l: "l = HeapNode a e' c' ts' x y" by (cases l) auto
    then have "n = l" using HeapNode.prems(1) ai by simp
    moreover have "all_below order cost x \<and> all_below order cost y \<and> well_formed order x \<and> well_formed order y"
      using wf l by (auto simp: well_formed_def)
    ultimately show ?thesis
      using unlink_spec [of order i element cost NULL r x y "ts - 1"] wf ts l left
      by (simp add: well_formed_def algebra_simps)
  next
    case right
    then obtain e' c' ts' x y where r: "r = HeapNode a e' c' ts' x y" by (cases r) auto
    then have "find_node a l = None" using HeapNode.prems(4) by (simp add: find_node_None)
    then have "n = r" using HeapNode.prems(1) ai r by simp
    moreover have "all_below order cost x \<and> all_below order cost y \<and> well_formed order x \<and> well_formed order y"
      using wf r by (auto simp: well_formed_def)
    ultimately show ?thesis
      using unlink_spec [of order i element cost l NULL x y "ts - 1"] wf ts r right
      by (simp add: well_formed_def algebra_simps)
  next
    case inl
    then have "find_node a l = Some n" using HeapNode.prems(1) ai by auto
    then have ih: "nodes l = add_mset (a, node_element n, node_cost n) (nodes (remove_below order a l))"
        "well_formed order (remove_below order a l)"
      using HeapNode.IH(1) inl wf HeapNode.prems(4) by auto
    then have "all_below order cost (remove_below order a l)" using wf(3) by (auto simp: all_below_def)
    then show ?thesis using inl ih wf ts by (simp add: well_formed_def)
  next
    case inr
    then have "find_node a r = Some n" using HeapNode.prems(1) ai by auto
    then have ih: "nodes r = add_mset (a, node_element n, node_cost n) (nodes (remove_below order a r))"
        "well_formed order (remove_below order a r)"
      using HeapNode.IH(2) inr wf HeapNode.prems(4) by auto
    then have "all_below order cost (remove_below order a r)" using wf(4) by (auto simp: all_below_def)
    then show ?thesis using inr ih wf ts by (simp add: well_formed_def)
  qed
qed simp

section \<open>The invariant of the heap\<close>

definition heap_invar :: "'e GNUNET_CONTAINER_Heap \<Rightarrow> bool" where
  "heap_invar h \<longleftrightarrow> well_formed (heap_order h) (heap_root h) \<and> distinct_ids (heap_root h) \<and>
     heap_size h = of_nat (size (nodes (heap_root h)))"

definition walk_valid :: "'e GNUNET_CONTAINER_Heap \<Rightarrow> bool" where
  "walk_valid h \<longleftrightarrow> (case walk_pos h of None \<Rightarrow> True | Some a \<Rightarrow> a \<in> ids (heap_root h))"

lemma distinct_ids_nodes:
  "nodes t' = nodes t \<Longrightarrow> distinct_ids t' = distinct_ids t"
  by (simp add: distinct_ids_count)

lemma distinct_ids_sub: "distinct_ids t \<Longrightarrow> nodes t' \<subseteq># nodes t \<Longrightarrow> distinct_ids t'"
  unfolding distinct_ids_count by (meson image_mset_subseteq_mono le_trans mset_subset_eq_count)

lemma distinct_ids_add:
  assumes "distinct_ids t" "a \<notin> ids t" "nodes t' = add_mset (a, e, c) (nodes t)"
  shows "distinct_ids t'"
proof -
  have "count (image_mset fst (nodes t)) a = 0" using assms(2) by (metis count_inI set_image_mset)
  then show ?thesis using assms(1,3) by (simp add: distinct_ids_count)
qed

lemma distinct_ids_remove:
  assumes "distinct_ids t" "nodes t = add_mset (a, e, c) (nodes t')"
  shows "distinct_ids t'" "a \<notin> ids t'"
proof -
  show "distinct_ids t'" using distinct_ids_sub [OF assms(1), of t'] assms(2) by simp
  have "count (image_mset fst (nodes t)) a \<le> 1" using assms(1) distinct_ids_count by blast
  then have "count (image_mset fst (nodes t')) a = 0" using assms(2) by simp
  then show "a \<notin> ids t'" by (metis count_eq_zero_iff set_image_mset)
qed

lemma heap_insert_spec:
  assumes "heap_invar h" "addr \<notin> ids (heap_root h)"
  obtains h' where "GNUNET_CONTAINER_heap_insert addr h e c = Some (h', addr)" "heap_invar h'"
    "nodes (heap_root h') = add_mset (addr, e, c) (nodes (heap_root h))"
    "heap_order h' = heap_order h" "walk_pos h' = walk_pos h"
proof -
  let ?n = "HeapNode addr e c 0 NULL NULL"
  define root where "root = (if heap_root h = NULL then ?n else insert_node (heap_order h) (heap_root h) ?n)"
  let ?h = "h\<lparr>heap_root := root, heap_size := heap_size h + 1\<rparr>"
  have n: "nodes root = add_mset (addr, e, c) (nodes (heap_root h))" by (simp add: root_def)
  have wf: "well_formed (heap_order h) root"
    using assms(1) unfolding root_def by (auto simp: heap_invar_def well_formed_def sizes_insert_node ordered_insert_node)
  then have "1 + tree_size root = of_nat (size (nodes root))" by (simp add: well_formed_def tree_size_nodes)
  then have "heap_size h + 1 = tree_size root + 1" using assms(1) n by (simp add: heap_invar_def add.commute)
  then have "GNUNET_CONTAINER_heap_insert addr h e c = Some (?h, addr)"
    by (simp add: GNUNET_CONTAINER_heap_insert_def root_def Let_def)
  moreover have "heap_invar ?h"
    using wf n assms distinct_ids_add [OF _ assms(2) n] by (simp add: heap_invar_def)
  ultimately show thesis using n that by simp
qed

lemma heap_remove_root_spec:
  assumes "heap_invar h" "heap_root h = HeapNode i e c ts l r"
    and "GNUNET_CONTAINER_heap_remove_root h = (h', x)"
  shows "x = e" "heap_invar h'" "nodes (heap_root h) = add_mset (i, e, c) (nodes (heap_root h'))"
    "heap_order h' = heap_order h" "all_below (heap_order h) c (heap_root h')" "walk_pos h' = walk_pos h"
proof -
  have h': "h' = h\<lparr>heap_size := heap_size h - 1, heap_root := insert_node (heap_order h) l r\<rparr>"
    using assms(2,3) by (cases l; cases r) (auto simp: GNUNET_CONTAINER_heap_remove_root_def)
  show "x = e" using assms(2,3) by (simp add: GNUNET_CONTAINER_heap_remove_root_def)
  have wf: "well_formed (heap_order h) l" "well_formed (heap_order h) r"
    "all_below (heap_order h) c l" "all_below (heap_order h) c r"
    using assms(1,2) by (auto simp: heap_invar_def well_formed_def)
  show n: "nodes (heap_root h) = add_mset (i, e, c) (nodes (heap_root h'))"
    using assms(2) by (simp add: h')
  show "heap_order h' = heap_order h" "walk_pos h' = walk_pos h" by (simp_all add: h')
  show "all_below (heap_order h) c (heap_root h')" using wf by (simp add: h')
  have "distinct_ids (heap_root h')" using distinct_ids_remove(1) [OF _ n] assms(1) by (simp add: heap_invar_def)
  moreover have "well_formed (heap_order h) (heap_root h')" using wf by (simp add: h' insert_well_formed)
  moreover have "heap_size h' = of_nat (size (nodes (heap_root h')))"
    using assms(1,2) by (simp add: heap_invar_def h')
  ultimately show "heap_invar h'" by (simp add: heap_invar_def h')
qed

lemma remove_node_spec:
  assumes "heap_invar h" "a \<in> ids (heap_root h)"
  obtains h' e c where "remove_node a h = Some (h', HeapNode a e c 0 NULL NULL)"
    "nodes (heap_root h) = add_mset (a, e, c) (nodes (heap_root h'))"
    "well_formed (heap_order h) (heap_root h')" "distinct_ids (heap_root h')" "a \<notin> ids (heap_root h')"
    "h' = h\<lparr>heap_root := heap_root h'\<rparr>"
proof -
  have inv: "well_formed (heap_order h) (heap_root h)" "distinct_ids (heap_root h)"
    using assms(1) by (simp_all add: heap_invar_def)
  obtain n where f: "find_node a (heap_root h) = Some n"
    using assms(2) find_node_None by fastforce
  then obtain e c ts l r where n: "n = HeapNode a e c ts l r" using find_node_SomeD by (cases n) force+
  have wfn: "sizes_ok n" "ordered (heap_order h) n"
    using find_node_subtree [OF f] inv(1) by (auto simp: well_formed_def)
  have ts: "(if r \<noteq> NULL then (if l \<noteq> NULL then ts - (1 + tree_size l) else ts) - (1 + tree_size r)
             else (if l \<noteq> NULL then ts - (1 + tree_size l) else ts)) = 0"
    using wfn tree_size_nodes [of l] tree_size_nodes [of r] n by (auto simp: algebra_simps)
  define root where "root =
      (if address_of (heap_root h) = Some a
       then (if l \<noteq> NULL then (if r \<noteq> NULL then insert_node (heap_order h) l r else l) else r)
       else remove_below (heap_order h) a (heap_root h))"
  have eq: "remove_node a h = Some (h\<lparr>heap_root := root\<rparr>, HeapNode a e c 0 NULL NULL)"
    using f n ts by (simp only: remove_node_def option.case GNUNET_CONTAINER_HeapNode.case Let_def root_def if_True simp_thms)
  have root: "nodes (heap_root h) = add_mset (a, e, c) (nodes root) \<and> well_formed (heap_order h) root"
  proof (cases "address_of (heap_root h) = Some a")
    case True
    then have "heap_root h = n" using f by (cases "heap_root h") auto
    moreover have "root = insert_node (heap_order h) l r"
      using True by (cases l; cases r) (auto simp: root_def)
    ultimately show ?thesis using wfn n by (auto simp: well_formed_def intro: sizes_insert_node ordered_insert_node)
  next
    case False
    then show ?thesis using remove_below_spec [OF f False inv] n by (simp add: root_def)
  qed
  then show thesis using that [OF eq] distinct_ids_remove [OF inv(2)] by simp
qed

section \<open>The heap as a priority queue\<close>

text \<open>
  The interface a client of the heap relies on: removing the best node, and inserting one whose
  address is fresh.  The lemmas of the locale hold for every such queue: inserting a list of nodes
  and draining the queue sorts the list.
\<close>

primrec drain :: "('h \<Rightarrow> ('h \<times> 'a) option) \<Rightarrow> nat \<Rightarrow> 'h \<Rightarrow> 'a list" where
  "drain pop 0 h = []"
| "drain pop (Suc n) h = (case pop h of None \<Rightarrow> [] | Some (h', x) \<Rightarrow> x # drain pop n h')"

primrec insert_all :: "('a \<Rightarrow> 'h \<Rightarrow> 'h option) \<Rightarrow> 'a list \<Rightarrow> 'h \<Rightarrow> 'h option" where
  "insert_all ins [] h = Some h"
| "insert_all ins (x # xs) h = (case ins x h of None \<Rightarrow> None | Some h' \<Rightarrow> insert_all ins xs h')"

locale priority_queue =
  fixes invar :: "'h \<Rightarrow> bool"
    and elems :: "'h \<Rightarrow> 'a multiset"
    and pop :: "'h \<Rightarrow> ('h \<times> 'a) option"
    and ins :: "'a \<Rightarrow> 'h \<Rightarrow> 'h option"
    and key :: "'a \<Rightarrow> 'k"
    and le :: "'a \<Rightarrow> 'a \<Rightarrow> bool"
  assumes pop_empty: "invar h \<Longrightarrow> pop h = None \<longleftrightarrow> elems h = {#}"
    and pop_best: "invar h \<Longrightarrow> pop h = Some (h', x) \<Longrightarrow>
      invar h' \<and> elems h = add_mset x (elems h') \<and> (\<forall>y \<in># elems h'. le x y)"
    and ins_fresh: "invar h \<Longrightarrow> key x \<notin> key ` set_mset (elems h) \<Longrightarrow>
      \<exists>h'. ins x h = Some h' \<and> invar h' \<and> elems h' = add_mset x (elems h)"
begin

lemma drain_sorts:
  "invar h \<Longrightarrow> size (elems h) \<le> n \<Longrightarrow> mset (drain pop n h) = elems h \<and> sorted_wrt le (drain pop n h)"
proof (induction n arbitrary: h)
  case (Suc n)
  show ?case
  proof (cases "pop h")
    case None
    then have "elems h = {#}" using pop_empty [OF Suc.prems(1)] by simp
    then show ?thesis using None by simp
  next
    case (Some p)
    obtain h' x where p: "p = (h', x)" by fastforce
    then have b: "invar h'" "elems h = add_mset x (elems h')" "\<forall>y \<in># elems h'. le x y"
      using pop_best [OF Suc.prems(1)] Some by blast+
    then have "mset (drain pop n h') = elems h'" "sorted_wrt le (drain pop n h')"
      using Suc.IH Suc.prems(2) by auto
    then show ?thesis using Some p b by (simp flip: set_mset_mset)
  qed
qed simp

lemma insert_all_elems:
  "invar h \<Longrightarrow> distinct (map key xs) \<Longrightarrow> key ` set xs \<inter> key ` set_mset (elems h) = {} \<Longrightarrow>
     \<exists>h'. insert_all ins xs h = Some h' \<and> invar h' \<and> elems h' = mset xs + elems h"
proof (induction xs arbitrary: h)
  case (Cons x xs)
  obtain h1 where h1: "ins x h = Some h1" "invar h1" "elems h1 = add_mset x (elems h)"
    using ins_fresh [OF Cons.prems(1), of x] Cons.prems(3) by auto
  then have "key ` set xs \<inter> key ` set_mset (elems h1) = {}" using Cons.prems(2,3) by auto
  then show ?case using Cons.IH [OF h1(2)] Cons.prems(2) h1 by auto
qed simp

lemma queue_sort:
  assumes "invar h" "elems h = {#}" "distinct (map key xs)"
  obtains h' where "insert_all ins xs h = Some h'" "mset (drain pop (length xs) h') = mset xs"
    "sorted_wrt le (drain pop (length xs) h')"
  using insert_all_elems [OF assms(1,3)] assms(2) drain_sorts by (metis add.right_neutral empty_iff
      image_empty inf_bot_right order_refl set_mset_empty size_mset)

end

definition heap_pop ::
    "'e GNUNET_CONTAINER_Heap \<Rightarrow> ('e GNUNET_CONTAINER_Heap \<times> (nat \<times> 'e option \<times> u64)) option" where
  "heap_pop h =
     (case heap_root h of
        NULL \<Rightarrow> None
      | HeapNode i _ c _ _ _ \<Rightarrow>
          (case GNUNET_CONTAINER_heap_remove_root h of (h', e) \<Rightarrow> Some (h', (i, e, c))))"

definition heap_put ::
    "nat \<times> 'e option \<times> u64 \<Rightarrow> 'e GNUNET_CONTAINER_Heap \<Rightarrow> 'e GNUNET_CONTAINER_Heap option" where
  "heap_put x h = (case x of (i, e, c) \<Rightarrow> map_option fst (GNUNET_CONTAINER_heap_insert i h e c))"

interpretation heapq: priority_queue
  "\<lambda>h. heap_invar h \<and> heap_order h = order" "\<lambda>h. nodes (heap_root h)" heap_pop heap_put fst
  "\<lambda>x y. below order (snd (snd x)) (snd (snd y))" for order
proof
  fix h h' :: "'e GNUNET_CONTAINER_Heap" and x :: "nat \<times> 'e option \<times> u64"
  assume h: "heap_invar h \<and> heap_order h = order"
  show "heap_pop h = None \<longleftrightarrow> nodes (heap_root h) = {#}"
    by (auto simp: heap_pop_def split: GNUNET_CONTAINER_HeapNode.splits prod.splits)
  show "\<exists>h'. heap_put x h = Some h' \<and> (heap_invar h' \<and> heap_order h' = order) \<and>
      nodes (heap_root h') = add_mset x (nodes (heap_root h))" if "fst x \<notin> ids (heap_root h)"
  proof -
    obtain i e c where x: "x = (i, e, c)" by (cases x)
    then have fresh: "i \<notin> ids (heap_root h)" using that by simp
    obtain h' where "GNUNET_CONTAINER_heap_insert i h e c = Some (h', i)" "heap_invar h'"
      "nodes (heap_root h') = add_mset (i, e, c) (nodes (heap_root h))" "heap_order h' = heap_order h"
      by (rule heap_insert_spec [of h i e c]) (use h fresh in simp_all)
    then show ?thesis using h x by (simp add: heap_put_def)
  qed
  assume "heap_pop h = Some (h', x)"
  then obtain i e c ts l r where "heap_root h = HeapNode i e c ts l r"
    "GNUNET_CONTAINER_heap_remove_root h = (h', fst (snd x))" "x = (i, fst (snd x), c)"
    by (auto simp: heap_pop_def split: GNUNET_CONTAINER_HeapNode.splits prod.splits)
  with heap_remove_root_spec [of h i e c ts l r h' "fst (snd x)"] h
  show "(heap_invar h' \<and> heap_order h' = order) \<and> nodes (heap_root h) = add_mset x (nodes (heap_root h')) \<and>
      (\<forall>y \<in># nodes (heap_root h'). below order (snd (snd x)) (snd (snd y)))"
    by (force simp: all_below_def)
qed

section \<open>Iteration\<close>

fun postorder :: "'e GNUNET_CONTAINER_HeapNode \<Rightarrow> (nat \<times> 'e option \<times> u64) list" where
  "postorder NULL = []"
| "postorder (HeapNode i e c ts l r) = postorder l @ postorder r @ [(i, e, c)]"

fun visit_nodes ::
    "('s \<Rightarrow> nat \<Rightarrow> 'e option \<Rightarrow> u64 \<Rightarrow> 's \<times> int) \<Rightarrow> (nat \<times> 'e option \<times> u64) list \<Rightarrow> 's \<Rightarrow> 's \<times> bool" where
  "visit_nodes iter [] s = (s, True)"
| "visit_nodes iter ((i, e, c) # xs) s =
     (case iter s i e c of (s', res) \<Rightarrow> if res = GNUNET_YES then visit_nodes iter xs s' else (s', False))"

lemma mset_postorder: "mset (postorder t) = nodes t"
  by (induction t) simp_all

lemma visit_nodes_append:
  "visit_nodes iter (xs @ ys) s = (case visit_nodes iter xs s of (s', go) \<Rightarrow> if go then visit_nodes iter ys s' else (s', False))"
  by (induction iter xs s rule: visit_nodes.induct) (auto split: prod.splits)

lemma node_iterator_visit_nodes:
  "visit_nodes iter (postorder t) s = (fst (node_iterator iter t s), snd (node_iterator iter t s) = GNUNET_YES)"
  by (induction t arbitrary: s) (auto simp: visit_nodes_append case_prod_beta)

section \<open>Properties\<close>

text \<open>
  C35: Inserting an element with a fresh node address never fails the size assertion, keeps the heap
  invariant and adds exactly that node, so that the size grows by one.
\<close>

theorem heap_insert_correct:
  assumes "heap_invar h" "addr \<notin> ids (heap_root h)"
  shows "\<exists>h'. GNUNET_CONTAINER_heap_insert addr h e c = Some (h', addr) \<and> heap_invar h' \<and>
    nodes (heap_root h') = add_mset (addr, e, c) (nodes (heap_root h)) \<and>
    GNUNET_CONTAINER_heap_get_size h' = GNUNET_CONTAINER_heap_get_size h + 1"
proof -
  obtain h' where h: "GNUNET_CONTAINER_heap_insert addr h e c = Some (h', addr)" "heap_invar h'"
    "nodes (heap_root h') = add_mset (addr, e, c) (nodes (heap_root h))"
    by (rule heap_insert_spec [OF assms])
  then have "heap_size h' = heap_size h + 1" using assms(1) by (simp add: heap_invar_def)
  then show ?thesis using h by (simp add: GNUNET_CONTAINER_heap_get_size_def)
qed

lemma heap_create_invar:
  "heap_invar (GNUNET_CONTAINER_heap_create order)" "heap_root (GNUNET_CONTAINER_heap_create order) = NULL"
  "heap_order (GNUNET_CONTAINER_heap_create order) = order"
  by (simp_all add: heap_invar_def GNUNET_CONTAINER_heap_create_def well_formed_def)

theorem heap_insert_correct_witness:
  "\<exists>h'. GNUNET_CONTAINER_heap_insert 1 (GNUNET_CONTAINER_heap_create GNUNET_CONTAINER_HEAP_ORDER_MIN)
     (Some True) 5 = Some (h', 1) \<and> nodes (heap_root h') = {#(1, Some True, 5)#}"
  using heap_insert_correct [of "GNUNET_CONTAINER_heap_create GNUNET_CONTAINER_HEAP_ORDER_MIN" 1 "Some True" 5]
  by (auto simp: heap_create_invar)

text \<open>
  Removing the root of a non-empty heap returns the element that the peek showed, removes exactly
  the node that held it, whose cost no remaining node beats, and keeps the invariant; on an empty
  heap nothing changes.
\<close>

theorem heap_remove_root_correct:
  assumes "heap_invar h" "GNUNET_CONTAINER_heap_remove_root h = (h', x)"
  shows "x = GNUNET_CONTAINER_heap_peek h \<and> heap_invar h' \<and>
    (if heap_root h = NULL then h' = h
     else \<exists>i c. nodes (heap_root h) = add_mset (i, x, c) (nodes (heap_root h')) \<and>
            (\<forall>(j, y, d) \<in># nodes (heap_root h'). below (heap_order h) c d))"
proof (cases "heap_root h")
  case NULL
  then show ?thesis
    using assms by (auto simp: GNUNET_CONTAINER_heap_remove_root_def GNUNET_CONTAINER_heap_peek_def)
next
  case (HeapNode i e c ts l r)
  note spec = heap_remove_root_spec [OF assms(1) HeapNode assms(2)]
  show ?thesis using spec HeapNode by (auto simp: GNUNET_CONTAINER_heap_peek_def all_below_def)
qed

text \<open>
  C34: Filling an empty heap with nodes and taking the roots out one after the other yields the same
  nodes ordered by cost, ascending for a minimum heap and descending for a maximum heap.
\<close>

theorem heap_sorts:
  assumes "distinct (map fst xs)"
  shows "\<exists>h. insert_all heap_put xs (GNUNET_CONTAINER_heap_create order) = Some h \<and>
    mset (drain heap_pop (length xs) h) = mset xs \<and>
    sorted_wrt (\<lambda>x y. below order (snd (snd x)) (snd (snd y))) (drain heap_pop (length xs) h)"
  by (rule heapq.queue_sort [OF _ _ assms, of "GNUNET_CONTAINER_heap_create order" order])
    (auto simp: heap_create_invar)

theorem heap_sorts_witness:
  "\<exists>h. insert_all heap_put [(1, Some True, 7), (2, None, 3), (3, Some False, 5)]
         (GNUNET_CONTAINER_heap_create GNUNET_CONTAINER_HEAP_ORDER_MIN) = Some h \<and>
       sorted_wrt (\<lambda>x y. snd (snd x) \<le> snd (snd y)) (drain heap_pop 3 h)"
  using heap_sorts [of "[(1, Some True, 7), (2, None, 3), (3, Some False, 5)]" GNUNET_CONTAINER_HEAP_ORDER_MIN]
  by (auto simp: numeral_3_eq_3)

section \<open>Walks and removal of arbitrary nodes\<close>

lemma find_node_nodes: "find_node a t = Some n \<Longrightarrow> nodes n \<subseteq># nodes t"
proof (induction t)
  case (HeapNode i e c ts l r)
  have sub: "nodes l \<subseteq># nodes (HeapNode i e c ts l r)" "nodes r \<subseteq># nodes (HeapNode i e c ts l r)"
    by (simp_all add: subseteq_mset_def)
  show ?case
  proof (cases "a = i")
    case False
    then have "nodes n \<subseteq># nodes l \<or> nodes n \<subseteq># nodes r"
      using HeapNode by (auto split: option.splits)
    then show ?thesis using sub subset_mset.order_trans by blast
  qed (use HeapNode.prems in simp)
qed simp

lemma children_nodes:
  assumes "pos \<noteq> NULL"
  shows "ids (left_child pos) \<subseteq> ids pos" "ids (right_child pos) \<subseteq> ids pos"
    and "distinct_ids pos \<Longrightarrow> node_id pos \<notin> ids (left_child pos) \<and> node_id pos \<notin> ids (right_child pos)"
  using assms by (cases pos; auto)+

lemma walk_position:
  assumes "walk_valid h" "heap_root h \<noteq> NULL"
  obtains pos where
    "(case walk_pos h of None \<Rightarrow> Some (heap_root h) | Some a \<Rightarrow> find_node a (heap_root h)) = Some pos"
    "nodes pos \<subseteq># nodes (heap_root h)" "pos \<noteq> NULL" "\<And>a. walk_pos h = Some a \<Longrightarrow> node_id pos = a"
proof (cases "walk_pos h")
  case None
  then show thesis using that [of "heap_root h"] assms(2) by simp
next
  case (Some b)
  then obtain n where n: "find_node b (heap_root h) = Some n"
    using assms(1) find_node_None unfolding walk_valid_def by fastforce
  show thesis using that [of n] n Some find_node_SomeD [OF n] find_node_nodes [OF n] by simp
qed

lemma walk_get_next_spec:
  assumes "walk_valid h" "heap_root h \<noteq> NULL" "distinct_ids (heap_root h)"
  obtains h' i e c where "GNUNET_CONTAINER_heap_walk_get_next random h = Some (h', e)"
    "h' = h\<lparr>walk_pos := walk_pos h'\<rparr>" "walk_valid h'"
    "\<And>a. walk_pos h = Some a \<Longrightarrow> walk_pos h' \<noteq> Some a" "(i, e, c) \<in># nodes (heap_root h)"
proof -
  obtain pos where pos:
    "(case walk_pos h of None \<Rightarrow> Some (heap_root h) | Some a \<Rightarrow> find_node a (heap_root h)) = Some pos"
    "nodes pos \<subseteq># nodes (heap_root h)" "pos \<noteq> NULL" "\<And>a. walk_pos h = Some a \<Longrightarrow> node_id pos = a"
    using walk_position [OF assms(1,2)] by blast
  let ?next = "if random = 0 then right_child pos else left_child pos"
  let ?h = "h\<lparr>walk_pos := address_of ?next\<rparr>"
  have d: "distinct_ids pos" by (rule distinct_ids_sub [OF assms(3) pos(2)])
  have sub: "ids pos \<subseteq> ids (heap_root h)" using pos(2) by (metis image_mono set_mset_mono)
  have eq: "GNUNET_CONTAINER_heap_walk_get_next random h = Some (?h, node_element pos)"
    using pos(1) assms(2) by (simp add: GNUNET_CONTAINER_heap_walk_get_next_def)
  have "x \<in> ids pos \<and> x \<noteq> node_id pos" if "address_of ?next = Some x" for x
    using address_of_ids [OF that] children_nodes(1,2) [OF pos(3)] children_nodes(3) [OF pos(3) d]
    by (cases "random = 0") (simp_all only: if_True if_False simp_thms, blast+)
  then have nxt: "x \<in> ids (heap_root h) \<and> x \<noteq> node_id pos" if "address_of ?next = Some x" for x
    using sub that by blast
  then have "walk_valid ?h" by (auto simp: walk_valid_def split: option.splits)
  moreover have "(node_id pos, node_element pos, node_cost pos) \<in># nodes (heap_root h)"
    using pos(2,3) by (cases pos) (auto dest: mset_subset_eqD)
  ultimately show thesis using that [OF eq] nxt pos(4) by auto
qed

text \<open>
  C36: Removing a node by its handle returns the element of that node, removes exactly that node and
  keeps the invariant; a walk in progress stays at a node of the heap.
\<close>

theorem heap_remove_node_correct:
  assumes "heap_invar h" "walk_valid h" "a \<in> ids (heap_root h)"
  shows "\<exists>h' e c. GNUNET_CONTAINER_heap_remove_node random a h = Some (h', e) \<and>
    nodes (heap_root h) = add_mset (a, e, c) (nodes (heap_root h')) \<and> heap_invar h' \<and> walk_valid h'"
proof -
  have ne: "heap_root h \<noteq> NULL" and d: "distinct_ids (heap_root h)" using assms(1,3) by (auto simp: heap_invar_def)
  obtain w e0 where w: "(if walk_pos h = Some a then GNUNET_CONTAINER_heap_walk_get_next random h
        else Some (h, None)) = Some (h\<lparr>walk_pos := w\<rparr>, e0)" "walk_valid (h\<lparr>walk_pos := w\<rparr>)" "w \<noteq> Some a"
  proof (cases "walk_pos h = Some a")
    case True
    then show thesis using walk_get_next_spec [OF assms(2) ne d, of random] that by metis
  next
    case False
    then show thesis using that [of "walk_pos h" None] assms(2) by simp
  qed
  let ?h = "h\<lparr>walk_pos := w\<rparr>"
  have "heap_invar ?h" "a \<in> ids (heap_root ?h)" using assms(1,3) by (simp_all add: heap_invar_def)
  then obtain h1 e c where r: "remove_node a ?h = Some (h1, HeapNode a e c 0 NULL NULL)"
    "nodes (heap_root ?h) = add_mset (a, e, c) (nodes (heap_root h1))"
    "well_formed (heap_order ?h) (heap_root h1)" "distinct_ids (heap_root h1)" "a \<notin> ids (heap_root h1)"
    "h1 = ?h\<lparr>heap_root := heap_root h1\<rparr>"
    by (rule remove_node_spec)
  let ?h2 = "h1\<lparr>heap_size := heap_size h1 - 1\<rparr>"
  have f: "walk_pos h1 = w" "heap_order h1 = heap_order h" "heap_size h1 = heap_size h"
    by (subst r(6); simp)+
  have "GNUNET_CONTAINER_heap_remove_node random a h = Some (?h2, e)"
    using w r(1) f by (simp add: GNUNET_CONTAINER_heap_remove_node_def)
  moreover have "heap_invar ?h2" using assms(1) r f by (simp add: heap_invar_def)
  moreover have "walk_valid ?h2" using w(2,3) r(2) f by (auto simp: walk_valid_def split: option.splits)
  ultimately show ?thesis using r(2) by (intro exI conjI) simp_all
qed

definition sample_heap :: "bool GNUNET_CONTAINER_Heap" where
  "sample_heap =
     \<lparr>heap_root = HeapNode 1 (Some True) 3 2 (HeapNode 2 (Some False) 5 0 NULL NULL)
                   (HeapNode 3 None 4 0 NULL NULL),
      walk_pos = Some 2, heap_size = 3, heap_order = GNUNET_CONTAINER_HEAP_ORDER_MIN\<rparr>"

lemma sample_heap_invar: "heap_invar sample_heap \<and> walk_valid sample_heap \<and> 2 \<in> ids (heap_root sample_heap)"
  by (simp add: sample_heap_def heap_invar_def walk_valid_def well_formed_def)

theorem heap_remove_node_correct_witness:
  "\<exists>h' e c. GNUNET_CONTAINER_heap_remove_node 0 2 sample_heap = Some (h', e) \<and>
     nodes (heap_root sample_heap) = add_mset (2, e, c) (nodes (heap_root h')) \<and> walk_valid h'"
  using heap_remove_node_correct [of sample_heap 2 0] sample_heap_invar by blast

text \<open>
  C37: Updating the cost of a node replaces exactly that node's cost and keeps its address and
  element, the size and the invariant.
\<close>

theorem heap_update_cost_correct:
  assumes "heap_invar h" "a \<in> ids (heap_root h)"
  shows "\<exists>h' e c rest. GNUNET_CONTAINER_heap_update_cost h a new_cost = Some h' \<and>
    nodes (heap_root h) = add_mset (a, e, c) rest \<and>
    nodes (heap_root h') = add_mset (a, e, new_cost) rest \<and> heap_invar h' \<and> walk_pos h' = walk_pos h"
proof -
  obtain h1 e c where r: "remove_node a h = Some (h1, HeapNode a e c 0 NULL NULL)"
    "nodes (heap_root h) = add_mset (a, e, c) (nodes (heap_root h1))"
    "well_formed (heap_order h) (heap_root h1)" "distinct_ids (heap_root h1)" "a \<notin> ids (heap_root h1)"
    "h1 = h\<lparr>heap_root := heap_root h1\<rparr>"
    by (rule remove_node_spec [OF assms])
  let ?n = "HeapNode a e new_cost 0 NULL NULL"
  let ?t = "insert_node (heap_order h) (heap_root h1) ?n"
  have f: "heap_order h1 = heap_order h" "heap_size h1 = heap_size h" "walk_pos h1 = walk_pos h"
    by (subst r(6); simp)+
  have "GNUNET_CONTAINER_heap_update_cost h a new_cost = Some (h1\<lparr>heap_root := ?t\<rparr>)"
    using r(1) f by (cases "heap_root h1") (simp_all add: GNUNET_CONTAINER_heap_update_cost_def Let_def)
  moreover have n: "nodes ?t = add_mset (a, e, new_cost) (nodes (heap_root h1))" by simp
  moreover have "well_formed (heap_order h) ?t"
    using r(3) by (intro insert_well_formed) (simp_all add: well_formed_def)
  moreover have "distinct_ids ?t" by (rule distinct_ids_add [OF r(4,5) n])
  ultimately show ?thesis using r(2) f assms(1)
    by (intro exI [of _ "h1\<lparr>heap_root := ?t\<rparr>"] exI [of _ e] exI [of _ c] exI [of _ "nodes (heap_root h1)"])
      (simp add: heap_invar_def)
qed

theorem heap_update_cost_correct_witness:
  "\<exists>h' e c rest. GNUNET_CONTAINER_heap_update_cost sample_heap 2 1 = Some h' \<and>
     nodes (heap_root sample_heap) = add_mset (2, e, c) rest \<and>
     nodes (heap_root h') = add_mset (2, e, 1) rest"
  using heap_update_cost_correct [of sample_heap 2 1] sample_heap_invar by blast

text \<open>
  Iteration calls the iterator on every node exactly once, children before their parent, and
  stops after the first call that does not return GNUNET_YES.
\<close>

theorem heap_iterate_correct:
  "GNUNET_CONTAINER_heap_iterate h iter s = fst (visit_nodes iter (postorder (heap_root h)) s) \<and>
   mset (postorder (heap_root h)) = nodes (heap_root h)"
  by (simp add: GNUNET_CONTAINER_heap_iterate_def node_iterator_visit_nodes mset_postorder)


end
