(* ===== verification/Message_Tokenizer.thy ===== *)
theory Message_Tokenizer
  imports Prelude
begin

text \<open>
  The message stream tokenizer of \<^verbatim>\<open>src/src/util/server_mst.c\<close>.  The private buffer is a list of
  \<open>curr_buf\<close> bytes; a copy that would leave it is a failure (\<open>None\<close>), like a failing assertion.
  Sizes are natural numbers: they are lengths of buffers that exist in memory.  \<^verbatim>\<open>ALIGN_FACTOR\<close> and
  the address of the input buffer, on which the zero-copy path depends, are arguments, and so is the
  content of the memory that \<^verbatim>\<open>GNUNET_realloc\<close> adds.  The callback is a function on the state of
  its closure.

  \<open>GNUNET_SERVER_mst_receive\<close> is two loops and a \<^verbatim>\<open>goto\<close> between them.  \<open>private_step\<close> is one turn
  of the loop over the private buffer (from the label \<^verbatim>\<open>do_align\<close>), \<open>direct_step\<close> one turn of the
  loop over the input, \<open>finish_copy\<close> the code from the label \<^verbatim>\<open>copy\<close> on, and \<open>mst_loop\<close> the control
  flow between them.

  \<open>tokenize\<close> is the specification: it reads messages off a byte string.  The main result is that
  the tokenizer never fails and delivers exactly the messages of the concatenated input, however the
  input was cut into pieces and wherever it was placed in memory.
\<close>

section \<open>The tokenizer\<close>

definition HEADER_SIZE :: nat where [simp]: "HEADER_SIZE = 4"

definition GNUNET_SERVER_MIN_BUFFER_SIZE :: nat where "GNUNET_SERVER_MIN_BUFFER_SIZE = HEADER_SIZE"

record GNUNET_SERVER_MessageStreamTokenizer =
  mst_off :: nat
  mst_pos :: nat
  mst_hdr :: "byte list"

abbreviation curr_buf :: "GNUNET_SERVER_MessageStreamTokenizer \<Rightarrow> nat" where
  "curr_buf mst \<equiv> length (mst_hdr mst)"

type_synonym 'c callback = "'c \<Rightarrow> byte list \<Rightarrow> 'c \<times> int"

definition GNUNET_SERVER_mst_create :: GNUNET_SERVER_MessageStreamTokenizer where
  "GNUNET_SERVER_mst_create =
     \<lparr>mst_off = 0, mst_pos = 0, mst_hdr = replicate GNUNET_SERVER_MIN_BUFFER_SIZE 0\<rparr>"

definition header_size :: "byte list \<Rightarrow> nat" where
  "header_size msg = 256 * unat (msg ! 0) + unat (msg ! 1)"

definition copy_in :: "byte list \<Rightarrow> GNUNET_SERVER_MessageStreamTokenizer \<Rightarrow>
    GNUNET_SERVER_MessageStreamTokenizer option" where
  "copy_in data mst =
     (if mst_pos mst + length data \<le> curr_buf mst
      then Some (mst\<lparr>mst_hdr := take (mst_pos mst) (mst_hdr mst) @ data @
                                drop (mst_pos mst + length data) (mst_hdr mst),
                     mst_pos := mst_pos mst + length data\<rparr>)
      else None)"

definition move_front :: "GNUNET_SERVER_MessageStreamTokenizer \<Rightarrow> GNUNET_SERVER_MessageStreamTokenizer option" where
  "move_front mst =
     (let n = mst_pos mst - mst_off mst in
      if mst_off mst + n \<le> curr_buf mst
      then Some (mst\<lparr>mst_pos := n,
                     mst_hdr := take n (drop (mst_off mst) (mst_hdr mst)) @ drop n (mst_hdr mst),
                     mst_off := 0\<rparr>)
      else None)"

definition grow_buffer :: "byte \<Rightarrow> nat \<Rightarrow> GNUNET_SERVER_MessageStreamTokenizer \<Rightarrow>
    GNUNET_SERVER_MessageStreamTokenizer" where
  "grow_buffer pad n mst = mst\<lparr>mst_hdr := mst_hdr mst @ replicate (n - curr_buf mst) pad\<rparr>"

definition mst_purge :: "int \<Rightarrow> GNUNET_SERVER_MessageStreamTokenizer \<Rightarrow> GNUNET_SERVER_MessageStreamTokenizer" where
  "mst_purge purge mst = (if purge \<noteq> 0 then mst\<lparr>mst_off := 0, mst_pos := 0\<rparr> else mst)"

text \<open>The variables of a running call: tokenizer, rest of the input and its address, \<^verbatim>\<open>one_shot\<close>, closure.\<close>

record 'c receive_state =
  r_mst :: GNUNET_SERVER_MessageStreamTokenizer
  r_buf :: "byte list"
  r_addr :: nat
  r_one_shot :: int
  r_cls :: 'c

datatype 'c receive_step =
  Again "'c receive_state"
| Goto_align "'c receive_state"
| Goto_copy int "'c receive_state"
| Return int "'c receive_state"

definition fill :: "nat \<Rightarrow> 'c receive_state \<Rightarrow> 'c receive_state option" where
  "fill want r =
     (let have_bytes = mst_pos (r_mst r) - mst_off (r_mst r) in
      if have_bytes < want
      then (let delta = min (want - have_bytes) (length (r_buf r)) in
            case copy_in (take delta (r_buf r)) (r_mst r) of
              None \<Rightarrow> None
            | Some mst \<Rightarrow> Some (r\<lparr>r_mst := mst, r_buf := drop delta (r_buf r), r_addr := r_addr r + delta\<rparr>))
      else Some r)"

definition deliver :: "'c callback \<Rightarrow> byte list \<Rightarrow> 'c receive_state \<Rightarrow> 'c receive_state \<times> int" where
  "deliver cb msg r =
     (case cb (r_cls r) msg of
        (cls', res) \<Rightarrow>
          (r\<lparr>r_cls := cls', r_one_shot := (if r_one_shot r = GNUNET_YES then GNUNET_SYSERR else r_one_shot r)\<rparr>,
           res))"

definition make_room :: "byte \<Rightarrow> nat \<Rightarrow> GNUNET_SERVER_MessageStreamTokenizer \<Rightarrow>
    GNUNET_SERVER_MessageStreamTokenizer option" where
  "make_room pad want mst =
     (case (if curr_buf mst - mst_off mst < want \<and> mst_off mst > 0 then move_front mst else Some mst) of
        None \<Rightarrow> None
      | Some mst1 \<Rightarrow>
          (if curr_buf mst1 < want
           then (if mst_off mst1 = 0 then Some (grow_buffer pad want mst1) else None)
           else Some mst1))"

text \<open>\<open>load_header\<close>: from the label \<^verbatim>\<open>do_align\<close> to the header; \<open>load_message\<close>: space for the message and its bytes.\<close>

definition align_front :: "nat \<Rightarrow> GNUNET_SERVER_MessageStreamTokenizer \<Rightarrow>
    GNUNET_SERVER_MessageStreamTokenizer option" where
  "align_front align mst =
     (if curr_buf mst - mst_off mst < HEADER_SIZE \<or> mst_off mst mod align \<noteq> 0
      then move_front mst else Some mst)"

definition load_header :: "nat \<Rightarrow> 'c receive_state \<Rightarrow> 'c receive_state option" where
  "load_header align r =
     (if mst_pos (r_mst r) \<ge> mst_off (r_mst r)
      then (case align_front align (r_mst r) of
              None \<Rightarrow> None
            | Some mst \<Rightarrow> fill HEADER_SIZE (r\<lparr>r_mst := mst\<rparr>))
      else None)"

definition load_message :: "byte \<Rightarrow> nat \<Rightarrow> 'c receive_state \<Rightarrow> 'c receive_state option" where
  "load_message pad want r =
     (case make_room pad want (r_mst r) of
        None \<Rightarrow> None
      | Some mst \<Rightarrow> fill want (r\<lparr>r_mst := mst\<rparr>))"

definition private_deliver :: "'c callback \<Rightarrow> nat \<Rightarrow> 'c receive_state \<Rightarrow> 'c receive_step" where
  "private_deliver cb want r =
     (let msg = take want (drop (mst_off (r_mst r)) (mst_hdr (r_mst r)));
          mst = (r_mst r)\<lparr>mst_off := mst_off (r_mst r) + want\<rparr> in
      case deliver cb msg (r\<lparr>r_mst := mst\<rparr>) of
        (r1, res) \<Rightarrow>
          if res = GNUNET_SYSERR then Return GNUNET_SYSERR r1
          else if mst_off mst = mst_pos mst then Again (r1\<lparr>r_mst := mst\<lparr>mst_off := 0, mst_pos := 0\<rparr>\<rparr>)
          else Again r1)"

definition private_step ::
    "nat \<Rightarrow> byte \<Rightarrow> int \<Rightarrow> 'c callback \<Rightarrow> 'c receive_state \<Rightarrow> 'c receive_step option" where
  "private_step align pad purge cb r =
     (case load_header align r of
        None \<Rightarrow> None
      | Some r1 \<Rightarrow>
          if mst_pos (r_mst r1) - mst_off (r_mst r1) < HEADER_SIZE
          then Some (Return GNUNET_OK (r1\<lparr>r_mst := mst_purge purge (r_mst r1)\<rparr>))
          else (let want = header_size (drop (mst_off (r_mst r1)) (mst_hdr (r_mst r1))) in
                if want < HEADER_SIZE then Some (Return GNUNET_SYSERR r1)
                else (case load_message pad want r1 of
                        None \<Rightarrow> None
                      | Some r2 \<Rightarrow>
                          if mst_pos (r_mst r2) - mst_off (r_mst r2) < want
                          then Some (Return GNUNET_OK (r2\<lparr>r_mst := mst_purge purge (r_mst r2)\<rparr>))
                          else if r_one_shot r2 = GNUNET_SYSERR then Some (Goto_copy GNUNET_NO r2)
                          else Some (private_deliver cb want r2))))"

definition direct_step :: "nat \<Rightarrow> 'c callback \<Rightarrow> 'c receive_state \<Rightarrow> 'c receive_step" where
  "direct_step align cb r =
     (if length (r_buf r) < HEADER_SIZE then Goto_copy GNUNET_OK r
      else if r_addr r mod align \<noteq> 0 then Goto_align r
      else (let want = header_size (r_buf r) in
            if want < HEADER_SIZE then Return GNUNET_SYSERR (r\<lparr>r_mst := (r_mst r)\<lparr>mst_off := 0\<rparr>\<rparr>)
            else if length (r_buf r) < want then Goto_copy GNUNET_OK r
            else if r_one_shot r = GNUNET_SYSERR then Goto_copy GNUNET_NO r
            else (case deliver cb (take want (r_buf r)) r of
                    (r1, res) \<Rightarrow>
                      if res = GNUNET_SYSERR then Return GNUNET_SYSERR r1
                      else Again (r1\<lparr>r_buf := drop want (r_buf r1), r_addr := r_addr r1 + want\<rparr>))))"

definition finish_copy :: "byte \<Rightarrow> int \<Rightarrow> 'c receive_state \<Rightarrow> 'c receive_state option" where
  "finish_copy pad purge r =
     (case (if length (r_buf r) > 0 \<and> purge = 0
            then (let mst = r_mst r;
                      mst1 = (if length (r_buf r) + mst_pos mst > curr_buf mst
                              then grow_buffer pad (length (r_buf r) + mst_pos mst) mst else mst)
                  in copy_in (r_buf r) mst1)
            else Some (r_mst r)) of
        None \<Rightarrow> None
      | Some mst2 \<Rightarrow> Some (r\<lparr>r_mst := mst_purge purge mst2\<rparr>))"

definition pending :: "'c receive_state \<Rightarrow> nat" where
  "pending r = mst_pos (r_mst r) - mst_off (r_mst r) + length (r_buf r)"

lemma copy_in_SomeD:
  "copy_in data mst = Some mst' \<Longrightarrow>
     mst_pos mst' = mst_pos mst + length data \<and> mst_off mst' = mst_off mst \<and> curr_buf mst' = curr_buf mst"
  by (auto simp: copy_in_def split: if_splits)

lemma move_front_SomeD:
  "move_front mst = Some mst' \<Longrightarrow> mst_pos mst' = mst_pos mst - mst_off mst \<and> mst_off mst' = 0"
  by (auto simp: move_front_def Let_def split: if_splits)

lemma fill_pending:
  assumes "fill want r = Some r'" "mst_off (r_mst r) \<le> mst_pos (r_mst r)"
  shows "pending r' = pending r" "mst_off (r_mst r') \<le> mst_pos (r_mst r')"
  using assms by (auto simp: fill_def pending_def Let_def dest!: copy_in_SomeD split: if_splits option.splits)

lemma make_room_SomeD:
  "make_room pad want mst = Some mst' \<Longrightarrow> mst_pos mst' - mst_off mst' = mst_pos mst - mst_off mst \<and>
     (mst_off mst \<le> mst_pos mst \<longrightarrow> mst_off mst' \<le> mst_pos mst')"
  by (auto simp: make_room_def grow_buffer_def dest!: move_front_SomeD split: if_splits option.splits)

lemma load_header_pending:
  assumes "load_header align r = Some r'"
  shows "pending r' = pending r" "mst_off (r_mst r') \<le> mst_pos (r_mst r')"
proof -
  obtain mst where m: "align_front align (r_mst r) = Some mst" "mst_off (r_mst r) \<le> mst_pos (r_mst r)"
    and "fill HEADER_SIZE (r\<lparr>r_mst := mst\<rparr>) = Some r'"
    using assms by (auto simp: load_header_def split: if_splits option.splits)
  moreover have "mst_pos mst - mst_off mst = mst_pos (r_mst r) - mst_off (r_mst r)" "mst_off mst \<le> mst_pos mst"
    using m by (auto simp: align_front_def dest!: move_front_SomeD split: if_splits)
  ultimately show "pending r' = pending r" "mst_off (r_mst r') \<le> mst_pos (r_mst r')"
    using fill_pending [of HEADER_SIZE "r\<lparr>r_mst := mst\<rparr>" r'] by (simp_all add: pending_def)
qed

lemma load_message_pending:
  assumes "load_message pad want r = Some r'" "mst_off (r_mst r) \<le> mst_pos (r_mst r)"
  shows "pending r' = pending r" "mst_off (r_mst r') \<le> mst_pos (r_mst r')"
proof -
  obtain mst where m: "make_room pad want (r_mst r) = Some mst" "fill want (r\<lparr>r_mst := mst\<rparr>) = Some r'"
    using assms(1) by (auto simp: load_message_def split: option.splits)
  show "pending r' = pending r" "mst_off (r_mst r') \<le> mst_pos (r_mst r')"
    using fill_pending [OF m(2)] make_room_SomeD [OF m(1)] assms(2) by (simp_all add: pending_def)
qed

lemma deliver_frame:
  "deliver cb msg r = (r', res) \<Longrightarrow> r_mst r' = r_mst r \<and> r_buf r' = r_buf r \<and> r_addr r' = r_addr r"
  by (auto simp: deliver_def split: prod.splits)

lemma private_deliver_pending:
  assumes "private_deliver cb want r = Again r'" "0 < want" "want \<le> mst_pos (r_mst r) - mst_off (r_mst r)"
  shows "pending r' < pending r"
  using assms by (auto simp: private_deliver_def pending_def Let_def dest!: deliver_frame split: if_splits prod.splits)

lemma private_step_pending:
  assumes "private_step align pad purge cb r = Some (Again r')"
  shows "pending r' < pending r"
proof -
  obtain r1 r2 want where "load_header align r = Some r1" "load_message pad want r1 = Some r2"
    "HEADER_SIZE \<le> want" "want \<le> mst_pos (r_mst r2) - mst_off (r_mst r2)" "private_deliver cb want r2 = Again r'"
    using assms by (auto simp: private_step_def Let_def not_less simp del: HEADER_SIZE_def split: option.splits if_splits)
  then show ?thesis
    using load_header_pending load_message_pending private_deliver_pending
    by (metis HEADER_SIZE_def less_le_trans zero_less_numeral)
qed

lemma direct_step_pending:
  assumes "direct_step align cb r = Again r'"
  shows "pending r' < pending r"
  using assms
  by (auto simp: direct_step_def pending_def Let_def dest!: deliver_frame split: if_splits prod.splits)

lemma direct_step_align: "direct_step align cb r = Goto_align r' \<Longrightarrow> r' = r"
  by (auto simp: direct_step_def Let_def split: if_splits prod.splits)

text \<open>
  The control flow: with \<open>in_private\<close> the loop over the private buffer is at its condition, without
  it the loop over the input; \<^verbatim>\<open>goto do_align\<close> enters the body of the first loop.
\<close>

function mst_loop ::
    "nat \<Rightarrow> byte \<Rightarrow> int \<Rightarrow> 'c callback \<Rightarrow> bool \<Rightarrow> 'c receive_state \<Rightarrow> ('c receive_state \<times> int) option" where
  "mst_loop align pad purge cb in_private r =
     (if in_private \<and> mst_pos (r_mst r) = 0 then mst_loop align pad purge cb False r
      else case (if in_private then Goto_align r
                 else if r_buf r = [] then Goto_copy GNUNET_OK r
                 else direct_step align cb r) of
             Again r1 \<Rightarrow> mst_loop align pad purge cb False r1
           | Goto_copy ret r1 \<Rightarrow> map_option (\<lambda>r2. (r2, ret)) (finish_copy pad purge r1)
           | Return ret r1 \<Rightarrow> Some (r1, ret)
           | Goto_align r1 \<Rightarrow>
               (case private_step align pad purge cb r1 of
                  None \<Rightarrow> None
                | Some (Again r2) \<Rightarrow> mst_loop align pad purge cb True r2
                | Some (Goto_align r2) \<Rightarrow> None
                | Some (Goto_copy ret r2) \<Rightarrow> map_option (\<lambda>r3. (r3, ret)) (finish_copy pad purge r2)
                | Some (Return ret r2) \<Rightarrow> Some (r2, ret)))"
  by pat_completeness auto
termination
  by (relation "measures [\<lambda>(align, pad, purge, cb, in_private, r). pending r,
        \<lambda>(align, pad, purge, cb, in_private, r). if in_private then 1 else 0]")
    (auto split: if_splits receive_step.splits dest: private_step_pending direct_step_pending direct_step_align)

declare mst_loop.simps [simp del]

definition GNUNET_SERVER_mst_receive ::
    "nat \<Rightarrow> byte \<Rightarrow> 'c callback \<Rightarrow> GNUNET_SERVER_MessageStreamTokenizer \<Rightarrow> 'c \<Rightarrow> nat \<Rightarrow> byte list \<Rightarrow>
     int \<Rightarrow> int \<Rightarrow> (GNUNET_SERVER_MessageStreamTokenizer \<times> 'c \<times> int) option" where
  "GNUNET_SERVER_mst_receive align pad cb mst cls addr buf purge one_shot =
     (if mst_off mst \<le> mst_pos mst \<and> mst_pos mst \<le> curr_buf mst
      then map_option (\<lambda>(r, ret). (r_mst r, r_cls r, ret))
             (mst_loop align pad purge cb True
                \<lparr>r_mst = mst, r_buf = buf, r_addr = addr, r_one_shot = one_shot, r_cls = cls\<rparr>)
      else None)"

section \<open>The byte stream specification\<close>

function tokenize :: "'c callback \<Rightarrow> int \<Rightarrow> 'c \<Rightarrow> byte list \<Rightarrow> 'c \<times> int \<times> byte list" where
  "tokenize cb one_shot cls bs =
     (if length bs < HEADER_SIZE then (cls, GNUNET_OK, bs)
      else (let want = header_size bs in
            if want < HEADER_SIZE then (cls, GNUNET_SYSERR, bs)
            else if length bs < want then (cls, GNUNET_OK, bs)
            else if one_shot = GNUNET_SYSERR then (cls, GNUNET_NO, bs)
            else (case cb cls (take want bs) of
                    (cls', res) \<Rightarrow>
                      if res = GNUNET_SYSERR then (cls', GNUNET_SYSERR, drop want bs)
                      else tokenize cb (if one_shot = GNUNET_YES then GNUNET_SYSERR else one_shot) cls'
                             (drop want bs))))"
  by pat_completeness auto
termination
  by (relation "measure (\<lambda>(cb, one_shot, cls, bs). length bs)") auto

declare tokenize.simps [simp del]

definition mst_ok :: "GNUNET_SERVER_MessageStreamTokenizer \<Rightarrow> bool" where
  "mst_ok mst \<longleftrightarrow> mst_off mst \<le> mst_pos mst \<and> mst_pos mst \<le> curr_buf mst \<and> HEADER_SIZE \<le> curr_buf mst"

definition buffered :: "GNUNET_SERVER_MessageStreamTokenizer \<Rightarrow> byte list" where
  "buffered mst = take (mst_pos mst - mst_off mst) (drop (mst_off mst) (mst_hdr mst))"

definition unread :: "'c receive_state \<Rightarrow> byte list" where
  "unread r = buffered (r_mst r) @ r_buf r"

section \<open>The buffer operations keep the unread bytes\<close>

lemma copy_in_spec:
  assumes "mst_ok mst" "mst_pos mst + length data \<le> curr_buf mst"
  obtains mst' where "copy_in data mst = Some mst'" "mst_ok mst'" "buffered mst' = buffered mst @ data"
    "mst_off mst' = mst_off mst" "mst_pos mst' = mst_pos mst + length data"
proof -
  let ?m = "mst\<lparr>mst_hdr := take (mst_pos mst) (mst_hdr mst) @ data @
                 drop (mst_pos mst + length data) (mst_hdr mst), mst_pos := mst_pos mst + length data\<rparr>"
  have "buffered ?m = buffered mst @ data"
    using assms by (simp add: buffered_def mst_ok_def take_drop)
  then show thesis using that [of ?m] assms by (simp add: copy_in_def mst_ok_def)
qed

lemma move_front_spec:
  assumes "mst_ok mst"
  obtains mst' where "move_front mst = Some mst'" "mst_ok mst'" "buffered mst' = buffered mst"
    "mst_off mst' = 0" "curr_buf mst' = curr_buf mst"
  using assms that by (auto simp: move_front_def Let_def mst_ok_def buffered_def)

lemma align_front_spec:
  assumes "mst_ok mst"
  obtains mst' where "align_front align mst = Some mst'" "mst_ok mst'" "buffered mst' = buffered mst"
    "mst_off mst' + HEADER_SIZE \<le> curr_buf mst'"
proof (cases "curr_buf mst - mst_off mst < HEADER_SIZE \<or> mst_off mst mod align \<noteq> 0")
  case True
  obtain mst' where "move_front mst = Some mst'" "mst_ok mst'" "buffered mst' = buffered mst"
    "mst_off mst' = 0" "curr_buf mst' = curr_buf mst"
    by (rule move_front_spec [OF assms])
  then show thesis using that [of mst'] True by (simp add: align_front_def mst_ok_def)
next
  case False
  then show thesis using that [of mst] assms by (auto simp: align_front_def mst_ok_def)
qed

lemma make_room_spec:
  assumes "mst_ok mst"
  obtains mst' where "make_room pad want mst = Some mst'" "mst_ok mst'" "buffered mst' = buffered mst"
    "mst_off mst' + want \<le> curr_buf mst'"
proof -
  obtain mst1 where m: "(if curr_buf mst - mst_off mst < want \<and> mst_off mst > 0 then move_front mst
        else Some mst) = Some mst1" "mst_ok mst1" "buffered mst1 = buffered mst"
    "mst_off mst1 = 0 \<or> mst_off mst1 + want \<le> curr_buf mst1"
  proof (cases "curr_buf mst - mst_off mst < want \<and> mst_off mst > 0")
    case True
    obtain mst' where "move_front mst = Some mst'" "mst_ok mst'" "buffered mst' = buffered mst" "mst_off mst' = 0"
      by (rule move_front_spec [OF assms])
    then show thesis using that [of mst'] True by simp
  next
    case False
    then have "mst_off mst = 0 \<or> mst_off mst + want \<le> curr_buf mst"
      using assms by (auto simp: mst_ok_def)
    then show thesis using that [of mst] False assms by auto
  qed
  let ?m = "if curr_buf mst1 < want then grow_buffer pad want mst1 else mst1"
  have "make_room pad want mst = Some ?m"
    using m(1,4) by (simp add: make_room_def) linarith
  moreover have "mst_ok ?m" "buffered ?m = buffered mst1" "mst_off ?m + want \<le> curr_buf ?m"
    using m(2,4) by (auto simp: grow_buffer_def mst_ok_def buffered_def)
  ultimately show thesis using that m(3) by simp
qed

lemma fill_spec:
  assumes "mst_ok (r_mst r)" "mst_off (r_mst r) + want \<le> curr_buf (r_mst r)"
  obtains r' where "fill want r = Some r'" "mst_ok (r_mst r')" "unread r' = unread r"
    "r_one_shot r' = r_one_shot r" "r_cls r' = r_cls r"
    "mst_pos (r_mst r') - mst_off (r_mst r') < want \<longrightarrow> r_buf r' = []"
proof (cases "mst_pos (r_mst r) - mst_off (r_mst r) < want")
  case True
  let ?d = "min (want - (mst_pos (r_mst r) - mst_off (r_mst r))) (length (r_buf r))"
  have "mst_pos (r_mst r) + length (take ?d (r_buf r)) \<le> curr_buf (r_mst r)"
    using assms True by (auto simp: mst_ok_def)
  then obtain mst' where m: "copy_in (take ?d (r_buf r)) (r_mst r) = Some mst'" "mst_ok mst'"
    "buffered mst' = buffered (r_mst r) @ take ?d (r_buf r)" "mst_off mst' = mst_off (r_mst r)"
    "mst_pos mst' = mst_pos (r_mst r) + length (take ?d (r_buf r))"
    by (rule copy_in_spec [OF assms(1)])
  let ?r = "r\<lparr>r_mst := mst', r_buf := drop ?d (r_buf r), r_addr := r_addr r + ?d\<rparr>"
  have "fill want r = Some ?r" using True m(1) by (simp add: fill_def Let_def)
  moreover have "unread ?r = unread r" using m(3) by (simp add: unread_def)
  moreover have "r_buf ?r = []" if "mst_pos mst' - mst_off mst' < want"
    using that m(4,5) assms(1) True by (auto simp: mst_ok_def)
  ultimately show thesis using that m(2) by simp
next
  case False
  then show thesis using that [of r] assms by (simp add: fill_def)
qed

lemma length_buffered: "mst_ok mst \<Longrightarrow> length (buffered mst) = mst_pos mst - mst_off mst"
  by (auto simp: buffered_def mst_ok_def)

lemma load_header_spec:
  assumes "mst_ok (r_mst r)"
  obtains r' where "load_header align r = Some r'" "mst_ok (r_mst r')" "unread r' = unread r"
    "r_one_shot r' = r_one_shot r" "r_cls r' = r_cls r"
    "mst_pos (r_mst r') - mst_off (r_mst r') < HEADER_SIZE \<longrightarrow> r_buf r' = []"
proof -
  obtain mst where m: "align_front align (r_mst r) = Some mst" "mst_ok mst" "buffered mst = buffered (r_mst r)"
    "mst_off mst + HEADER_SIZE \<le> curr_buf mst"
    by (rule align_front_spec [OF assms])
  then have "load_header align r = fill HEADER_SIZE (r\<lparr>r_mst := mst\<rparr>)"
    using assms by (simp add: load_header_def mst_ok_def)
  moreover obtain r' where "fill HEADER_SIZE (r\<lparr>r_mst := mst\<rparr>) = Some r'" "mst_ok (r_mst r')"
    "unread r' = unread (r\<lparr>r_mst := mst\<rparr>)" "r_one_shot r' = r_one_shot r" "r_cls r' = r_cls r"
    "mst_pos (r_mst r') - mst_off (r_mst r') < HEADER_SIZE \<longrightarrow> r_buf r' = []"
    by (rule fill_spec [of "r\<lparr>r_mst := mst\<rparr>" HEADER_SIZE]) (use m in simp_all)
  ultimately show thesis using that [of r'] m(3) by (simp add: unread_def)
qed

lemma load_message_spec:
  assumes "mst_ok (r_mst r)"
  obtains r' where "load_message pad want r = Some r'" "mst_ok (r_mst r')" "unread r' = unread r"
    "r_one_shot r' = r_one_shot r" "r_cls r' = r_cls r"
    "mst_pos (r_mst r') - mst_off (r_mst r') < want \<longrightarrow> r_buf r' = []"
proof -
  obtain mst where m: "make_room pad want (r_mst r) = Some mst" "mst_ok mst" "buffered mst = buffered (r_mst r)"
    "mst_off mst + want \<le> curr_buf mst"
    by (rule make_room_spec [OF assms])
  then have "load_message pad want r = fill want (r\<lparr>r_mst := mst\<rparr>)"
    by (simp add: load_message_def)
  moreover obtain r' where "fill want (r\<lparr>r_mst := mst\<rparr>) = Some r'" "mst_ok (r_mst r')"
    "unread r' = unread (r\<lparr>r_mst := mst\<rparr>)" "r_one_shot r' = r_one_shot r" "r_cls r' = r_cls r"
    "mst_pos (r_mst r') - mst_off (r_mst r') < want \<longrightarrow> r_buf r' = []"
    by (rule fill_spec [of "r\<lparr>r_mst := mst\<rparr>" want]) (use m in simp_all)
  ultimately show thesis using that [of r'] m(3) by (simp add: unread_def)
qed

section \<open>One turn of the loops reads one message off the stream\<close>

definition promised :: "int \<Rightarrow> 'c callback \<Rightarrow> 'c receive_state \<Rightarrow> 'c receive_step \<Rightarrow> bool" where
  "promised purge cb r s \<longleftrightarrow>
     (let spec = tokenize cb (r_one_shot r) (r_cls r) (unread r) in
      case s of
        Again r' \<Rightarrow> mst_ok (r_mst r') \<and> tokenize cb (r_one_shot r') (r_cls r') (unread r') = spec
      | Goto_align r' \<Rightarrow> r' = r
      | Goto_copy ret r' \<Rightarrow> mst_ok (r_mst r') \<and> spec = (r_cls r', ret, unread r')
      | Return ret r' \<Rightarrow> mst_ok (r_mst r') \<and> (\<exists>rest. spec = (r_cls r', ret, rest) \<and>
          (ret \<noteq> GNUNET_SYSERR \<longrightarrow> buffered (r_mst r') = (if purge \<noteq> 0 then [] else rest))))"

lemma mst_purge_spec:
  "mst_ok mst \<Longrightarrow> mst_ok (mst_purge purge mst) \<and>
     buffered (mst_purge purge mst) = (if purge \<noteq> 0 then [] else buffered mst)"
  by (auto simp: mst_purge_def mst_ok_def buffered_def)

lemma header_size_cong: "take 2 a = take 2 b \<Longrightarrow> 2 \<le> length a \<Longrightarrow> 2 \<le> length b \<Longrightarrow> header_size a = header_size b"
  by (metis header_size_def nth_take one_less_numeral_iff semiring_norm(76) zero_less_numeral)

lemma buffered_header:
  assumes "mst_ok (r_mst r)" "HEADER_SIZE \<le> mst_pos (r_mst r) - mst_off (r_mst r)"
  shows "header_size (drop (mst_off (r_mst r)) (mst_hdr (r_mst r))) = header_size (unread r)"
proof (rule header_size_cong)
  have "take 2 (buffered (r_mst r)) = take 2 (drop (mst_off (r_mst r)) (mst_hdr (r_mst r)))"
    using assms(2) by (simp add: buffered_def min_def)
  then show "take 2 (drop (mst_off (r_mst r)) (mst_hdr (r_mst r))) = take 2 (unread r)"
    using length_buffered [OF assms(1)] assms(2) by (simp add: unread_def)
qed (use assms length_buffered [OF assms(1)] in \<open>auto simp: unread_def mst_ok_def\<close>)

lemma private_deliver_promised:
  assumes "mst_ok (r_mst r)" "header_size (unread r) = want" "HEADER_SIZE \<le> want"
    and "want \<le> mst_pos (r_mst r) - mst_off (r_mst r)" "r_one_shot r \<noteq> GNUNET_SYSERR"
  shows "promised purge cb r (private_deliver cb want r)"
proof -
  let ?msg = "take want (drop (mst_off (r_mst r)) (mst_hdr (r_mst r)))"
  let ?os = "if r_one_shot r = GNUNET_YES then GNUNET_SYSERR else r_one_shot r"
  let ?mst = "(r_mst r)\<lparr>mst_off := mst_off (r_mst r) + want\<rparr>"
  obtain cls' res where cb: "cb (r_cls r) ?msg = (cls', res)" by fastforce
  have len: "want \<le> length (unread r)" using length_buffered [OF assms(1)] assms(4) by (simp add: unread_def)
  have msg: "take want (unread r) = ?msg"
    using length_buffered [OF assms(1)] assms(4) by (simp add: unread_def buffered_def min_def)
  have rest: "drop want (unread r) = buffered ?mst @ r_buf r"
    using length_buffered [OF assms(1)] assms(4)
    by (simp add: unread_def buffered_def drop_take add.commute)
  have spec: "tokenize cb (r_one_shot r) (r_cls r) (unread r) =
      (if res = GNUNET_SYSERR then (cls', GNUNET_SYSERR, drop want (unread r))
       else tokenize cb ?os cls' (drop want (unread r)))"
    using assms(2-5) len msg cb by (subst tokenize.simps) (simp add: Let_def)
  have ok: "mst_ok ?mst" "mst_ok (?mst\<lparr>mst_off := 0, mst_pos := 0\<rparr>)" using assms(1,4) by (auto simp: mst_ok_def)
  have empty: "buffered ?mst = [] \<and> buffered (?mst\<lparr>mst_off := 0, mst_pos := 0\<rparr>) = []"
    if "mst_off ?mst = mst_pos ?mst" using that by (simp add: buffered_def)
  show ?thesis
    using cb ok empty unfolding promised_def spec rest
    by (auto simp: private_deliver_def deliver_def Let_def unread_def)
qed

text \<open>The three ways to go on once the header is read and the message loaded as far as possible.\<close>

lemma loaded_promised:
  assumes "mst_ok (r_mst r)" "header_size (unread r) = want" "HEADER_SIZE \<le> want" "HEADER_SIZE \<le> length (unread r)"
    and "mst_pos (r_mst r) - mst_off (r_mst r) < want \<longrightarrow> r_buf r = []"
  shows "promised purge cb r
    (if mst_pos (r_mst r) - mst_off (r_mst r) < want
     then Return GNUNET_OK (r\<lparr>r_mst := mst_purge purge (r_mst r)\<rparr>)
     else if r_one_shot r = GNUNET_SYSERR then Goto_copy GNUNET_NO r else private_deliver cb want r)"
    (is "promised purge cb r ?s")
proof -
  note spec = tokenize.simps [of cb "r_one_shot r" "r_cls r" "unread r"]
  consider "mst_pos (r_mst r) - mst_off (r_mst r) < want"
    | "\<not> mst_pos (r_mst r) - mst_off (r_mst r) < want" "r_one_shot r = GNUNET_SYSERR"
    | "\<not> mst_pos (r_mst r) - mst_off (r_mst r) < want" "r_one_shot r \<noteq> GNUNET_SYSERR" by blast
  then show ?thesis
  proof cases
    case 1
    then have "unread r = buffered (r_mst r)" using assms(5) by (simp add: unread_def)
    moreover from this have "tokenize cb (r_one_shot r) (r_cls r) (unread r) = (r_cls r, GNUNET_OK, unread r)"
      unfolding spec using 1 assms(2-4) length_buffered [OF assms(1)] by (simp add: Let_def)
    ultimately show ?thesis using 1 mst_purge_spec [OF assms(1)] by (simp add: promised_def)
  next
    case 2
    then have "want \<le> length (unread r)" using length_buffered [OF assms(1)] by (simp add: unread_def)
    then have "tokenize cb (r_one_shot r) (r_cls r) (unread r) = (r_cls r, GNUNET_NO, unread r)"
      unfolding spec using 2 assms(2-4) by (simp add: Let_def)
    then show ?thesis using 2 assms(1) by (simp add: promised_def)
  next
    case 3
    then show ?thesis using private_deliver_promised [OF assms(1-3)] by simp
  qed
qed

lemma promised_cong:
  "unread r' = unread r \<Longrightarrow> r_one_shot r' = r_one_shot r \<Longrightarrow> r_cls r' = r_cls r \<Longrightarrow>
     (\<And>q. s \<noteq> Goto_align q) \<Longrightarrow> promised purge cb r' s = promised purge cb r s"
  by (cases s) (auto simp: promised_def)

lemma private_deliver_not_align: "private_deliver cb want r \<noteq> Goto_align q"
  by (auto simp: private_deliver_def Let_def split: prod.splits)

lemma private_step_promised:
  assumes ok: "mst_ok (r_mst r)"
  obtains s where "private_step align pad purge cb r = Some s" "promised purge cb r s" "\<And>r'. s \<noteq> Goto_align r'"
proof -
  obtain r1 where l: "load_header align r = Some r1" "mst_ok (r_mst r1)" "unread r1 = unread r"
    "r_one_shot r1 = r_one_shot r" "r_cls r1 = r_cls r"
    "mst_pos (r_mst r1) - mst_off (r_mst r1) < HEADER_SIZE \<longrightarrow> r_buf r1 = []"
    by (rule load_header_spec [OF ok, of align])
  let ?want = "header_size (unread r)"
  note spec = tokenize.simps [of cb "r_one_shot r" "r_cls r" "unread r"]
  show thesis
  proof (cases "mst_pos (r_mst r1) - mst_off (r_mst r1) < HEADER_SIZE")
    case True
    then have "unread r = buffered (r_mst r1)" using l by (simp add: unread_def)
    then have "tokenize cb (r_one_shot r) (r_cls r) (unread r) = (r_cls r, GNUNET_OK, buffered (r_mst r1))"
      unfolding spec using True length_buffered [OF l(2)] by simp
    then show thesis
      using that [of "Return GNUNET_OK (r1\<lparr>r_mst := mst_purge purge (r_mst r1)\<rparr>)"] True l mst_purge_spec [OF l(2)]
      by (simp add: private_step_def promised_def)
  next
    case hdr: False
    then have want: "header_size (drop (mst_off (r_mst r1)) (mst_hdr (r_mst r1))) = ?want"
      using buffered_header [OF l(2)] l(3) by simp
    have len: "HEADER_SIZE \<le> length (unread r)"
      using hdr length_buffered [OF l(2)] unfolding l(3) [symmetric] by (simp add: unread_def)
    show thesis
    proof (cases "?want < HEADER_SIZE")
      case True
      then have "tokenize cb (r_one_shot r) (r_cls r) (unread r) = (r_cls r, GNUNET_SYSERR, unread r)"
        unfolding spec using len by (simp add: Let_def)
      then show thesis using that [of "Return GNUNET_SYSERR r1"] True hdr want l
        by (simp add: private_step_def promised_def)
    next
      case big: False
      obtain r2 where m: "load_message pad ?want r1 = Some r2" "mst_ok (r_mst r2)" "unread r2 = unread r1"
        "r_one_shot r2 = r_one_shot r1" "r_cls r2 = r_cls r1"
        "mst_pos (r_mst r2) - mst_off (r_mst r2) < ?want \<longrightarrow> r_buf r2 = []"
        by (rule load_message_spec [OF l(2), of pad ?want])
      define s where "s =
          (if mst_pos (r_mst r2) - mst_off (r_mst r2) < ?want
           then Return GNUNET_OK (r2\<lparr>r_mst := mst_purge purge (r_mst r2)\<rparr>)
           else if r_one_shot r2 = GNUNET_SYSERR then Goto_copy GNUNET_NO r2 else private_deliver cb ?want r2)"
      have "private_step align pad purge cb r = Some s"
        using hdr want big l(1) m(1) by (simp add: private_step_def s_def Let_def)
      moreover have na: "s \<noteq> Goto_align q" for q by (simp add: s_def private_deliver_not_align)
      moreover have "promised purge cb r2 s"
        unfolding s_def by (rule loaded_promised) (use l m big len in auto)
      then have "promised purge cb r s" using promised_cong [of r2 r s] l m na by simp
      ultimately show thesis using that by blast
    qed
  qed
qed

lemma direct_step_promised:
  assumes "mst_ok (r_mst r)" "mst_pos (r_mst r) = 0"
  shows "promised purge cb r (direct_step align cb r)"
proof -
  have u: "unread r = r_buf r" using assms(2) by (simp add: unread_def buffered_def)
  have b: "buffered (r_mst r) = []" "mst_ok ((r_mst r)\<lparr>mst_off := 0\<rparr>)"
    using assms by (simp_all add: buffered_def mst_ok_def)
  obtain cls' res where cb: "cb (r_cls r) (take (header_size (r_buf r)) (r_buf r)) = (cls', res)" by fastforce
  show ?thesis
    using assms b cb unfolding promised_def u
    by (subst tokenize.simps) (auto simp: direct_step_def deliver_def Let_def unread_def)
qed

lemma finish_copy_spec:
  assumes "mst_ok (r_mst r)"
  obtains r' where "finish_copy pad purge r = Some r'" "mst_ok (r_mst r')" "r_cls r' = r_cls r"
    "buffered (r_mst r') = (if purge \<noteq> 0 then [] else unread r)"
proof (cases "r_buf r \<noteq> [] \<and> purge = 0")
  case True
  let ?m = "if length (r_buf r) + mst_pos (r_mst r) > curr_buf (r_mst r)
            then grow_buffer pad (length (r_buf r) + mst_pos (r_mst r)) (r_mst r) else r_mst r"
  have "mst_ok ?m" "mst_pos ?m + length (r_buf r) \<le> curr_buf ?m" "buffered ?m = buffered (r_mst r)"
    using assms by (auto simp: grow_buffer_def mst_ok_def buffered_def)
  moreover obtain m' where m': "copy_in (r_buf r) ?m = Some m'" "mst_ok m'" "buffered m' = buffered ?m @ r_buf r"
    by (rule copy_in_spec [OF calculation(1,2)])
  ultimately show thesis
    using that [of "r\<lparr>r_mst := m'\<rparr>"] True by (simp add: finish_copy_def Let_def mst_purge_def unread_def)
next
  case False
  then show thesis
    using that [of "r\<lparr>r_mst := mst_purge purge (r_mst r)\<rparr>"] mst_purge_spec [OF assms, of purge]
    by (auto simp: finish_copy_def unread_def)
qed

section \<open>The whole call\<close>

definition result_ok :: "int \<Rightarrow> 'c callback \<Rightarrow> 'c receive_state \<Rightarrow> ('c receive_state \<times> int) option \<Rightarrow> bool" where
  "result_ok purge cb r res \<longleftrightarrow>
     (\<exists>r' ret rest. res = Some (r', ret) \<and> mst_ok (r_mst r') \<and>
        tokenize cb (r_one_shot r) (r_cls r) (unread r) = (r_cls r', ret, rest) \<and>
        (ret \<noteq> GNUNET_SYSERR \<longrightarrow> buffered (r_mst r') = (if purge \<noteq> 0 then [] else rest)))"

lemma result_ok_copy:
  assumes "promised purge cb r (Goto_copy ret r1)"
  shows "result_ok purge cb r (map_option (\<lambda>r2. (r2, ret)) (finish_copy pad purge r1))"
proof -
  have "mst_ok (r_mst r1)" using assms by (simp add: promised_def)
  then obtain r' where "finish_copy pad purge r1 = Some r'" "mst_ok (r_mst r')" "r_cls r' = r_cls r1"
    "buffered (r_mst r') = (if purge \<noteq> 0 then [] else unread r1)"
    by (rule finish_copy_spec)
  then show ?thesis using assms by (simp add: promised_def result_ok_def)
qed

lemma result_ok_return: "promised purge cb r (Return ret r1) \<Longrightarrow> result_ok purge cb r (Some (r1, ret))"
  by (simp add: promised_def result_ok_def)

lemma result_ok_again:
  "promised purge cb r (Again r1) \<Longrightarrow> result_ok purge cb r1 res \<Longrightarrow> result_ok purge cb r res"
  by (simp add: promised_def result_ok_def)

lemma direct_step_frame: "direct_step align cb r = Again r' \<Longrightarrow> r_mst r' = r_mst r"
  by (auto simp: direct_step_def Let_def dest!: deliver_frame split: if_splits prod.splits)

lemma mst_loop_spec:
  "mst_ok (r_mst r) \<Longrightarrow> in_private \<or> mst_pos (r_mst r) = 0 \<Longrightarrow>
     result_ok purge cb r (mst_loop align pad purge cb in_private r)"
proof (induction align pad purge cb in_private r rule: mst_loop.induct)
  case (1 align pad purge cb in_private r)
  let ?s = "if in_private then Goto_align r else if r_buf r = [] then Goto_copy GNUNET_OK r else direct_step align cb r"
  show ?case
  proof (cases "in_private \<and> mst_pos (r_mst r) = 0")
    case True
    then show ?thesis using "1.IH"(1) "1.prems" by (subst mst_loop.simps) simp
  next
    case False
    have p: "promised purge cb r ?s"
    proof -
      have "promised purge cb r (Goto_copy GNUNET_OK r)" if "\<not> in_private" "r_buf r = []"
        using that "1.prems" False tokenize.simps [of cb "r_one_shot r" "r_cls r" "[]"]
        by (simp add: promised_def unread_def buffered_def)
      moreover have "promised purge cb r (Goto_align r)" by (simp add: promised_def)
      moreover have "promised purge cb r (direct_step align cb r)" if "\<not> in_private"
        using direct_step_promised [OF "1.prems"(1)] "1.prems"(2) that by blast
      ultimately show ?thesis by simp
    qed
    obtain s where s: "private_step align pad purge cb r = Some s" "promised purge cb r s" "\<And>q. s \<noteq> Goto_align q"
      using private_step_promised [OF "1.prems"(1)] by blast
    show ?thesis
    proof (cases ?s)
      case (Again r1)
      then have "\<not> in_private" "direct_step align cb r = Again r1" by (auto split: if_splits)
      then have "mst_pos (r_mst r1) = 0" using direct_step_frame "1.prems"(2) by metis
      moreover have "mst_ok (r_mst r1)" using p unfolding Again by (simp add: promised_def)
      ultimately have "result_ok purge cb r1 (mst_loop align pad purge cb False r1)"
        using "1.IH"(2) False Again by blast
      moreover have "mst_loop align pad purge cb in_private r = mst_loop align pad purge cb False r1"
        using False Again by (subst mst_loop.simps) (simp only: if_False receive_step.case)
      ultimately show ?thesis using result_ok_again p unfolding Again by simp
    next
      case (Goto_copy ret r1)
      have "mst_loop align pad purge cb in_private r = map_option (\<lambda>r2. (r2, ret)) (finish_copy pad purge r1)"
        using False Goto_copy by (subst mst_loop.simps) (simp only: if_False receive_step.case)
      then show ?thesis using result_ok_copy p unfolding Goto_copy by simp
    next
      case (Return ret r1)
      have "mst_loop align pad purge cb in_private r = Some (r1, ret)"
        using False Return by (subst mst_loop.simps) (simp only: if_False receive_step.case)
      then show ?thesis using result_ok_return p unfolding Return by simp
    next
      case (Goto_align r1)
      then have r1: "r1 = r" using p by (simp add: promised_def)
      have loop: "mst_loop align pad purge cb in_private r =
          (case s of Again r2 \<Rightarrow> mst_loop align pad purge cb True r2 | Goto_align r2 \<Rightarrow> None
           | Goto_copy ret r2 \<Rightarrow> map_option (\<lambda>r3. (r3, ret)) (finish_copy pad purge r2)
           | Return ret r2 \<Rightarrow> Some (r2, ret))"
        using False Goto_align s(1) r1
        by (subst mst_loop.simps) (simp only: if_False receive_step.case option.case)
      show ?thesis
      proof (cases s)
        case (Again r2)
        then have "mst_ok (r_mst r2)" using s(2) by (simp add: promised_def)
        then have "result_ok purge cb r2 (mst_loop align pad purge cb True r2)"
          using "1.IH"(3) False Goto_align s(1) Again r1 by blast
        then show ?thesis using result_ok_again s(2) by (simp add: loop Again)
      qed (use s result_ok_copy result_ok_return loop in auto)
    qed
  qed
qed

lemma mst_receive_spec:
  assumes "mst_ok mst"
  obtains mst' cls' ret rest where
    "GNUNET_SERVER_mst_receive align pad cb mst cls addr buf purge one_shot = Some (mst', cls', ret)" "mst_ok mst'"
    "tokenize cb one_shot cls (buffered mst @ buf) = (cls', ret, rest)"
    "ret \<noteq> GNUNET_SYSERR \<longrightarrow> buffered mst' = (if purge \<noteq> 0 then [] else rest)"
proof -
  let ?r = "\<lparr>r_mst = mst, r_buf = buf, r_addr = addr, r_one_shot = one_shot, r_cls = cls\<rparr>"
  have "result_ok purge cb ?r (mst_loop align pad purge cb True ?r)"
    using assms by (intro mst_loop_spec) simp_all
  then obtain r' ret rest where r: "mst_loop align pad purge cb True ?r = Some (r', ret)" "mst_ok (r_mst r')"
    "tokenize cb one_shot cls (buffered mst @ buf) = (r_cls r', ret, rest)"
    "ret \<noteq> GNUNET_SYSERR \<longrightarrow> buffered (r_mst r') = (if purge \<noteq> 0 then [] else rest)"
    unfolding result_ok_def by (auto simp: unread_def)
  then have "GNUNET_SERVER_mst_receive align pad cb mst cls addr buf purge one_shot = Some (r_mst r', r_cls r', ret)"
    using assms by (simp add: GNUNET_SERVER_mst_receive_def mst_ok_def)
  then show thesis using that r(2-4) by blast
qed

lemma mst_create_ok: "mst_ok GNUNET_SERVER_mst_create \<and> buffered GNUNET_SERVER_mst_create = []"
  by (simp add: mst_ok_def buffered_def GNUNET_SERVER_mst_create_def GNUNET_SERVER_MIN_BUFFER_SIZE_def)

section \<open>Cutting the stream into pieces\<close>

lemma header_size_append: "HEADER_SIZE \<le> length a \<Longrightarrow> header_size (a @ b) = header_size a"
  by (rule header_size_cong) auto

lemma tokenize_rest:
  assumes "tokenize cb one_shot cls a = (cls', GNUNET_OK, rest)" "one_shot = GNUNET_NO"
  shows "tokenize cb GNUNET_NO c rest = (c, GNUNET_OK, rest)"
  using assms
proof (induction cb one_shot cls a rule: tokenize.induct)
  case (1 cb one_shot cls a)
  let ?want = "header_size a"
  obtain cls1 res where cb: "cb cls (take ?want a) = (cls1, res)" by fastforce
  show ?case
  proof (cases "length a < HEADER_SIZE \<or> ?want < HEADER_SIZE \<or> length a < ?want")
    case True
    then have "rest = a \<and> (length a < HEADER_SIZE \<or> HEADER_SIZE \<le> ?want)"
      using "1.prems" tokenize.simps [of cb one_shot cls a] by (auto simp: Let_def split: if_splits)
    then show ?thesis using True tokenize.simps [of cb GNUNET_NO c a] by (auto simp: Let_def)
  next
    case False
    then have "res \<noteq> GNUNET_SYSERR \<and> tokenize cb one_shot cls1 (drop ?want a) = (cls', GNUNET_OK, rest)"
      using cb "1.prems" tokenize.simps [of cb one_shot cls a] by (auto simp: Let_def split: if_splits)
    then show ?thesis using "1.IH" [OF _ refl _ _ _ cb [symmetric]] False "1.prems"(2) by simp
  qed
qed

lemma tokenize_append:
  assumes "tokenize cb one_shot cls a = (cls', ret, rest)" "one_shot = GNUNET_NO"
  shows "(ret = GNUNET_OK \<longrightarrow> tokenize cb GNUNET_NO cls (a @ b) = tokenize cb GNUNET_NO cls' (rest @ b)) \<and>
    (ret = GNUNET_SYSERR \<longrightarrow> tokenize cb GNUNET_NO cls (a @ b) = (cls', GNUNET_SYSERR, rest @ b)) \<and>
    ret \<in> {GNUNET_OK, GNUNET_SYSERR}"
  using assms
proof (induction cb one_shot cls a rule: tokenize.induct)
  case (1 cb one_shot cls a)
  let ?want = "header_size a"
  obtain cls1 res where cb: "cb cls (take ?want a) = (cls1, res)" by fastforce
  show ?case
  proof (cases "length a < HEADER_SIZE \<or> ?want < HEADER_SIZE \<or> length a < ?want")
    case stop: True
    show ?thesis
    proof (cases "length a < HEADER_SIZE \<or> HEADER_SIZE \<le> ?want")
      case True
      then have "tokenize cb one_shot cls a = (cls, GNUNET_OK, a)"
        using stop tokenize.simps [of cb one_shot cls a] by (auto simp: Let_def)
      then show ?thesis using "1.prems" by simp
    next
      case False
      then show ?thesis
        using "1.prems" header_size_append [of a b] tokenize.simps [of cb one_shot cls a]
          tokenize.simps [of cb GNUNET_NO cls "a @ b"] by simp
    qed
  next
    case False
    have a: "tokenize cb one_shot cls a = (if res = GNUNET_SYSERR then (cls1, GNUNET_SYSERR, drop ?want a)
        else tokenize cb one_shot cls1 (drop ?want a))"
      using False cb "1.prems"(2) tokenize.simps [of cb one_shot cls a] by (auto simp: Let_def)
    have ab: "tokenize cb GNUNET_NO cls (a @ b) = (if res = GNUNET_SYSERR then (cls1, GNUNET_SYSERR, drop ?want a @ b)
        else tokenize cb GNUNET_NO cls1 (drop ?want a @ b))"
      using False cb header_size_append [of a b] tokenize.simps [of cb GNUNET_NO cls "a @ b"] by (auto simp: Let_def)
    show ?thesis
    proof (cases "res = GNUNET_SYSERR")
      case True
      then show ?thesis using "1.prems"(1) a ab by auto
    next
      case go: False
      then show ?thesis using "1.IH" [OF _ refl _ _ _ cb [symmetric] go] False "1.prems" a ab by simp
    qed
  qed
qed

section \<open>Properties\<close>

text \<open>
  C1: Receiving bytes never fails an assertion and never writes outside of the buffer, and it does
  exactly what reading messages off the concatenation of the buffered and the new bytes does: the
  same callbacks with the same messages, the same return code, and the unread rest is kept (or
  discarded on purge).
\<close>

theorem mst_receive_correct:
  assumes "mst_ok mst"
  shows "\<exists>mst' cls' ret rest.
    GNUNET_SERVER_mst_receive align pad cb mst cls addr buf purge one_shot = Some (mst', cls', ret) \<and>
    mst_ok mst' \<and> tokenize cb one_shot cls (buffered mst @ buf) = (cls', ret, rest) \<and>
    (ret \<noteq> GNUNET_SYSERR \<longrightarrow> buffered mst' = (if purge \<noteq> 0 then [] else rest))"
  using mst_receive_spec [OF assms] by metis

theorem mst_receive_correct_witness:
  "\<exists>mst' rest. GNUNET_SERVER_mst_receive 8 0 (\<lambda>n msg. (n + length msg, GNUNET_OK)) GNUNET_SERVER_mst_create 0 3
       [0, 4, 0, 1, 0] GNUNET_NO GNUNET_NO = Some (mst', 4, GNUNET_OK) \<and> buffered mst' = [0]"
proof -
  have "tokenize (\<lambda>n msg. (n + length msg, GNUNET_OK)) GNUNET_NO 0 [0, 4, 0, 1, 0] = (4, GNUNET_OK, [0])"
    by (simp add: tokenize.simps header_size_def)
  then show ?thesis
    using mst_receive_correct [of GNUNET_SERVER_mst_create 8 0 "\<lambda>n msg. (n + length msg, GNUNET_OK)" 0 3
        "[0, 4, 0, 1, 0]" GNUNET_NO GNUNET_NO] mst_create_ok by auto
qed

fun receive_all ::
    "nat \<Rightarrow> byte \<Rightarrow> 'c callback \<Rightarrow> GNUNET_SERVER_MessageStreamTokenizer \<Rightarrow> 'c \<Rightarrow> (nat \<times> byte list) list \<Rightarrow>
     (GNUNET_SERVER_MessageStreamTokenizer \<times> 'c \<times> int) option" where
  "receive_all align pad cb mst cls [] = Some (mst, cls, GNUNET_OK)"
| "receive_all align pad cb mst cls ((addr, buf) # chunks) =
     (case GNUNET_SERVER_mst_receive align pad cb mst cls addr buf GNUNET_NO GNUNET_NO of
        None \<Rightarrow> None
      | Some (mst', cls', ret) \<Rightarrow>
          if ret = GNUNET_SYSERR then Some (mst', cls', ret) else receive_all align pad cb mst' cls' chunks)"

lemma receive_all_spec:
  assumes "mst_ok mst" "tokenize cb GNUNET_NO cls (buffered mst) = (cls, GNUNET_OK, buffered mst)"
  shows "\<exists>mst' cls' ret rest. receive_all align pad cb mst cls chunks = Some (mst', cls', ret) \<and> mst_ok mst' \<and>
    tokenize cb GNUNET_NO cls (buffered mst @ concat (map snd chunks)) = (cls', ret, rest) \<and>
    (ret \<noteq> GNUNET_SYSERR \<longrightarrow> buffered mst' = rest)"
  using assms
proof (induction chunks arbitrary: mst cls)
  case (Cons chunk chunks)
  obtain addr buf where c: "chunk = (addr, buf)" by fastforce
  obtain m1 cls1 ret1 rest1 where r: "GNUNET_SERVER_mst_receive align pad cb mst cls addr buf GNUNET_NO GNUNET_NO =
      Some (m1, cls1, ret1)" "mst_ok m1" "tokenize cb GNUNET_NO cls (buffered mst @ buf) = (cls1, ret1, rest1)"
    "ret1 \<noteq> GNUNET_SYSERR \<longrightarrow> buffered m1 = (if GNUNET_NO \<noteq> 0 then [] else rest1)"
    by (rule mst_receive_spec [OF Cons.prems(1), of align pad cb cls addr buf GNUNET_NO GNUNET_NO])
  note app = tokenize_append [OF r(3) refl]
  show ?case
  proof (cases "ret1 = GNUNET_SYSERR")
    case True
    then show ?thesis using r app [of "concat (map snd chunks)"] c by simp
  next
    case False
    then have ok: "ret1 = GNUNET_OK" using app by auto
    have "tokenize cb GNUNET_NO cls1 rest1 = (cls1, GNUNET_OK, rest1)"
      by (rule tokenize_rest [OF r(3) [unfolded ok] refl])
    then show ?thesis
      using Cons.IH [OF r(2), of cls1] False r app [of "concat (map snd chunks)"] c by auto
  qed
qed simp

text \<open>
  C2: However a byte stream is cut into pieces and wherever the pieces lie in memory, feeding them to
  a fresh tokenizer one after the other has the same effect as reading the messages off the whole
  stream: same callbacks, same verdict on corrupt data, same unread rest.
\<close>

theorem mst_chunking_irrelevant:
  "\<exists>mst' cls' ret rest. receive_all align pad cb GNUNET_SERVER_mst_create cls chunks = Some (mst', cls', ret) \<and>
     tokenize cb GNUNET_NO cls (concat (map snd chunks)) = (cls', ret, rest) \<and>
     (ret \<noteq> GNUNET_SYSERR \<longrightarrow> buffered mst' = rest)"
proof -
  have "tokenize cb GNUNET_NO cls [] = (cls, GNUNET_OK, [])" by (subst tokenize.simps) simp
  then show ?thesis
    using receive_all_spec [of GNUNET_SERVER_mst_create cb cls align pad chunks] mst_create_ok by auto
qed

theorem mst_chunking_irrelevant_witness:
  "\<exists>mst'. receive_all 8 0 (\<lambda>n msg. (n + length msg, GNUNET_OK)) GNUNET_SERVER_mst_create 0
      [(1, [0]), (7, [4, 0]), (16, [1, 0, 9])] = Some (mst', 4, GNUNET_OK) \<and> buffered mst' = [0, 9]"
proof -
  have "tokenize (\<lambda>n msg. (n + length msg, GNUNET_OK)) GNUNET_NO 0 [0, 4, 0, 1, 0, 9] = (4, GNUNET_OK, [0, 9])"
    by (simp add: tokenize.simps header_size_def)
  then show ?thesis
    using mst_chunking_irrelevant [of 8 0 "\<lambda>n msg. (n + length msg, GNUNET_OK)" 0 "[(1, [0]), (7, [4, 0]), (16, [1, 0, 9])]"]
    by auto
qed

definition valid_message :: "byte list \<Rightarrow> bool" where
  "valid_message msg \<longleftrightarrow> HEADER_SIZE \<le> length msg \<and> header_size msg = length msg"

lemma tokenize_messages:
  "\<forall>msg \<in> set msgs. valid_message msg \<Longrightarrow>
     tokenize (\<lambda>seen msg. (seen @ [msg], GNUNET_OK)) GNUNET_NO seen (concat msgs) = (seen @ msgs, GNUNET_OK, [])"
proof (induction msgs arbitrary: seen)
  case Nil
  then show ?case by (subst tokenize.simps) simp
next
  case (Cons msg msgs)
  then have v: "HEADER_SIZE \<le> length msg" "header_size (msg @ concat msgs) = length msg"
    using header_size_append by (auto simp: valid_message_def)
  have "tokenize (\<lambda>seen msg. (seen @ [msg], GNUNET_OK)) GNUNET_NO seen (msg @ concat msgs) =
      tokenize (\<lambda>seen msg. (seen @ [msg], GNUNET_OK)) GNUNET_NO (seen @ [msg]) (concat msgs)"
    using v by (subst tokenize.simps) simp
  then show ?case using Cons by simp
qed

text \<open>
  C3: A sequence of well-formed messages, serialised and cut into arbitrary pieces, is delivered to
  the callback message by message, complete and in order, and nothing stays in the buffer.
\<close>

theorem mst_delivers_messages:
  assumes "\<forall>msg \<in> set msgs. valid_message msg" "concat (map snd chunks) = concat msgs"
  shows "\<exists>mst'. receive_all align pad (\<lambda>seen msg. (seen @ [msg], GNUNET_OK)) GNUNET_SERVER_mst_create [] chunks =
      Some (mst', msgs, GNUNET_OK) \<and> buffered mst' = []"
proof -
  let ?cb = "\<lambda>seen msg. (seen @ [msg], GNUNET_OK)"
  have t: "tokenize ?cb GNUNET_NO [] (concat (map snd chunks)) = (msgs, GNUNET_OK, [])"
    using tokenize_messages [OF assms(1), of "[]"] assms(2) by simp
  have "tokenize ?cb GNUNET_NO [] [] = ([], GNUNET_OK, [])" by (subst tokenize.simps) simp
  then show ?thesis
    using receive_all_spec [of GNUNET_SERVER_mst_create ?cb "[]" align pad chunks] mst_create_ok t by auto
qed

theorem mst_delivers_messages_witness:
  "\<exists>mst'. receive_all 8 0 (\<lambda>seen msg. (seen @ [msg], GNUNET_OK)) GNUNET_SERVER_mst_create []
      [(16, [0, 5]), (3, [0, 1, 7, 0]), (8, [4, 0, 2])] =
      Some (mst', [[0, 5, 0, 1, 7], [0, 4, 0, 2]], GNUNET_OK) \<and> buffered mst' = []"
  by (rule mst_delivers_messages) (simp_all add: valid_message_def header_size_def)

end
