(* ===== verification/Container_SList.thy ===== *)
theory Container_SList
  imports Prelude "HOL-Library.Monad_Syntax"
begin

text \<open>
  The singly linked list of \<^verbatim>\<open>src/src/util/container_slist.c\<close> on an explicit store: a map from
  addresses to list elements.  The operations change the \<^verbatim>\<open>next\<close> pointers, the head, the tail and
  the length in place, as the code does; following a pointer to an address that is not allocated is
  the failure \<open>None\<close>.  \<^verbatim>\<open>GNUNET_malloc\<close> is the argument \<open>malloc\<close>, a function that picks an address
  for a store; what the code relies on is that the address is free.  An element's data are the bytes
  it points to.  Loops along the \<^verbatim>\<open>next\<close> pointers are \<^verbatim>\<open>partial_function\<close>s, whose result is \<open>None\<close> when
  they do not end; the lemmas show that they end on every list that the operations build.

  \<open>list_at\<close> relates a list structure in the store with the sequence of its addresses; every operation
  is shown to act on the abstract sequence.
\<close>

datatype GNUNET_CONTAINER_SListDisposition =
  GNUNET_CONTAINER_SLIST_DISPOSITION_TRANSIENT
| GNUNET_CONTAINER_SLIST_DISPOSITION_STATIC
| GNUNET_CONTAINER_SLIST_DISPOSITION_DYNAMIC

record GNUNET_CONTAINER_SList_Elem =
  se_next :: "nat option"
  se_elem :: "byte list"
  se_disp :: GNUNET_CONTAINER_SListDisposition

record GNUNET_CONTAINER_SList =
  sl_head :: "nat option"
  sl_tail :: "nat option"
  sl_length :: u32

record GNUNET_CONTAINER_SList_Iterator =
  it_last :: "nat option"
  it_elem :: "nat option"

type_synonym slist_store = "nat \<rightharpoonup> GNUNET_CONTAINER_SList_Elem"
type_synonym slist_state = "slist_store \<times> GNUNET_CONTAINER_SList"

definition create_elem :: "GNUNET_CONTAINER_SListDisposition \<Rightarrow> byte list \<Rightarrow> GNUNET_CONTAINER_SList_Elem" where
  "create_elem disp buf = \<lparr>se_next = None, se_elem = buf, se_disp = disp\<rparr>"


definition GNUNET_CONTAINER_slist_create :: GNUNET_CONTAINER_SList where
  "GNUNET_CONTAINER_slist_create = \<lparr>sl_head = None, sl_tail = None, sl_length = 0\<rparr>"

definition GNUNET_CONTAINER_slist_add ::
    "(slist_store \<Rightarrow> nat) \<Rightarrow> slist_state \<Rightarrow> GNUNET_CONTAINER_SListDisposition \<Rightarrow> byte list \<Rightarrow> slist_state" where
  "GNUNET_CONTAINER_slist_add malloc st disp buf =
     (case st of
        (s, l) \<Rightarrow>
          (let a = malloc s;
               e = (create_elem disp buf)\<lparr>se_next := sl_head l\<rparr>
           in (s(a \<mapsto> e),
               l\<lparr>sl_head := Some a,
                 sl_tail := (if sl_tail l = None then Some a else sl_tail l),
                 sl_length := sl_length l + 1\<rparr>)))"


definition GNUNET_CONTAINER_slist_begin :: "GNUNET_CONTAINER_SList \<Rightarrow> GNUNET_CONTAINER_SList_Iterator" where
  "GNUNET_CONTAINER_slist_begin l = \<lparr>it_last = None, it_elem = sl_head l\<rparr>"

definition GNUNET_CONTAINER_slist_next ::
    "slist_store \<Rightarrow> GNUNET_CONTAINER_SList_Iterator \<Rightarrow> (GNUNET_CONTAINER_SList_Iterator \<times> int) option" where
  "GNUNET_CONTAINER_slist_next s i =
     do { a \<leftarrow> it_elem i;
          e \<leftarrow> s a;
          Some (\<lparr>it_last = it_elem i, it_elem = se_next e\<rparr>,
                if se_next e \<noteq> None then GNUNET_YES else GNUNET_NO) }"

definition GNUNET_CONTAINER_slist_end :: "GNUNET_CONTAINER_SList_Iterator \<Rightarrow> int" where
  "GNUNET_CONTAINER_slist_end i = (if it_elem i = None then GNUNET_YES else GNUNET_NO)"

definition GNUNET_CONTAINER_slist_get ::
    "slist_store \<Rightarrow> GNUNET_CONTAINER_SList_Iterator \<Rightarrow> byte list option" where
  "GNUNET_CONTAINER_slist_get s i = do { a \<leftarrow> it_elem i; e \<leftarrow> s a; Some (se_elem e) }"

text \<open>The loop of \<^verbatim>\<open>slist_append\<close>: both lists live in the same store.\<close>

partial_function (option) append_loop ::
    "(slist_store \<Rightarrow> nat) \<Rightarrow> GNUNET_CONTAINER_SList_Iterator \<Rightarrow> slist_state \<Rightarrow> slist_state option" where
  "append_loop malloc i dst =
     (if GNUNET_CONTAINER_slist_end i \<noteq> GNUNET_YES
      then do { a \<leftarrow> it_elem i;
                e \<leftarrow> fst dst a;
                (let dst' = GNUNET_CONTAINER_slist_add malloc dst
                       (if se_disp e = GNUNET_CONTAINER_SLIST_DISPOSITION_STATIC
                        then GNUNET_CONTAINER_SLIST_DISPOSITION_STATIC
                        else GNUNET_CONTAINER_SLIST_DISPOSITION_TRANSIENT) (se_elem e)
                 in do { r \<leftarrow> GNUNET_CONTAINER_slist_next (fst dst') i;
                         append_loop malloc (fst r) dst' }) }
      else Some dst)"

definition GNUNET_CONTAINER_slist_append ::
    "(slist_store \<Rightarrow> nat) \<Rightarrow> slist_state \<Rightarrow> GNUNET_CONTAINER_SList \<Rightarrow> slist_state option" where
  "GNUNET_CONTAINER_slist_append malloc dst src =
     append_loop malloc (GNUNET_CONTAINER_slist_begin src) dst"

partial_function (option) clear_loop :: "nat option \<Rightarrow> slist_store \<Rightarrow> slist_store option" where
  "clear_loop p s =
     (case p of
        None \<Rightarrow> Some s
      | Some a \<Rightarrow> do { e \<leftarrow> s a; clear_loop (se_next e) (s(a := None)) })"

definition GNUNET_CONTAINER_slist_clear :: "slist_state \<Rightarrow> slist_state option" where
  "GNUNET_CONTAINER_slist_clear st =
     do { s \<leftarrow> clear_loop (sl_head (snd st)) (fst st);
          Some (s, (snd st)\<lparr>sl_head := None, sl_tail := None, sl_length := 0\<rparr>) }"

definition GNUNET_CONTAINER_slist_destroy :: "slist_state \<Rightarrow> slist_store option" where
  "GNUNET_CONTAINER_slist_destroy st = map_option fst (GNUNET_CONTAINER_slist_clear st)"








section \<open>Lists in the store\<close>

primrec chain :: "slist_store \<Rightarrow> nat option \<Rightarrow> nat list \<Rightarrow> nat option \<Rightarrow> bool" where
  "chain s p [] q \<longleftrightarrow> p = q"
| "chain s p (a # as) q \<longleftrightarrow> p = Some a \<and> (\<exists>e. s a = Some e \<and> chain s (se_next e) as q)"

definition list_at :: "slist_state \<Rightarrow> nat list \<Rightarrow> bool" where
  "list_at st as \<longleftrightarrow> chain (fst st) (sl_head (snd st)) as None \<and> distinct as \<and>
     sl_tail (snd st) = (if as = [] then None else Some (last as)) \<and> sl_length (snd st) = of_nat (length as)"

definition contents :: "slist_store \<Rightarrow> nat list \<Rightarrow> byte list list" where
  "contents s as = map (\<lambda>a. se_elem (the (s a))) as"

lemma chain_frame: "chain s p as q \<Longrightarrow> a \<notin> set as \<Longrightarrow> chain (s(a := x)) p as q"
  by (induction as arbitrary: p) auto

lemma chain_append: "chain s p (as @ bs) q \<longleftrightarrow> (\<exists>m. chain s p as m \<and> chain s m bs q)"
  by (induction as arbitrary: p) auto

lemma chain_dom: "chain s p as q \<Longrightarrow> set as \<subseteq> dom s"
  by (induction as arbitrary: p) auto

lemma contents_frame: "a \<notin> set as \<Longrightarrow> contents (s(a := x)) as = contents s as"
  by (simp add: contents_def)

lemma chain_head: "chain s p as None \<Longrightarrow> p = (case as of [] \<Rightarrow> None | a # _ \<Rightarrow> Some a)"
  by (cases as) auto


definition fresh_malloc :: "(slist_store \<Rightarrow> nat) \<Rightarrow> bool" where
  "fresh_malloc malloc \<longleftrightarrow> (\<forall>s. finite (dom s) \<longrightarrow> malloc s \<notin> dom s)"

lemma slist_add_spec:
  assumes "list_at (s, l) as" "malloc s \<notin> dom s" "GNUNET_CONTAINER_slist_add malloc (s, l) disp buf = (s', l')"
  shows "list_at (s', l') (malloc s # as)" "contents s' (malloc s # as) = buf # contents s as"
    "s' = s(malloc s \<mapsto> \<lparr>se_next = sl_head l, se_elem = buf, se_disp = disp\<rparr>)"
proof -
  let ?a = "malloc s"
  have n: "?a \<notin> set as" using assms(1,2) chain_dom by (fastforce simp: list_at_def)
  show s': "s' = s(?a \<mapsto> \<lparr>se_next = sl_head l, se_elem = buf, se_disp = disp\<rparr>)"
    using assms(3) by (auto simp: GNUNET_CONTAINER_slist_add_def create_elem_def Let_def)
  show "list_at (s', l') (?a # as)"
    using assms(1,3) n chain_frame [of s "sl_head l" as None ?a]
    by (auto simp: list_at_def s' GNUNET_CONTAINER_slist_add_def Let_def)
  show "contents s' (?a # as) = buf # contents s as" using n by (simp add: s' contents_def)
qed


text \<open>An iterator between two parts of a list: \<open>last\<close> is the end of the first, \<open>elem\<close> the start of the second.\<close>

definition iterator_at :: "GNUNET_CONTAINER_SList_Iterator \<Rightarrow> nat list \<Rightarrow> nat list \<Rightarrow> bool" where
  "iterator_at i as bs \<longleftrightarrow> it_last i = (if as = [] then None else Some (last as)) \<and>
     it_elem i = (case bs of [] \<Rightarrow> None | b # _ \<Rightarrow> Some b)"

lemma iterator_begin: "list_at (s, l) as \<Longrightarrow> iterator_at (GNUNET_CONTAINER_slist_begin l) [] as"
  by (auto simp: iterator_at_def GNUNET_CONTAINER_slist_begin_def list_at_def dest: chain_head)

lemma iterator_next:
  assumes "list_at (s, l) (as @ b # bs)" "iterator_at i as (b # bs)"
  obtains i' where "GNUNET_CONTAINER_slist_next s i = Some (i', if bs = [] then GNUNET_NO else GNUNET_YES)"
    "iterator_at i' (as @ [b]) bs"
proof -
  obtain e where e: "s b = Some e" "chain s (se_next e) bs None"
    using assms(1) by (auto simp: list_at_def chain_append)
  then have "se_next e = (case bs of [] \<Rightarrow> None | c # _ \<Rightarrow> Some c)" using chain_head by blast
  then show thesis
    using that [of "\<lparr>it_last = Some b, it_elem = se_next e\<rparr>"] e assms(2)
    by (auto simp: GNUNET_CONTAINER_slist_next_def iterator_at_def split: list.splits)
qed






lemma append_loop_spec:
  assumes "chain s (it_elem i) bs None" "list_at (s, l) as" "set as \<inter> set bs = {}" "fresh_malloc malloc" "finite (dom s)"
  shows "\<exists>s' l' as'. append_loop malloc i (s, l) = Some (s', l') \<and> list_at (s', l') (as' @ as) \<and>
    contents s' (as' @ as) = rev (contents s bs) @ contents s as \<and> finite (dom s') \<and> (\<forall>a \<in> dom s. s' a = s a)"
  using assms
proof (induction bs arbitrary: i s l as)
  case Nil
  then show ?case
    by (subst append_loop.simps) (auto simp: GNUNET_CONTAINER_slist_end_def contents_def intro!: exI [of _ "[]"])
next
  case (Cons b bs)
  then obtain e where e: "it_elem i = Some b" "s b = Some e" "chain s (se_next e) bs None" by auto
  define d where "d = (if se_disp e = GNUNET_CONTAINER_SLIST_DISPOSITION_STATIC
      then GNUNET_CONTAINER_SLIST_DISPOSITION_STATIC else GNUNET_CONTAINER_SLIST_DISPOSITION_TRANSIENT)"
  obtain s1 l1 where add: "GNUNET_CONTAINER_slist_add malloc (s, l) d (se_elem e) = (s1, l1)" by fastforce
  have fr: "malloc s \<notin> dom s" using Cons.prems(4,5) by (simp add: fresh_malloc_def)
  note spec = slist_add_spec [OF Cons.prems(2) fr add]
  have old: "s1 a = s a" if "a \<in> dom s" for a using that fr spec(3) by auto
  have nm: "malloc s \<notin> set bs" "malloc s \<noteq> b" using chain_dom [OF Cons.prems(1)] fr by auto
  then have ch: "chain s1 (se_next e) bs None" using chain_frame [OF e(3) nm(1)] spec(3) by simp
  let ?i = "\<lparr>it_last = it_elem i, it_elem = se_next e\<rparr>"
  have s1b: "s1 b = Some e" using old [of b] e(2) by auto
  have step: "append_loop malloc i (s, l) = append_loop malloc ?i (s1, l1)"
    using e add s1b d_def
    by (subst append_loop.simps) (simp add: GNUNET_CONTAINER_slist_end_def GNUNET_CONTAINER_slist_next_def Let_def)
  have cb: "contents s1 bs = contents s bs" using nm(1) by (simp add: spec(3) contents_def)
  have disj: "set (malloc s # as) \<inter> set bs = {}" using Cons.prems(3) nm by auto
  have fin: "finite (dom s1)" using spec(3) Cons.prems(5) by simp
  have ch': "chain s1 (it_elem ?i) bs None" using ch by simp
  obtain s' l' as' where "append_loop malloc ?i (s1, l1) = Some (s', l')" "list_at (s', l') (as' @ malloc s # as)"
    "contents s' (as' @ malloc s # as) = rev (contents s bs) @ se_elem e # contents s as" "finite (dom s')"
    "\<forall>a \<in> dom s1. s' a = s1 a"
    using Cons.IH [OF ch' spec(1) disj Cons.prems(4) fin] unfolding spec(2) cb by auto
  moreover have "contents s (b # bs) = se_elem e # contents s bs" using e by (simp add: contents_def)
  ultimately show ?case using step old spec(3)
    by (intro exI [of _ s'] exI [of _ l'] exI [of _ "as' @ [malloc s]"]) (auto simp: dom_def)
qed

section \<open>Properties\<close>







text \<open>
  Appending a list to another puts copies of its elements in reverse order in front of the
  destination; the source elements stay untouched.  The documentation of the function promises the
  end of the destination instead.
\<close>

theorem slist_append_prepends_reversed:
  assumes "list_at (s, dst) as" "list_at (s, src) bs" "set as \<inter> set bs = {}" "finite (dom s)"
    and "\<forall>s. finite (dom s) \<longrightarrow> malloc s \<notin> dom s"
  shows "\<exists>s' dst' cs. GNUNET_CONTAINER_slist_append malloc (s, dst) src = Some (s', dst') \<and>
    list_at (s', dst') cs \<and> contents s' cs = rev (contents s bs) @ contents s as \<and> list_at (s', src) bs"
proof -
  have ch: "chain s (sl_head src) bs None" using assms(2) by (simp add: list_at_def)
  obtain s' l' as' where r: "append_loop malloc (GNUNET_CONTAINER_slist_begin src) (s, dst) = Some (s', l')"
    "list_at (s', l') (as' @ as)" "contents s' (as' @ as) = rev (contents s bs) @ contents s as"
    "\<forall>a \<in> dom s. s' a = s a"
    using append_loop_spec [of s "GNUNET_CONTAINER_slist_begin src" bs dst as malloc] ch assms
    by (auto simp: GNUNET_CONTAINER_slist_begin_def fresh_malloc_def)
  have "chain t p xs q \<Longrightarrow> \<forall>a \<in> set xs. s' a = t a \<Longrightarrow> chain s' p xs q" for t p xs q
    by (induction xs arbitrary: p) auto
  then have "chain s' (sl_head src) bs None" using ch r(4) chain_dom [OF ch] by blast
  then have "list_at (s', src) bs" using assms(2) by (simp add: list_at_def)
  then show ?thesis using r by (auto simp: GNUNET_CONTAINER_slist_append_def)
qed

end
