(* ===== verification/Lock_Manager.thy ===== *)
theory Lock_Manager
  imports Multi_Hash_Map Endian "HOL-Library.Monad_Syntax"
begin

unbundle bit_operations_syntax

text \<open>
  The lock manager service, \<^verbatim>\<open>src/src/lockmanager/gnunet-service-lockmanager.c\<close>.  Locks and client
  entries are objects in a store, addressed by natural numbers; the wait list of a lock is the list
  of the client entries its nodes point to, the lock list of a client entry the list of locks.
  Following a pointer to a freed object, like a failing assertion, is the result \<open>None\<close>.  The global
  lock map is the multi hash map of the development.  The arguments are \<open>malloc\<close>, which picks the
  address of a new object, and \<open>hash\<close>, the SHA-512 function of libgcrypt behind
  \<^verbatim>\<open>GNUNET_CRYPTO_hash\<close>; nothing is assumed about collisions of \<open>hash\<close>.  A message is the byte
  sequence that the server hands to the handler, so that the size field of its header is its length.
  The messages sent and the calls of \<^verbatim>\<open>GNUNET_SERVER_receive_done\<close> are collected in \<open>lm_out\<close>.

  The specification is a queue of clients per lock name: its head holds the lock, the others wait.
  The handlers for acquire and release are shown to implement the operations on these queues, and
  from that mutual exclusion as the clients see it.  The disconnect handler does not implement it.
\<close>

section \<open>The service\<close>

record Lock =
  lk_wl :: "nat list"
  lk_cl_entry :: "nat option"
  domain_name :: "byte list"
  lock_num :: u32

record 'c ClientList =
  cl_ll :: "nat list"
  cl_client :: 'c

datatype 'c lm_event =
  Transmit 'c "byte list"
| Receive_done 'c int

record 'c lm_state =
  lock_map :: "nat GNUNET_CONTAINER_MultiHashMap"
  lm_locks :: "nat \<rightharpoonup> Lock"
  lm_clients :: "nat \<rightharpoonup> 'c ClientList"
  cl_list :: "nat list"
  lm_out :: "'c lm_event list"

definition lockmanager_run :: "'c lm_state option" where
  "lockmanager_run =
     do { m \<leftarrow> GNUNET_CONTAINER_multihashmap_create 32 False;
          Some \<lparr>lock_map = m, lm_locks = Map.empty, lm_clients = Map.empty, cl_list = [], lm_out = []\<rparr> }"

definition emit :: "'c lm_event \<Rightarrow> 'c lm_state \<Rightarrow> 'c lm_state" where
  "emit e st = st\<lparr>lm_out := lm_out st @ [e]\<rparr>"

definition get_key :: "(byte list \<Rightarrow> GNUNET_HashCode) \<Rightarrow> byte list \<Rightarrow> u32 \<Rightarrow> GNUNET_HashCode" where
  "get_key hash domain num = hash domain XOR ucast num"

text \<open>The closure of the iterator is the matched entry; \<open>None\<close> stands for a crash in the iterator.\<close>

definition match_iterator ::
    "(nat \<rightharpoonup> Lock) \<Rightarrow> byte list \<Rightarrow> u32 \<Rightarrow> (nat, nat option option) HashMapIterator" where
  "match_iterator locks domain num s key value =
     (case Option.bind value locks of
        None \<Rightarrow> (None, GNUNET_NO)
      | Some lock \<Rightarrow>
          if num = lock_num lock \<and> domain = domain_name lock then (Some value, GNUNET_NO)
          else (s, GNUNET_YES))"

definition find_lock ::
    "(byte list \<Rightarrow> GNUNET_HashCode) \<Rightarrow> 'c lm_state \<Rightarrow> byte list \<Rightarrow> u32 \<Rightarrow> nat option option" where
  "find_lock hash st domain num =
     fst (GNUNET_CONTAINER_multihashmap_get_multiple (lock_map st) (get_key hash domain num)
            (Some (match_iterator (lm_locks st) domain num)) (Some None))"

definition add_lock ::
    "(nat set \<Rightarrow> nat) \<Rightarrow> (byte list \<Rightarrow> GNUNET_HashCode) \<Rightarrow> 'c lm_state \<Rightarrow> byte list \<Rightarrow> u32 \<Rightarrow>
     ('c lm_state \<times> nat) option" where
  "add_lock malloc hash st domain num =
     (let lock = malloc (dom (lm_locks st)) in
      do { (m, _) \<leftarrow> GNUNET_CONTAINER_multihashmap_put (lock_map st) (get_key hash domain num) (Some lock)
                       MULTIHASHMAPOPTION_MULTIPLE;
           Some (st\<lparr>lock_map := m,
                    lm_locks := (lm_locks st)(lock \<mapsto>
                      \<lparr>lk_wl = [], lk_cl_entry = None, domain_name = domain, lock_num = num\<rparr>)\<rparr>, lock) })"

definition remove_lock :: "(byte list \<Rightarrow> GNUNET_HashCode) \<Rightarrow> nat \<Rightarrow> 'c lm_state \<Rightarrow> 'c lm_state option" where
  "remove_lock hash lock st =
     do { l \<leftarrow> lm_locks st lock;
          if lk_wl l = []
          then (case GNUNET_CONTAINER_multihashmap_remove (lock_map st)
                       (get_key hash (domain_name l) (lock_num l)) (Some lock) of
                  (m, res) \<Rightarrow>
                    if res = GNUNET_YES
                    then Some (st\<lparr>lock_map := m, lm_locks := (lm_locks st)(lock := None)\<rparr>) else None)
          else None }"

definition cl_ll_find_lock :: "'c ClientList \<Rightarrow> nat \<Rightarrow> nat option" where
  "cl_ll_find_lock cl lock = List.find (\<lambda>l. l = lock) (cl_ll cl)"

definition cl_ll_add_lock :: "nat \<Rightarrow> nat \<Rightarrow> 'c lm_state \<Rightarrow> 'c lm_state option" where
  "cl_ll_add_lock cl lock st =
     do { c \<leftarrow> lm_clients st cl;
          Some (st\<lparr>lm_clients := (lm_clients st)(cl \<mapsto> c\<lparr>cl_ll := cl_ll c @ [lock]\<rparr>)\<rparr>) }"

definition cl_ll_remove_lock :: "nat \<Rightarrow> nat \<Rightarrow> 'c lm_state \<Rightarrow> 'c lm_state option" where
  "cl_ll_remove_lock cl lock st =
     do { c \<leftarrow> lm_clients st cl;
          if cl_ll c \<noteq> []
          then Some (st\<lparr>lm_clients := (lm_clients st)(cl \<mapsto> c\<lparr>cl_ll := remove1 lock (cl_ll c)\<rparr>)\<rparr>)
          else None }"

definition lock_wl_find :: "Lock \<Rightarrow> nat \<Rightarrow> nat option" where
  "lock_wl_find lock cl = List.find (\<lambda>c. c = cl) (lk_wl lock)"

definition lock_wl_add_client :: "nat \<Rightarrow> nat \<Rightarrow> 'c lm_state \<Rightarrow> 'c lm_state option" where
  "lock_wl_add_client lock cl st =
     do { l \<leftarrow> lm_locks st lock;
          Some (st\<lparr>lm_locks := (lm_locks st)(lock \<mapsto> l\<lparr>lk_wl := lk_wl l @ [cl]\<rparr>)\<rparr>) }"

definition lock_wl_remove :: "nat \<Rightarrow> nat \<Rightarrow> 'c lm_state \<Rightarrow> 'c lm_state option" where
  "lock_wl_remove lock cl st =
     do { l \<leftarrow> lm_locks st lock;
          Some (st\<lparr>lm_locks := (lm_locks st)(lock \<mapsto> l\<lparr>lk_wl := remove1 cl (lk_wl l)\<rparr>)\<rparr>) }"

definition cl_find_client :: "'c lm_state \<Rightarrow> 'c \<Rightarrow> nat option" where
  "cl_find_client st client =
     List.find (\<lambda>a. map_option cl_client (lm_clients st a) = Some client) (cl_list st)"

definition cl_add_client :: "(nat set \<Rightarrow> nat) \<Rightarrow> 'c \<Rightarrow> 'c lm_state \<Rightarrow> 'c lm_state \<times> nat" where
  "cl_add_client malloc client st =
     (let a = malloc (dom (lm_clients st)) in
      (st\<lparr>lm_clients := (lm_clients st)(a \<mapsto> \<lparr>cl_ll = [], cl_client = client\<rparr>),
          cl_list := cl_list st @ [a]\<rparr>, a))"

definition cl_remove_client :: "nat \<Rightarrow> 'c lm_state \<Rightarrow> 'c lm_state option" where
  "cl_remove_client cl st =
     do { c \<leftarrow> lm_clients st cl;
          if cl_ll c = []
          then Some (st\<lparr>lm_clients := (lm_clients st)(cl := None), cl_list := remove1 cl (cl_list st)\<rparr>)
          else None }"

definition LOCKMANAGER_Message_size :: nat where [simp]: "LOCKMANAGER_Message_size = 8"

definition success_msg :: "byte list \<Rightarrow> u32 \<Rightarrow> byte list" where
  "success_msg domain num =
     (let domain_name_len = length domain + 1 in
      be16 (of_nat (LOCKMANAGER_Message_size + domain_name_len)) @ be16 452 @ be32 num @ domain @ [0])"

definition send_success_msg :: "'c \<Rightarrow> byte list \<Rightarrow> u32 \<Rightarrow> 'c lm_state \<Rightarrow> 'c lm_state" where
  "send_success_msg client domain num st = emit (Transmit client (success_msg domain num)) st"

definition request_lock :: "byte list \<Rightarrow> u32" where
  "request_lock msg = get_be32 msg 4"

definition request_domain :: "byte list \<Rightarrow> byte list" where
  "request_domain msg = takeWhile (\<lambda>b. b \<noteq> 0) (drop LOCKMANAGER_Message_size msg)"

definition bad_request :: "byte list \<Rightarrow> bool" where
  "bad_request msg \<longleftrightarrow> length msg \<le> LOCKMANAGER_Message_size \<or> last msg \<noteq> 0"

definition handle_acquire ::
    "(nat set \<Rightarrow> nat) \<Rightarrow> (byte list \<Rightarrow> GNUNET_HashCode) \<Rightarrow> 'c \<Rightarrow> byte list \<Rightarrow> 'c lm_state \<Rightarrow>
     'c lm_state option" where
  "handle_acquire malloc hash client msg st =
     (if bad_request msg then Some (emit (Receive_done client GNUNET_SYSERR) st)
      else (let num = request_lock msg;
                domain = request_domain msg in
            case (case cl_find_client st client of
                    None \<Rightarrow> cl_add_client malloc client st
                  | Some cl \<Rightarrow> (st, cl)) of
              (st1, cl) \<Rightarrow>
                do { found \<leftarrow> find_lock hash st1 domain num;
                     (case found of
                        Some lock \<Rightarrow>
                          do { l \<leftarrow> lm_locks st1 lock;
                               if lk_cl_entry l = Some cl
                               then Some (emit (Receive_done client GNUNET_SYSERR) st1)
                               else do { st2 \<leftarrow> lock_wl_add_client lock cl st1;
                                         st3 \<leftarrow> cl_ll_add_lock cl lock st2;
                                         Some (emit (Receive_done client GNUNET_OK) st3) } }
                      | None \<Rightarrow>
                          do { (st2, lock) \<leftarrow> add_lock malloc hash st1 domain num;
                               l \<leftarrow> lm_locks st2 lock;
                               st3 \<leftarrow> cl_ll_add_lock cl lock
                                       (st2\<lparr>lm_locks := (lm_locks st2)(lock \<mapsto> l\<lparr>lk_cl_entry := Some cl\<rparr>)\<rparr>);
                               c \<leftarrow> lm_clients st3 cl;
                               Some (emit (Receive_done client GNUNET_OK)
                                       (send_success_msg (cl_client c) domain num st3)) }) }))"

definition process_lock_release :: "(byte list \<Rightarrow> GNUNET_HashCode) \<Rightarrow> nat \<Rightarrow> 'c lm_state \<Rightarrow> 'c lm_state option" where
  "process_lock_release hash lock st =
     do { l \<leftarrow> lm_locks st lock;
          (case lk_wl l of
             [] \<Rightarrow> remove_lock hash lock st
           | cl # _ \<Rightarrow>
               do { st1 \<leftarrow> lock_wl_remove lock cl
                             (st\<lparr>lm_locks := (lm_locks st)(lock \<mapsto> l\<lparr>lk_cl_entry := Some cl\<rparr>)\<rparr>);
                    c \<leftarrow> lm_clients st1 cl;
                    Some (send_success_msg (cl_client c) (domain_name l) (lock_num l) st1) }) }"

definition handle_release ::
    "(byte list \<Rightarrow> GNUNET_HashCode) \<Rightarrow> 'c \<Rightarrow> byte list \<Rightarrow> 'c lm_state \<Rightarrow> 'c lm_state option" where
  "handle_release hash client msg st =
     (let fail = Some (emit (Receive_done client GNUNET_SYSERR) st) in
      if bad_request msg then fail
      else (let num = request_lock msg;
                domain = request_domain msg in
            case cl_find_client st client of
              None \<Rightarrow> fail
            | Some cl \<Rightarrow>
                do { found \<leftarrow> find_lock hash st domain num;
                     (case found of
                        None \<Rightarrow> fail
                      | Some lock \<Rightarrow>
                          do { c \<leftarrow> lm_clients st cl;
                               (case cl_ll_find_lock c lock of
                                  None \<Rightarrow> fail
                                | Some _ \<Rightarrow>
                                    do { st1 \<leftarrow> cl_ll_remove_lock cl lock st;
                                         l \<leftarrow> lm_locks st1 lock;
                                         if lk_cl_entry l = Some cl
                                         then do { st2 \<leftarrow> process_lock_release hash lock st1;
                                                   Some (emit (Receive_done client GNUNET_OK) st2) }
                                         else (case lock_wl_find l cl of
                                                 None \<Rightarrow> Some (emit (Receive_done client GNUNET_OK) st1)
                                               | Some _ \<Rightarrow>
                                                   do { st2 \<leftarrow> lock_wl_remove lock cl st1;
                                                        Some (emit (Receive_done client GNUNET_OK) st2) }) }) }) }))"

text \<open>The loop over the lock list of a client; processing a release does not touch that list.\<close>

fun disconnect_loop ::
    "(byte list \<Rightarrow> GNUNET_HashCode) \<Rightarrow> nat \<Rightarrow> nat list \<Rightarrow> 'c lm_state \<Rightarrow> 'c lm_state option" where
  "disconnect_loop hash cl [] st = Some st"
| "disconnect_loop hash cl (lock # locks) st =
     do { st1 \<leftarrow> cl_ll_remove_lock cl lock st;
          st2 \<leftarrow> process_lock_release hash lock st1;
          disconnect_loop hash cl locks st2 }"

definition client_disconnect_cb :: "(byte list \<Rightarrow> GNUNET_HashCode) \<Rightarrow> 'c option \<Rightarrow> 'c lm_state \<Rightarrow> 'c lm_state option" where
  "client_disconnect_cb hash client st =
     (case Option.bind client (cl_find_client st) of
        None \<Rightarrow> Some st
      | Some cl \<Rightarrow>
          do { c \<leftarrow> lm_clients st cl;
               st1 \<leftarrow> disconnect_loop hash cl (cl_ll c) st;
               cl_remove_client cl st1 })"

section \<open>The specification\<close>

text \<open>One queue of clients per lock name; the head of a queue holds the lock.\<close>

type_synonym lock_name = "byte list \<times> u32"
type_synonym 'c queues = "lock_name \<Rightarrow> 'c list"

definition granted :: "'c \<Rightarrow> lock_name \<Rightarrow> 'c lm_event" where
  "granted c k = Transmit c (success_msg (fst k) (snd k))"

definition spec_acquire :: "'c \<Rightarrow> lock_name \<Rightarrow> 'c queues \<Rightarrow> 'c queues \<times> 'c lm_event list" where
  "spec_acquire c k Q =
     (if Q k = [] then (Q(k := [c]), [granted c k, Receive_done c GNUNET_OK])
      else if hd (Q k) = c then (Q, [Receive_done c GNUNET_SYSERR])
      else (Q(k := Q k @ [c]), [Receive_done c GNUNET_OK]))"

definition spec_pop :: "lock_name \<Rightarrow> 'c queues \<Rightarrow> 'c queues \<times> 'c lm_event list" where
  "spec_pop k Q = (Q(k := tl (Q k)), case tl (Q k) of [] \<Rightarrow> [] | w # _ \<Rightarrow> [granted w k])"

definition spec_release :: "'c \<Rightarrow> lock_name \<Rightarrow> 'c queues \<Rightarrow> 'c queues \<times> 'c lm_event list" where
  "spec_release c k Q =
     (if c \<notin> set (Q k) then (Q, [Receive_done c GNUNET_SYSERR])
      else if hd (Q k) = c then (case spec_pop k Q of (Q', es) \<Rightarrow> (Q', es @ [Receive_done c GNUNET_OK]))
      else (Q(k := remove1 c (Q k)), [Receive_done c GNUNET_OK]))"

section \<open>The invariant and the correspondence\<close>

definition lock_name :: "Lock \<Rightarrow> lock_name" where
  "lock_name l = (domain_name l, lock_num l)"

definition lock_queue :: "Lock option \<Rightarrow> nat list" where
  "lock_queue ol = (case ol of None \<Rightarrow> [] | Some l \<Rightarrow> case_option [] (\<lambda>h. [h]) (lk_cl_entry l) @ lk_wl l)"

definition client_of :: "(nat \<rightharpoonup> 'c ClientList) \<Rightarrow> nat \<Rightarrow> 'c" where
  "client_of clients a = cl_client (the (clients a))"

definition lock_entry :: "(byte list \<Rightarrow> GNUNET_HashCode) \<Rightarrow> (nat \<rightharpoonup> Lock) \<Rightarrow> nat \<Rightarrow> GNUNET_HashCode \<times> nat option" where
  "lock_entry hash locks a =
     (get_key hash (domain_name (the (locks a))) (lock_num (the (locks a))), Some a)"

definition lock_table ::
    "(byte list \<Rightarrow> GNUNET_HashCode) \<Rightarrow> nat GNUNET_CONTAINER_MultiHashMap \<Rightarrow> (nat \<rightharpoonup> Lock) \<Rightarrow> bool" where
  "lock_table hash m locks \<longleftrightarrow>
     map_invar m \<and> finite (dom locks) \<and>
     map_pairs m = image_mset (lock_entry hash locks) (mset_set (dom locks)) \<and>
     (\<forall>a b l l'. locks a = Some l \<longrightarrow> locks b = Some l' \<longrightarrow> lock_name l = lock_name l' \<longrightarrow> a = b)"

definition lock_links :: "(nat \<rightharpoonup> Lock) \<Rightarrow> (nat \<rightharpoonup> 'c ClientList) \<Rightarrow> bool" where
  "lock_links locks clients \<longleftrightarrow>
     (\<forall>a l. locks a = Some l \<longrightarrow> lk_cl_entry l \<noteq> None \<and> set (lock_queue (Some l)) \<subseteq> dom clients) \<and>
     (\<forall>x c a. clients x = Some c \<longrightarrow> count (mset (cl_ll c)) a = count (mset (lock_queue (locks a))) x)"

definition client_table :: "nat list \<Rightarrow> (nat \<rightharpoonup> 'c ClientList) \<Rightarrow> bool" where
  "client_table cls clients \<longleftrightarrow>
     distinct cls \<and> set cls = dom clients \<and> inj_on (client_of clients) (dom clients)"

definition lm_invar :: "(byte list \<Rightarrow> GNUNET_HashCode) \<Rightarrow> 'c lm_state \<Rightarrow> bool" where
  "lm_invar hash st \<longleftrightarrow>
     lock_table hash (lock_map st) (lm_locks st) \<and> lock_links (lm_locks st) (lm_clients st) \<and>
     client_table (cl_list st) (lm_clients st)"

definition queues_of :: "(nat \<rightharpoonup> Lock) \<Rightarrow> (nat \<rightharpoonup> 'c ClientList) \<Rightarrow> 'c queues \<Rightarrow> bool" where
  "queues_of locks clients Q \<longleftrightarrow>
     (\<forall>a l. locks a = Some l \<longrightarrow> Q (lock_name l) = map (client_of clients) (lock_queue (Some l))) \<and>
     (\<forall>k. Q k \<noteq> [] \<longrightarrow> (\<exists>a l. locks a = Some l \<and> lock_name l = k))"

definition lm_refines :: "(byte list \<Rightarrow> GNUNET_HashCode) \<Rightarrow> 'c lm_state \<Rightarrow> 'c queues \<Rightarrow> bool" where
  "lm_refines hash st Q \<longleftrightarrow> lm_invar hash st \<and> queues_of (lm_locks st) (lm_clients st) Q"

section \<open>Finding locks and clients\<close>

lemma visit_match:
  assumes "\<forall>p \<in> set ps. \<exists>a l. snd p = Some a \<and> locks a = Some l"
  shows "fst (visit (match_iterator locks d n) ps (Some s)) =
     (case List.find (\<lambda>p. lock_name (the (locks (the (snd p)))) = (d, n)) ps of
        None \<Rightarrow> Some s | Some p \<Rightarrow> Some (snd p))"
  using assms by (induction ps) (auto simp: match_iterator_def lock_name_def split: prod.splits)

lemma find_lock_spec:
  assumes "lock_table hash (lock_map st) (lm_locks st)"
  shows "find_lock hash st d n = Some None \<and> (\<forall>a l. lm_locks st a = Some l \<longrightarrow> lock_name l \<noteq> (d, n)) \<or>
    (\<exists>a l. find_lock hash st d n = Some (Some a) \<and> lm_locks st a = Some l \<and> lock_name l = (d, n))"
proof -
  let ?k = "get_key hash d n" and ?P = "\<lambda>p. lock_name (the (lm_locks st (the (snd p)))) = (d, n)"
  have inv: "map_invar (lock_map st)" "finite (dom (lm_locks st))"
    and pairs: "map_pairs (lock_map st) = image_mset (lock_entry hash (lm_locks st)) (mset_set (dom (lm_locks st)))"
    using assms by (simp_all add: lock_table_def)
  obtain ps where ps: "mset ps = filter_mset (\<lambda>p. fst p = ?k) (map_pairs (lock_map st))"
    and fl: "fst (GNUNET_CONTAINER_multihashmap_get_multiple (lock_map st) ?k
        (Some (match_iterator (lm_locks st) d n)) (Some None)) = fst (visit (match_iterator (lm_locks st) d n) ps (Some None))"
    using get_multiple_visit [OF inv(1), of ?k] by metis
  have set: "set ps = {lock_entry hash (lm_locks st) a | a. a \<in> dom (lm_locks st) \<and>
      fst (lock_entry hash (lm_locks st) a) = ?k}"
    using arg_cong [OF ps, of set_mset] inv(2) by (auto simp: pairs)
  have find: "find_lock hash st d n = (case List.find ?P ps of None \<Rightarrow> Some None | Some p \<Rightarrow> Some (snd p))"
    unfolding find_lock_def fl by (rule visit_match) (auto simp: set lock_entry_def)
  show ?thesis
  proof (cases "List.find ?P ps")
    case None
    have "lock_name l \<noteq> (d, n)" if "lm_locks st a = Some l" for a l
    proof
      assume nm: "lock_name l = (d, n)"
      then have "lock_entry hash (lm_locks st) a \<in> set ps"
        using that by (auto simp: set lock_entry_def lock_name_def)
      moreover have "?P (lock_entry hash (lm_locks st) a)" using nm that by (simp add: lock_entry_def)
      ultimately show False using None unfolding find_None_iff by blast
    qed
    then show ?thesis using find None by simp
  next
    case (Some p)
    then have "p \<in> set ps" "?P p" by (auto simp: find_Some_iff)
    then show ?thesis using find Some by (auto simp: set lock_entry_def)
  qed
qed

lemma find_client_spec:
  assumes "client_table (cl_list st) (lm_clients st)"
  shows "cl_find_client st c = None \<and> c \<notin> client_of (lm_clients st) ` dom (lm_clients st) \<or>
    (\<exists>x e. cl_find_client st c = Some x \<and> lm_clients st x = Some e \<and> cl_client e = c)"
proof (cases "cl_find_client st c")
  case None
  then show ?thesis using assms
    by (auto simp: cl_find_client_def find_None_iff client_table_def client_of_def)
next
  case (Some x)
  then show ?thesis by (auto simp: cl_find_client_def find_Some_iff)
qed

section \<open>Updates\<close>

lemma lock_table_insert:
  assumes "lock_table hash m locks" "map_room m" "a \<notin> dom locks"
    and "\<forall>b l'. locks b = Some l' \<longrightarrow> lock_name l' \<noteq> lock_name l"
  shows "\<exists>m' r. GNUNET_CONTAINER_multihashmap_put m (get_key hash (domain_name l) (lock_num l)) (Some a)
      MULTIHASHMAPOPTION_MULTIPLE = Some (m', r) \<and> lock_table hash m' (locks(a \<mapsto> l)) \<and>
    unat (map_size m') = unat (map_size m) + 1 \<and>
    unat (map_length m') \<le> max (unat (map_length m)) (8 + 3 * unat (map_size m))"
proof -
  have inv: "map_invar m" "finite (dom locks)"
    and pairs: "map_pairs m = image_mset (lock_entry hash locks) (mset_set (dom locks))"
    and inj: "\<forall>a b l l'. locks a = Some l \<longrightarrow> locks b = Some l' \<longrightarrow> lock_name l = lock_name l' \<longrightarrow> a = b"
    using assms(1) unfolding lock_table_def by blast+
  obtain m' where m': "GNUNET_CONTAINER_multihashmap_put m (get_key hash (domain_name l) (lock_num l)) (Some a)
      MULTIHASHMAPOPTION_MULTIPLE = Some (m', GNUNET_OK)" "map_invar m'"
      "map_pairs m' = add_mset (get_key hash (domain_name l) (lock_num l), Some a) (map_pairs m)"
    using mhm.put_fresh [OF inv(1) assms(2)] by blast
  have "image_mset (lock_entry hash (locks(a \<mapsto> l))) (mset_set (dom locks)) = map_pairs m"
    unfolding pairs by (rule image_mset_cong) (use assms(3) inv(2) in \<open>auto simp: lock_entry_def\<close>)
  then have "map_pairs m' = image_mset (lock_entry hash (locks(a \<mapsto> l))) (mset_set (dom (locks(a \<mapsto> l))))"
    using assms(3) inv(2) m'(3) by (simp add: lock_entry_def)
  moreover have "\<forall>b c l1 l2. (locks(a \<mapsto> l)) b = Some l1 \<longrightarrow> (locks(a \<mapsto> l)) c = Some l2 \<longrightarrow>
      lock_name l1 = lock_name l2 \<longrightarrow> b = c"
    using inj assms(4) by (metis fun_upd_apply option.inject)
  moreover have "finite (dom (locks(a \<mapsto> l)))" using inv(2) by simp
  ultimately have "lock_table hash m' (locks(a \<mapsto> l))" using m'(2) unfolding lock_table_def by blast
  then show ?thesis using m'(1) put_multiple_bound [OF inv(1) assms(2) m'(1)] by blast
qed

lemma lock_table_update:
  assumes "lock_table hash m locks" "locks a = Some l" "lock_name l' = lock_name l"
  shows "lock_table hash m (locks(a \<mapsto> l'))"
proof -
  have d: "dom (locks(a \<mapsto> l')) = dom locks" using assms(2) by auto
  have "lock_entry hash (locks(a \<mapsto> l')) b = lock_entry hash locks b" for b
    using assms(2,3) by (simp add: lock_entry_def lock_name_def)
  then have "lock_entry hash (locks(a \<mapsto> l')) = lock_entry hash locks" by blast
  moreover have "\<forall>b c l1 l2. (locks(a \<mapsto> l')) b = Some l1 \<longrightarrow> (locks(a \<mapsto> l')) c = Some l2 \<longrightarrow>
      lock_name l1 = lock_name l2 \<longrightarrow> b = c"
    using assms by (auto simp: lock_table_def split: if_splits)
  ultimately show ?thesis using assms(1) unfolding lock_table_def d by presburger
qed

lemma lock_table_delete:
  assumes "lock_table hash m locks" "locks a = Some l"
  shows "\<exists>m'. GNUNET_CONTAINER_multihashmap_remove m (get_key hash (domain_name l) (lock_num l)) (Some a) =
      (m', GNUNET_YES) \<and> lock_table hash m' (locks(a := None)) \<and>
    unat (map_size m') \<le> unat (map_size m) \<and> map_length m' = map_length m"
proof -
  have inv: "map_invar m" "finite (dom locks)"
    and pairs: "map_pairs m = image_mset (lock_entry hash locks) (mset_set (dom locks))"
    and inj: "\<forall>a b l l'. locks a = Some l \<longrightarrow> locks b = Some l' \<longrightarrow> lock_name l = lock_name l' \<longrightarrow> a = b"
    using assms(1) unfolding lock_table_def by blast+
  have e: "lock_entry hash locks a = (get_key hash (domain_name l) (lock_num l), Some a)"
    using assms(2) by (simp add: lock_entry_def)
  have split: "mset_set (dom locks) = add_mset a (mset_set (dom (locks(a := None))))"
    using inv(2) assms(2) mset_set.remove [of "dom locks" a] by auto
  have rest: "image_mset (lock_entry hash (locks(a := None))) (mset_set (dom (locks(a := None)))) =
      image_mset (lock_entry hash locks) (mset_set (dom (locks(a := None))))"
    by (rule image_mset_cong) (use inv(2) in \<open>auto simp: lock_entry_def\<close>)
  have mem: "(get_key hash (domain_name l) (lock_num l), Some a) \<in># map_pairs m"
    unfolding pairs split by (simp add: e)
  obtain m' where m': "GNUNET_CONTAINER_multihashmap_remove m (get_key hash (domain_name l) (lock_num l)) (Some a) =
      (m', GNUNET_YES)" "map_invar m'" "map_pairs m' = map_pairs m - {#lock_entry hash locks a#}"
      "map_length m' = map_length m" "unat (map_size m') < unat (map_size m)"
    using remove_present [OF inv(1) mem] unfolding e by metis
  have "map_pairs m' = image_mset (lock_entry hash (locks(a := None))) (mset_set (dom (locks(a := None))))"
    unfolding rest m'(3) pairs split by simp
  moreover have "\<forall>b c l1 l2. (locks(a := None)) b = Some l1 \<longrightarrow> (locks(a := None)) c = Some l2 \<longrightarrow>
      lock_name l1 = lock_name l2 \<longrightarrow> b = c"
    using inj by (metis fun_upd_apply option.distinct(1))
  moreover have "finite (dom (locks(a := None)))" using inv(2) by simp
  ultimately have "lock_table hash m' (locks(a := None))" using m'(2) unfolding lock_table_def by blast
  then show ?thesis using m'(1,4,5) by auto
qed

text \<open>One lock object and the lock list of one client entry change together.\<close>

lemma lock_links_update:
  assumes "lock_links locks clients" "clients x = Some c"
    and "\<forall>l. ol = Some l \<longrightarrow> lk_cl_entry l \<noteq> None \<and> set (lock_queue (Some l)) \<subseteq> dom clients"
    and "\<forall>y. y \<noteq> x \<longrightarrow> count (mset (lock_queue ol)) y = count (mset (lock_queue (locks a))) y"
    and "count (mset ll) a = count (mset (lock_queue ol)) x"
    and "\<forall>b. b \<noteq> a \<longrightarrow> count (mset ll) b = count (mset (cl_ll c)) b"
  shows "lock_links (locks(a := ol)) (clients(x \<mapsto> c\<lparr>cl_ll := ll\<rparr>))"
proof -
  have d: "dom (clients(x \<mapsto> c\<lparr>cl_ll := ll\<rparr>)) = dom clients" using assms(2) by auto
  have "lk_cl_entry l \<noteq> None \<and> set (lock_queue (Some l)) \<subseteq> dom clients" if "(locks(a := ol)) b = Some l" for b l
    using assms(1,3) that unfolding lock_links_def by (metis fun_upd_apply)
  moreover have "count (mset (cl_ll e)) b = count (mset (lock_queue ((locks(a := ol)) b))) y"
    if "(clients(x \<mapsto> c\<lparr>cl_ll := ll\<rparr>)) y = Some e" for y e b
  proof (cases "y = x")
    case True
    then show ?thesis using assms(1,2,5,6) that unfolding lock_links_def by (cases "b = a") auto
  next
    case False
    then show ?thesis using assms(1,4) that unfolding lock_links_def by (cases "b = a") auto
  qed
  ultimately show ?thesis unfolding lock_links_def d by blast
qed

lemma client_table_update:
  assumes "client_table cls clients" "clients x = Some c"
  shows "client_table cls (clients(x \<mapsto> c\<lparr>cl_ll := ll\<rparr>)) \<and>
    client_of (clients(x \<mapsto> c\<lparr>cl_ll := ll\<rparr>)) = client_of clients"
proof -
  have d: "dom (clients(x \<mapsto> c\<lparr>cl_ll := ll\<rparr>)) = dom clients" using assms(2) by auto
  have "client_of (clients(x \<mapsto> c\<lparr>cl_ll := ll\<rparr>)) = client_of clients"
    using assms(2) by (auto simp: client_of_def)
  then show ?thesis using assms(1) unfolding client_table_def d by simp
qed

lemma queues_of_update:
  assumes "queues_of locks clients Q" "client_of clients' = client_of clients"
    and "\<forall>a b l l'. locks a = Some l \<longrightarrow> locks b = Some l' \<longrightarrow> lock_name l = lock_name l' \<longrightarrow> a = b"
    and "\<forall>l. locks a = Some l \<longrightarrow> lock_name l = k" "\<forall>l. ol = Some l \<longrightarrow> lock_name l = k \<and> lock_queue ol \<noteq> []"
    and "locks a \<noteq> None \<or> (\<forall>b l. locks b = Some l \<longrightarrow> lock_name l \<noteq> k)"
  shows "queues_of (locks(a := ol)) clients' (Q(k := map (client_of clients) (lock_queue ol)))"
proof -
  have other: "lock_name l \<noteq> k" if "locks b = Some l" "b \<noteq> a" for b l
    using assms(3,4,6) that by (metis option.exhaust)
  show ?thesis
    unfolding queues_of_def assms(2)
  proof (intro conjI allI impI)
    fix b l assume "(locks(a := ol)) b = Some l"
    then show "(Q(k := map (client_of clients) (lock_queue ol))) (lock_name l) =
        map (client_of clients) (lock_queue (Some l))"
      using assms(1,5) other by (cases "b = a") (auto simp: queues_of_def)
  next
    fix j assume ne: "(Q(k := map (client_of clients) (lock_queue ol))) j \<noteq> []"
    show "\<exists>b l. (locks(a := ol)) b = Some l \<and> lock_name l = j"
    proof (cases "j = k")
      case True
      then have "lock_queue ol \<noteq> []" using ne by simp
      then obtain l where "ol = Some l" by (cases ol) (auto simp: lock_queue_def)
      then show ?thesis using assms(5) True by (metis fun_upd_same)
    next
      case False
      then obtain b l where "locks b = Some l" "lock_name l = j"
        using assms(1) ne unfolding queues_of_def by (metis fun_upd_other)
      then show ?thesis using assms(4) False by (metis fun_upd_other)
    qed
  qed
qed

section \<open>The handlers implement the specification\<close>

lemma refines_step:
  assumes "lm_refines hash st Q" "lm_clients st x = Some c"
    and st': "lm_locks st' = (lm_locks st)(a := ol)" "lm_clients st' = (lm_clients st)(x \<mapsto> c\<lparr>cl_ll := ll\<rparr>)"
      "cl_list st' = cl_list st" "lock_table hash (lock_map st') (lm_locks st')"
    and ol: "\<forall>l. ol = Some l \<longrightarrow> lk_cl_entry l \<noteq> None \<and> set (lock_queue (Some l)) \<subseteq> dom (lm_clients st)"
    and cnt: "\<forall>y. y \<noteq> x \<longrightarrow> count (mset (lock_queue ol)) y = count (mset (lock_queue (lm_locks st a))) y"
      "count (mset ll) a = count (mset (lock_queue ol)) x"
      "\<forall>b. b \<noteq> a \<longrightarrow> count (mset ll) b = count (mset (cl_ll c)) b"
    and nm: "\<forall>l. lm_locks st a = Some l \<longrightarrow> lock_name l = k" "\<forall>l. ol = Some l \<longrightarrow> lock_name l = k"
      "lm_locks st a \<noteq> None \<or> (\<forall>b l. lm_locks st b = Some l \<longrightarrow> lock_name l \<noteq> k)"
  shows "lm_refines hash st' (Q(k := map (client_of (lm_clients st)) (lock_queue ol)))"
proof -
  have inv: "lock_links (lm_locks st) (lm_clients st)" "client_table (cl_list st) (lm_clients st)"
      "queues_of (lm_locks st) (lm_clients st) Q"
    and inj: "\<forall>a b l l'. lm_locks st a = Some l \<longrightarrow> lm_locks st b = Some l' \<longrightarrow> lock_name l = lock_name l' \<longrightarrow> a = b"
    using assms(1) unfolding lm_refines_def lm_invar_def lock_table_def by blast+
  have ne: "\<forall>l. ol = Some l \<longrightarrow> lock_name l = k \<and> lock_queue ol \<noteq> []"
    using ol nm(2) by (auto simp: lock_queue_def)
  have cl: "client_table (cl_list st) (lm_clients st')" "client_of (lm_clients st') = client_of (lm_clients st)"
    using client_table_update [OF inv(2) assms(2), of ll] by (simp_all add: st'(2))
  have "lock_links (lm_locks st') (lm_clients st')"
    unfolding st'(1,2) by (rule lock_links_update [OF inv(1) assms(2) ol cnt])
  moreover have "queues_of (lm_locks st') (lm_clients st') (Q(k := map (client_of (lm_clients st)) (lock_queue ol)))"
    unfolding st'(1) by (rule queues_of_update [OF inv(3) cl(2) inj nm(1) ne nm(3)])
  ultimately show ?thesis
    unfolding lm_refines_def lm_invar_def using st'(3,4) cl(1) by simp
qed

lemma emit_simps [simp]:
  "lock_map (emit e st) = lock_map st" "lm_locks (emit e st) = lm_locks st"
  "lm_clients (emit e st) = lm_clients st" "cl_list (emit e st) = cl_list st"
  "lm_out (emit e st) = lm_out st @ [e]"
  by (simp_all add: emit_def)

lemma lm_refines_emit [simp]: "lm_refines hash (emit e st) Q = lm_refines hash st Q"
  by (simp add: lm_refines_def lm_invar_def)

lemma refines_queue:
  assumes "lm_refines hash st Q" "lm_locks st a = Some l"
  obtains h where "lk_cl_entry l = Some h" "h \<in> dom (lm_clients st)" "set (lk_wl l) \<subseteq> dom (lm_clients st)"
    "lock_queue (Some l) = h # lk_wl l" "Q (lock_name l) = map (client_of (lm_clients st)) (h # lk_wl l)"
proof -
  from assms have "lk_cl_entry l \<noteq> None" and sub: "set (lock_queue (Some l)) \<subseteq> dom (lm_clients st)"
    unfolding lm_refines_def lm_invar_def lock_links_def by blast+
  then obtain h where h: "lk_cl_entry l = Some h" by auto
  then have q: "lock_queue (Some l) = h # lk_wl l" by (simp add: lock_queue_def)
  have "Q (lock_name l) = map (client_of (lm_clients st)) (lock_queue (Some l))"
    using assms unfolding lm_refines_def queues_of_def by blast
  then show thesis using that [OF h] sub q by simp
qed

lemma refines_client_inj:
  assumes "lm_refines hash st Q" "x \<in> dom (lm_clients st)" "y \<in> dom (lm_clients st)"
  shows "client_of (lm_clients st) x = client_of (lm_clients st) y \<longleftrightarrow> x = y"
  using assms unfolding lm_refines_def lm_invar_def client_table_def inj_on_def by blast

lemma refines_member:
  assumes "lm_refines hash st Q" "lm_locks st a = Some l" "lm_clients st x = Some e"
  shows "a \<in> set (cl_ll e) \<longleftrightarrow> cl_client e \<in> set (Q (lock_name l))"
proof -
  obtain h where h: "h \<in> dom (lm_clients st)" "set (lk_wl l) \<subseteq> dom (lm_clients st)"
    "lock_queue (Some l) = h # lk_wl l" "Q (lock_name l) = map (client_of (lm_clients st)) (h # lk_wl l)"
    using refines_queue [OF assms(1,2)] by metis
  have inj: "inj_on (client_of (lm_clients st)) (dom (lm_clients st))"
    using assms(1) unfolding lm_refines_def lm_invar_def client_table_def by blast
  have "count (mset (cl_ll e)) a = count (mset (lock_queue (lm_locks st a))) x"
    using assms(1,3) unfolding lm_refines_def lm_invar_def lock_links_def by blast
  then have "a \<in> set (cl_ll e) \<longleftrightarrow> x \<in> set (h # lk_wl l)"
    unfolding assms(2) h(3) by (metis count_mset_0_iff)
  also have "\<dots> \<longleftrightarrow> client_of (lm_clients st) x \<in> client_of (lm_clients st) ` set (h # lk_wl l)"
    using inj_on_image_mem_iff [OF inj, of x "set (h # lk_wl l)"] h(1,2) assms(3) by auto
  finally show ?thesis unfolding h(4) by (simp add: client_of_def assms(3))
qed

definition fresh_malloc :: "(nat set \<Rightarrow> nat) \<Rightarrow> bool" where
  "fresh_malloc malloc \<longleftrightarrow> (\<forall>A. finite A \<longrightarrow> malloc A \<notin> A)"

lemma add_client_refines:
  assumes "lm_refines hash st Q" "fresh_malloc malloc"
    and "c \<notin> client_of (lm_clients st) ` dom (lm_clients st)"
    and "cl_add_client malloc c st = (st', x)"
  shows "lm_refines hash st' Q"
proof -
  let ?new = "\<lparr>cl_ll = [], cl_client = c\<rparr>"
  have inv: "lock_table hash (lock_map st) (lm_locks st)" "lock_links (lm_locks st) (lm_clients st)"
      "client_table (cl_list st) (lm_clients st)" "queues_of (lm_locks st) (lm_clients st) Q"
    using assms(1) unfolding lm_refines_def lm_invar_def by blast+
  then have "finite (dom (lm_clients st))" unfolding client_table_def by (metis List.finite_set)
  moreover have st': "lm_clients st' = (lm_clients st)(x \<mapsto> ?new)" "cl_list st' = cl_list st @ [x]"
      "lm_locks st' = lm_locks st" "lock_map st' = lock_map st" "x = malloc (dom (lm_clients st))"
    using assms(4) by (auto simp: cl_add_client_def Let_def)
  ultimately have x: "x \<notin> dom (lm_clients st)" using assms(2) unfolding fresh_malloc_def by blast
  have old: "client_of (lm_clients st') y = client_of (lm_clients st) y" if "y \<in> dom (lm_clients st)" for y
    using that x by (auto simp: client_of_def st'(1))
  have new: "client_of (lm_clients st') x = c" by (simp add: client_of_def st'(1))
  have dom': "dom (lm_clients st') = insert x (dom (lm_clients st))" by (simp add: st'(1))
  have q: "set (lock_queue (lm_locks st a)) \<subseteq> dom (lm_clients st)" for a
    using inv(2) by (cases "lm_locks st a") (auto simp: lock_links_def, simp add: lock_queue_def)
  have "client_table (cl_list st') (lm_clients st')"
    using inv(3) x assms(3) old new unfolding client_table_def dom' st'(2) inj_on_insert
    by (auto simp: inj_on_def image_iff)
  moreover have "count (mset (cl_ll e)) a = count (mset (lock_queue (lm_locks st a))) y"
    if "lm_clients st' y = Some e" for y e a
  proof (cases "y = x")
    case True
    then have "y \<notin> set (lock_queue (lm_locks st a))" "cl_ll e = []" using q x that by (auto simp: st'(1))
    then show ?thesis by (simp add: count_mset_0_iff)
  next
    case False
    then show ?thesis using inv(2) that unfolding lock_links_def by (simp add: st'(1))
  qed
  then have "lock_links (lm_locks st') (lm_clients st')"
    using inv(2) unfolding lock_links_def st'(3) dom' by blast
  moreover have "map (client_of (lm_clients st')) (lock_queue (lm_locks st a)) =
      map (client_of (lm_clients st)) (lock_queue (lm_locks st a))" for a
    using old q by (metis (no_types, lifting) map_eq_conv subsetD)
  then have "queues_of (lm_locks st') (lm_clients st') Q"
    using inv(4) unfolding queues_of_def st'(3) by metis
  ultimately show ?thesis using inv(1) unfolding lm_refines_def lm_invar_def st'(3,4) by blast
qed

lemma acquire_client:
  assumes "lm_refines hash st Q" "fresh_malloc malloc"
  obtains st' x e where "(case cl_find_client st c of None \<Rightarrow> cl_add_client malloc c st | Some cl \<Rightarrow> (st, cl)) = (st', x)"
    "lm_refines hash st' Q" "lm_clients st' x = Some e" "cl_client e = c" "lm_out st' = lm_out st"
    "lock_map st' = lock_map st"
proof -
  have ct: "client_table (cl_list st) (lm_clients st)"
    using assms(1) unfolding lm_refines_def lm_invar_def by blast
  show thesis
  proof (cases "cl_find_client st c")
    case None
    then have "c \<notin> client_of (lm_clients st) ` dom (lm_clients st)"
      using find_client_spec [OF ct, of c] by auto
    moreover obtain st' x where add: "cl_add_client malloc c st = (st', x)" by fastforce
    ultimately have "lm_refines hash st' Q" using add_client_refines [OF assms] by metis
    then show thesis using that [of st' x] None add by (auto simp: cl_add_client_def Let_def)
  next
    case (Some x)
    then show thesis using that [of st x] find_client_spec [OF ct, of c] assms(1) by auto
  qed
qed

lemma refines_parts:
  assumes "lm_refines hash st Q"
  shows "lock_table hash (lock_map st) (lm_locks st)" "client_table (cl_list st) (lm_clients st)"
    "lm_clients st x = Some e \<Longrightarrow> count (mset (cl_ll e)) a = count (mset (lock_queue (lm_locks st a))) x"
  using assms unfolding lm_refines_def lm_invar_def lock_links_def by blast+

lemma enqueue_refines:
  assumes ref: "lm_refines hash st Q" and e: "lm_clients st x = Some e" and l: "lm_locks st a = Some l"
  shows "\<exists>st1 st2. lock_wl_add_client a x st = Some st1 \<and> cl_ll_add_lock x a st1 = Some st2 \<and>
    lm_refines hash st2 (Q(lock_name l := Q (lock_name l) @ [cl_client e])) \<and>
    lm_out st2 = lm_out st \<and> lock_map st2 = lock_map st"
proof -
  let ?l = "l\<lparr>lk_wl := lk_wl l @ [x]\<rparr>"
  let ?st1 = "st\<lparr>lm_locks := (lm_locks st)(a \<mapsto> ?l)\<rparr>"
  let ?st2 = "?st1\<lparr>lm_clients := (lm_clients st)(x \<mapsto> e\<lparr>cl_ll := cl_ll e @ [a]\<rparr>)\<rparr>"
  obtain h where h: "lk_cl_entry l = Some h" "h \<in> dom (lm_clients st)" "set (lk_wl l) \<subseteq> dom (lm_clients st)"
    "lock_queue (Some l) = h # lk_wl l" "Q (lock_name l) = map (client_of (lm_clients st)) (h # lk_wl l)"
    using refines_queue [OF ref l] by metis
  have q: "lock_queue (Some ?l) = (h # lk_wl l) @ [x]" using h(1) by (simp add: lock_queue_def)
  have cnt: "count (mset (cl_ll e)) a = count (mset (h # lk_wl l)) x"
    using refines_parts(3) [OF ref e, of a] by (simp add: l h(4))
  have ref2: "lm_refines hash ?st2 (Q(lock_name l := map (client_of (lm_clients st)) (lock_queue (Some ?l))))"
  proof (rule refines_step [OF ref e])
    show "lock_table hash (lock_map ?st2) (lm_locks ?st2)"
      using lock_table_update [OF refines_parts(1) [OF ref] l, of ?l] by (simp add: lock_name_def)
  qed (use h e l q cnt in \<open>auto simp: lock_name_def\<close>)
  have eq: "map (client_of (lm_clients st)) (lock_queue (Some ?l)) = Q (lock_name l) @ [cl_client e]"
    unfolding q h(5) by (simp add: client_of_def e)
  show ?thesis using ref2 unfolding eq
    by (simp add: lock_wl_add_client_def cl_ll_add_lock_def l e)
qed

lemma new_lock_refines:
  assumes ref: "lm_refines hash st Q" and e: "lm_clients st x = Some e" and mal: "fresh_malloc malloc"
    and room: "map_room (lock_map st)" and new: "\<forall>a l. lm_locks st a = Some l \<longrightarrow> lock_name l \<noteq> (d, n)"
  shows "\<exists>st1 a l st2. add_lock malloc hash st d n = Some (st1, a) \<and> lm_locks st1 a = Some l \<and>
    cl_ll_add_lock x a (st1\<lparr>lm_locks := (lm_locks st1)(a \<mapsto> l\<lparr>lk_cl_entry := Some x\<rparr>)\<rparr>) = Some st2 \<and>
    lm_refines hash st2 (Q((d, n) := [cl_client e])) \<and> lm_out st2 = lm_out st \<and>
    map_option cl_client (lm_clients st2 x) = Some (cl_client e) \<and>
    unat (map_size (lock_map st2)) = unat (map_size (lock_map st)) + 1 \<and>
    unat (map_length (lock_map st2)) \<le> max (unat (map_length (lock_map st))) (8 + 3 * unat (map_size (lock_map st)))"
proof -
  let ?a = "malloc (dom (lm_locks st))"
  let ?l = "\<lparr>lk_wl = [], lk_cl_entry = None, domain_name = d, lock_num = n\<rparr>"
  let ?l' = "?l\<lparr>lk_cl_entry := Some x\<rparr>"
  have tab: "lock_table hash (lock_map st) (lm_locks st)" by (rule refines_parts(1) [OF ref])
  then have a: "?a \<notin> dom (lm_locks st)" using mal unfolding fresh_malloc_def lock_table_def by blast
  have nm: "\<forall>b l'. lm_locks st b = Some l' \<longrightarrow> lock_name l' \<noteq> lock_name ?l'" using new by (simp add: lock_name_def)
  obtain m' r where m': "GNUNET_CONTAINER_multihashmap_put (lock_map st) (get_key hash d n) (Some ?a)
      MULTIHASHMAPOPTION_MULTIPLE = Some (m', r)" "lock_table hash m' ((lm_locks st)(?a \<mapsto> ?l'))"
      "unat (map_size m') = unat (map_size (lock_map st)) + 1"
      "unat (map_length m') \<le> max (unat (map_length (lock_map st))) (8 + 3 * unat (map_size (lock_map st)))"
    using lock_table_insert [OF tab room a nm] by auto
  let ?st1 = "st\<lparr>lock_map := m', lm_locks := (lm_locks st)(?a \<mapsto> ?l)\<rparr>"
  let ?st2 = "st\<lparr>lock_map := m', lm_locks := (lm_locks st)(?a \<mapsto> ?l'),
    lm_clients := (lm_clients st)(x \<mapsto> e\<lparr>cl_ll := cl_ll e @ [?a]\<rparr>)\<rparr>"
  have none: "lm_locks st ?a = None" using a by auto
  have q: "lock_queue (Some ?l') = [x]" by (simp add: lock_queue_def)
  have q0: "lock_queue (lm_locks st ?a) = []" by (simp add: lock_queue_def none)
  have cnt: "count (mset (cl_ll e)) ?a = 0"
    using refines_parts(3) [OF ref e, of ?a] by (simp add: q0)
  have "lm_refines hash ?st2 (Q((d, n) := map (client_of (lm_clients st)) (lock_queue (Some ?l'))))"
    by (rule refines_step [OF ref e, where a = ?a and ll = "cl_ll e @ [?a]"])
      (use e q q0 cnt none new m'(2) in \<open>auto simp: lock_name_def\<close>)
  then have "lm_refines hash ?st2 (Q((d, n) := [cl_client e]))" by (simp add: lock_queue_def client_of_def e)
  moreover have "add_lock malloc hash st d n = Some (?st1, ?a)" by (simp add: add_lock_def Let_def m'(1))
  moreover have "cl_ll_add_lock x ?a (?st1\<lparr>lm_locks := (lm_locks ?st1)(?a \<mapsto> ?l')\<rparr>) = Some ?st2"
    by (simp add: cl_ll_add_lock_def e)
  ultimately show ?thesis using m'(3,4) by (intro exI [of _ ?st1] exI [of _ ?a] exI [of _ ?l] exI [of _ ?st2]) simp
qed

lemma map_remove1_inj:
  "inj_on f (set (x # xs)) \<Longrightarrow> map f (remove1 x xs) = remove1 (f x) (map f xs)"
  by (induction xs) (auto simp: inj_on_def)

lemma dequeue_refines:
  assumes ref: "lm_refines hash st Q" and e: "lm_clients st x = Some e" and l: "lm_locks st a = Some l"
    and mem: "x \<in> set (lk_wl l)" and h: "lk_cl_entry l \<noteq> Some x"
  shows "\<exists>st1 st2. cl_ll_remove_lock x a st = Some st1 \<and> lm_locks st1 a = Some l \<and>
    lock_wl_remove a x st1 = Some st2 \<and>
    lm_refines hash st2 (Q(lock_name l := remove1 (cl_client e) (Q (lock_name l)))) \<and>
    lm_out st2 = lm_out st \<and> lock_map st2 = lock_map st"
proof -
  let ?l = "l\<lparr>lk_wl := remove1 x (lk_wl l)\<rparr>"
  let ?st1 = "st\<lparr>lm_clients := (lm_clients st)(x \<mapsto> e\<lparr>cl_ll := remove1 a (cl_ll e)\<rparr>)\<rparr>"
  let ?st2 = "?st1\<lparr>lm_locks := (lm_locks st)(a \<mapsto> ?l)\<rparr>"
  let ?f = "client_of (lm_clients st)"
  obtain y where y: "lk_cl_entry l = Some y" "y \<in> dom (lm_clients st)" "set (lk_wl l) \<subseteq> dom (lm_clients st)"
    "lock_queue (Some l) = y # lk_wl l" "Q (lock_name l) = map ?f (y # lk_wl l)"
    using refines_queue [OF ref l] by metis
  have q: "lock_queue (Some ?l) = y # remove1 x (lk_wl l)" using y(1) by (simp add: lock_queue_def)
  have cnt: "count (mset (cl_ll e)) a = count (mset (y # lk_wl l)) x"
    using refines_parts(3) [OF ref e, of a] by (simp add: l y(4))
  then have ne: "cl_ll e \<noteq> []" using mem by (metis count_mset_0_iff empty_iff list.set(1) list.set_intros(2))
  have ref2: "lm_refines hash ?st2 (Q(lock_name l := map ?f (lock_queue (Some ?l))))"
  proof (rule refines_step [OF ref e, where a = a and ll = "remove1 a (cl_ll e)"])
    show "lock_table hash (lock_map ?st2) (lm_locks ?st2)"
      using lock_table_update [OF refines_parts(1) [OF ref] l, of ?l] by (simp add: lock_name_def)
    show "\<forall>l'. Some ?l = Some l' \<longrightarrow> lk_cl_entry l' \<noteq> None \<and> set (lock_queue (Some l')) \<subseteq> dom (lm_clients st)"
      using y(1-3) q by (auto dest!: notin_set_remove1 set_mp [OF set_remove1_subset])
  qed (use y(1) h e l q cnt y(4) in \<open>auto simp: lock_name_def\<close>)
  have eq: "map ?f (lock_queue (Some ?l)) = remove1 (cl_client e) (Q (lock_name l))"
  proof -
    have "inj_on ?f (dom (lm_clients st))"
      using ref unfolding lm_refines_def lm_invar_def client_table_def by blast
    then have inj: "inj_on ?f (set (x # lk_wl l))"
      by (rule inj_on_subset) (use y(3) e in auto)
    have c: "cl_client e = ?f x" by (simp add: client_of_def e)
    have "?f y \<noteq> ?f x" using refines_client_inj [OF ref y(2), of x] e h y(1) by auto
    moreover have "map ?f (remove1 x (lk_wl l)) = remove1 (?f x) (map ?f (lk_wl l))"
      by (rule map_remove1_inj) (use inj in auto)
    ultimately show ?thesis unfolding q y(5) c by simp
  qed
  show ?thesis using ref2 unfolding eq
    by (simp add: lock_wl_remove_def cl_ll_remove_lock_def l e ne)
qed

lemma process_release_waiting:
  assumes "lm_locks st a = Some l" "lk_wl l = w # ws" "lm_clients st w = Some c"
  shows "process_lock_release hash a st = Some (emit (granted (cl_client c) (lock_name l))
    (st\<lparr>lm_locks := (lm_locks st)(a \<mapsto> l\<lparr>lk_cl_entry := Some w, lk_wl := ws\<rparr>)\<rparr>))"
  using assms
  by (simp add: process_lock_release_def lock_wl_remove_def send_success_msg_def granted_def lock_name_def)

lemma process_release_last:
  assumes "lm_locks st a = Some l" "lk_wl l = []"
    and "GNUNET_CONTAINER_multihashmap_remove (lock_map st) (get_key hash (domain_name l) (lock_num l)) (Some a) =
      (m', GNUNET_YES)"
  shows "process_lock_release hash a st = Some (st\<lparr>lock_map := m', lm_locks := (lm_locks st)(a := None)\<rparr>)"
  using assms by (simp add: process_lock_release_def remove_lock_def)

lemma pop_refines:
  assumes ref: "lm_refines hash st Q" and e: "lm_clients st x = Some e" and l: "lm_locks st a = Some l"
    and h: "lk_cl_entry l = Some x"
  shows "\<exists>st1 st2. cl_ll_remove_lock x a st = Some st1 \<and> lm_locks st1 a = Some l \<and>
    process_lock_release hash a st1 = Some st2 \<and>
    lm_refines hash st2 (Q(lock_name l := tl (Q (lock_name l)))) \<and>
    lm_out st2 = lm_out st @ snd (spec_pop (lock_name l) Q) \<and>
    lm_clients st2 = (lm_clients st)(x \<mapsto> e\<lparr>cl_ll := remove1 a (cl_ll e)\<rparr>) \<and> cl_list st2 = cl_list st \<and>
    (\<forall>b. b \<noteq> a \<longrightarrow> lm_locks st2 b = lm_locks st b) \<and>
    unat (map_size (lock_map st2)) \<le> unat (map_size (lock_map st)) \<and>
    map_length (lock_map st2) = map_length (lock_map st)"
proof -
  let ?f = "client_of (lm_clients st)"
  let ?st1 = "st\<lparr>lm_clients := (lm_clients st)(x \<mapsto> e\<lparr>cl_ll := remove1 a (cl_ll e)\<rparr>)\<rparr>"
  have y: "set (lk_wl l) \<subseteq> dom (lm_clients st)" "lock_queue (Some l) = x # lk_wl l"
    "Q (lock_name l) = map ?f (x # lk_wl l)"
    using refines_queue [OF ref l] h by (metis option.inject)+
  have tab: "lock_table hash (lock_map st) (lm_locks st)" by (rule refines_parts(1) [OF ref])
  have cnt: "count (mset (cl_ll e)) a = count (mset (x # lk_wl l)) x"
    using refines_parts(3) [OF ref e, of a] by (simp add: l y(2))
  then have "cl_ll e \<noteq> []" by auto
  then have st1: "cl_ll_remove_lock x a st = Some ?st1" by (simp add: cl_ll_remove_lock_def e)
  show ?thesis
  proof (cases "lk_wl l")
    case Nil
    obtain m' where m': "GNUNET_CONTAINER_multihashmap_remove (lock_map st)
        (get_key hash (domain_name l) (lock_num l)) (Some a) = (m', GNUNET_YES)"
      "lock_table hash m' ((lm_locks st)(a := None))"
      "unat (map_size m') \<le> unat (map_size (lock_map st))" "map_length m' = map_length (lock_map st)"
      using lock_table_delete [OF tab l] by blast
    let ?st2 = "?st1\<lparr>lock_map := m', lm_locks := (lm_locks st)(a := None)\<rparr>"
    have "lm_refines hash ?st2 (Q(lock_name l := map ?f (lock_queue None)))"
      by (rule refines_step [OF ref e, where a = a and ll = "remove1 a (cl_ll e)"])
        (use l cnt y(2) Nil m'(2) in \<open>auto simp: lock_queue_def\<close>)
    then have "lm_refines hash ?st2 (Q(lock_name l := tl (Q (lock_name l))))"
      using y(3) Nil by (simp add: lock_queue_def)
    moreover have "process_lock_release hash a ?st1 = Some ?st2"
      using process_release_last [of ?st1 a l hash m'] l Nil m'(1) by simp
    ultimately show ?thesis using st1 l m'(3,4) y(3) Nil by (auto simp: spec_pop_def)
  next
    case (Cons w ws)
    then obtain c where c: "lm_clients st w = Some c" using y(1) by auto
    have fw: "?f w = cl_client c" by (simp add: client_of_def c)
    let ?l = "l\<lparr>lk_cl_entry := Some w, lk_wl := ws\<rparr>"
    let ?st2 = "?st1\<lparr>lm_locks := (lm_locks st)(a \<mapsto> ?l)\<rparr>"
    have q: "lock_queue (Some ?l) = w # ws" by (simp add: lock_queue_def)
    have "lm_refines hash ?st2 (Q(lock_name l := map ?f (lock_queue (Some ?l))))"
    proof (rule refines_step [OF ref e, where a = a and ll = "remove1 a (cl_ll e)"])
      show "lock_table hash (lock_map ?st2) (lm_locks ?st2)"
        using lock_table_update [OF tab l, of ?l] by (simp add: lock_name_def)
    qed (use y(1,2) l q cnt Cons in \<open>auto simp: lock_name_def\<close>)
    then have "lm_refines hash ?st2 (Q(lock_name l := tl (Q (lock_name l))))"
      unfolding q y(3) Cons by simp
    moreover have "\<exists>c'. lm_clients ?st1 w = Some c' \<and> cl_client c' = cl_client c" using c e by auto
    then have "process_lock_release hash a ?st1 = Some (emit (granted (cl_client c) (lock_name l)) ?st2)"
      using process_release_waiting [of ?st1 a l w ws _ hash] l Cons by auto
    ultimately show ?thesis using st1 l y(3) Cons fw by (auto simp: spec_pop_def)
  qed
qed

datatype 'c request = Acquire 'c "byte list" | Release 'c "byte list"

definition msg_name :: "byte list \<Rightarrow> lock_name" where
  "msg_name msg = (request_domain msg, request_lock msg)"

fun spec_step :: "'c request \<Rightarrow> 'c queues \<Rightarrow> 'c queues \<times> 'c lm_event list" where
  "spec_step (Acquire c msg) Q =
     (if bad_request msg then (Q, [Receive_done c GNUNET_SYSERR]) else spec_acquire c (msg_name msg) Q)"
| "spec_step (Release c msg) Q =
     (if bad_request msg then (Q, [Receive_done c GNUNET_SYSERR]) else spec_release c (msg_name msg) Q)"

fun lm_step ::
    "(nat set \<Rightarrow> nat) \<Rightarrow> (byte list \<Rightarrow> GNUNET_HashCode) \<Rightarrow> 'c request \<Rightarrow> 'c lm_state \<Rightarrow> 'c lm_state option" where
  "lm_step malloc hash (Acquire c msg) st = handle_acquire malloc hash c msg st"
| "lm_step malloc hash (Release c msg) st = handle_release hash c msg st"

definition lm_bounded :: "nat \<Rightarrow> 'c lm_state \<Rightarrow> bool" where
  "lm_bounded k st \<longleftrightarrow> unat (map_size (lock_map st)) \<le> k \<and> unat (map_length (lock_map st)) \<le> 32 + 3 * k"

lemma lm_bounded_emit [simp]: "lm_bounded k (emit e st) = lm_bounded k st"
  by (simp add: lm_bounded_def)

lemma lm_bounded_room: "lm_bounded k st \<Longrightarrow> k < 536870912 \<Longrightarrow> map_room (lock_map st)"
  by (auto simp: lm_bounded_def map_room_def word_less_nat_alt)

lemma lm_bounded_mono:
  "lm_bounded k st \<Longrightarrow> unat (map_size (lock_map st')) \<le> unat (map_size (lock_map st)) \<Longrightarrow>
   map_length (lock_map st') = map_length (lock_map st) \<Longrightarrow> lm_bounded (Suc k) st'"
  by (simp add: lm_bounded_def)

lemma lm_bounded_put:
  "lm_bounded k st \<Longrightarrow> unat (map_size (lock_map st')) = unat (map_size (lock_map st)) + 1 \<Longrightarrow>
   unat (map_length (lock_map st')) \<le> max (unat (map_length (lock_map st))) (8 + 3 * unat (map_size (lock_map st))) \<Longrightarrow>
   lm_bounded (Suc k) st'"
  by (auto simp: lm_bounded_def)

lemma no_lock_no_queue:
  assumes "lm_refines hash st Q" "\<forall>a l. lm_locks st a = Some l \<longrightarrow> lock_name l \<noteq> k"
  shows "Q k = []"
  using assms unfolding lm_refines_def queues_of_def by blast

lemma handle_acquire_refines:
  assumes ref: "lm_refines hash st Q" and mal: "fresh_malloc malloc" and bd: "lm_bounded k st" "k < 536870912"
  shows "\<exists>st'. handle_acquire malloc hash c msg st = Some st' \<and>
    lm_refines hash st' (fst (spec_step (Acquire c msg) Q)) \<and>
    lm_out st' = lm_out st @ snd (spec_step (Acquire c msg) Q) \<and> lm_bounded (Suc k) st'"
proof (cases "bad_request msg")
  case True
  then show ?thesis using ref lm_bounded_mono [OF bd(1), of st] by (simp add: handle_acquire_def)
next
  case False
  let ?d = "request_domain msg" and ?n = "request_lock msg"
  obtain st1 x e where st1: "(case cl_find_client st c of None \<Rightarrow> cl_add_client malloc c st | Some cl \<Rightarrow> (st, cl)) = (st1, x)"
    "lm_refines hash st1 Q" "lm_clients st1 x = Some e" "cl_client e = c" "lm_out st1 = lm_out st"
    "lock_map st1 = lock_map st"
    by (rule acquire_client [OF ref mal])
  have x: "x \<in> dom (lm_clients st1)" "client_of (lm_clients st1) x = c" using st1 by (auto simp: client_of_def)
  from find_lock_spec [OF refines_parts(1) [OF st1(2)], of ?d ?n] consider
      (new) "find_lock hash st1 ?d ?n = Some None" "\<forall>a l. lm_locks st1 a = Some l \<longrightarrow> lock_name l \<noteq> (?d, ?n)"
    | (old) a l where "find_lock hash st1 ?d ?n = Some (Some a)" "lm_locks st1 a = Some l" "lock_name l = (?d, ?n)"
    by blast
  then show ?thesis
  proof cases
    case new
    have room: "map_room (lock_map st1)" using lm_bounded_room [OF bd] st1(6) by simp
    obtain st2 a l st3 where st3: "add_lock malloc hash st1 ?d ?n = Some (st2, a)" "lm_locks st2 a = Some l"
      "cl_ll_add_lock x a (st2\<lparr>lm_locks := (lm_locks st2)(a \<mapsto> l\<lparr>lk_cl_entry := Some x\<rparr>)\<rparr>) = Some st3"
      "lm_refines hash st3 (Q((?d, ?n) := [cl_client e]))" "lm_out st3 = lm_out st1"
      "map_option cl_client (lm_clients st3 x) = Some (cl_client e)"
      "unat (map_size (lock_map st3)) = unat (map_size (lock_map st1)) + 1"
      "unat (map_length (lock_map st3)) \<le> max (unat (map_length (lock_map st1))) (8 + 3 * unat (map_size (lock_map st1)))"
      using new_lock_refines [OF st1(2,3) mal room new(2)] by blast
    obtain e3 where e3: "lm_clients st3 x = Some e3" "cl_client e3 = c" using st3(6) st1(4) by auto
    have "lm_bounded (Suc k) st3" using lm_bounded_put [OF bd(1)] st3(7,8) st1(6) by simp
    moreover have "handle_acquire malloc hash c msg st =
        Some (emit (Receive_done c GNUNET_OK) (send_success_msg c ?d ?n st3))"
      using False new(1) st1(1) st3(1-3) e3 by (simp add: handle_acquire_def)
    ultimately show ?thesis
      using False no_lock_no_queue [OF st1(2) new(2)] st1(4,5) st3(4,5)
      by (simp add: spec_acquire_def msg_name_def granted_def send_success_msg_def)
  next
    case old
    obtain h where h: "lk_cl_entry l = Some h" "h \<in> dom (lm_clients st1)"
        "Q (?d, ?n) = map (client_of (lm_clients st1)) (h # lk_wl l)"
      using refines_queue [OF st1(2) old(2)] unfolding old(3) by metis
    show ?thesis
    proof (cases "h = x")
      case True
      then have "handle_acquire malloc hash c msg st = Some (emit (Receive_done c GNUNET_SYSERR) st1)"
        using False old(1,2) st1(1) h(1) by (simp add: handle_acquire_def)
      then show ?thesis using True False st1(2,5,6) h(3) x(2) lm_bounded_mono [OF bd(1), of st1]
        by (simp add: spec_acquire_def msg_name_def)
    next
      case ne: False
      have hd: "client_of (lm_clients st1) h \<noteq> c"
        using refines_client_inj [OF st1(2) h(2) x(1)] ne unfolding x(2) by blast
      obtain st2 st3 where st3: "lock_wl_add_client a x st1 = Some st2" "cl_ll_add_lock x a st2 = Some st3"
        "lm_refines hash st3 (Q((?d, ?n) := Q (?d, ?n) @ [c]))" "lm_out st3 = lm_out st" "lock_map st3 = lock_map st"
        using enqueue_refines [OF st1(2,3) old(2)] unfolding old(3) st1(4-6) by blast
      then have "handle_acquire malloc hash c msg st = Some (emit (Receive_done c GNUNET_OK) st3)"
        using False old(1,2) st1(1) h(1) ne by (simp add: handle_acquire_def)
      then show ?thesis using False st3(3-5) h(3) hd lm_bounded_mono [OF bd(1), of st3]
        by (simp add: spec_acquire_def msg_name_def)
    qed
  qed
qed

lemma handle_release_known:
  assumes ref: "lm_refines hash st Q" and bd: "lm_bounded k st" and ok: "\<not> bad_request msg"
    and x: "cl_find_client st c = Some x" "lm_clients st x = Some e" "cl_client e = c"
    and found: "find_lock hash st (request_domain msg) (request_lock msg) = Some (Some a)"
    and l: "lm_locks st a = Some l" "lock_name l = msg_name msg" and mem: "a \<in> set (cl_ll e)"
  shows "\<exists>st'. handle_release hash c msg st = Some st' \<and>
    lm_refines hash st' (fst (spec_release c (msg_name msg) Q)) \<and>
    lm_out st' = lm_out st @ snd (spec_release c (msg_name msg) Q) \<and> lm_bounded (Suc k) st'"
proof -
  have inQ: "c \<in> set (Q (msg_name msg))" using refines_member [OF ref l(1) x(2)] mem x(3) l(2) by simp
  have ll: "\<exists>b. cl_ll_find_lock e a = Some b" using mem by (cases "cl_ll_find_lock e a") (auto simp: cl_ll_find_lock_def find_None_iff)
  have cx: "x \<in> dom (lm_clients st)" "client_of (lm_clients st) x = c" using x(2,3) by (auto simp: client_of_def)
  obtain h where h: "lk_cl_entry l = Some h" "h \<in> dom (lm_clients st)" "lock_queue (Some l) = h # lk_wl l"
      "Q (msg_name msg) = map (client_of (lm_clients st)) (h # lk_wl l)"
    using refines_queue [OF ref l(1)] unfolding l(2) by metis
  have hd: "hd (Q (msg_name msg)) = c \<longleftrightarrow> h = x"
    using refines_client_inj [OF ref h(2) cx(1)] unfolding cx(2) h(4) by simp
  show ?thesis
  proof (cases "h = x")
    case True
    obtain st1 st2 where st2: "cl_ll_remove_lock x a st = Some st1" "lm_locks st1 a = Some l"
      "process_lock_release hash a st1 = Some st2"
      "lm_refines hash st2 (Q(msg_name msg := tl (Q (msg_name msg))))"
      "lm_out st2 = lm_out st @ snd (spec_pop (msg_name msg) Q)"
      "unat (map_size (lock_map st2)) \<le> unat (map_size (lock_map st))"
      "map_length (lock_map st2) = map_length (lock_map st)"
      using pop_refines [OF ref x(2) l(1)] h(1) True unfolding l(2) by blast
    have "handle_release hash c msg st = Some (emit (Receive_done c GNUNET_OK) st2)"
      using ok x found ll st2(1-3) h(1) True by (auto simp: handle_release_def Let_def)
    then show ?thesis
      using inQ hd True st2(4,5) lm_bounded_mono [OF bd st2(6,7)] by (simp add: spec_release_def spec_pop_def)
  next
    case False
    have "count (mset (cl_ll e)) a = count (mset (h # lk_wl l)) x"
      using refines_parts(3) [OF ref x(2), of a] by (simp add: l h(3))
    then have wl: "x \<in> set (lk_wl l)"
      using mem False by (metis count_mset_0_iff set_ConsD)
    have ne: "lk_cl_entry l \<noteq> Some x" using h(1) False by simp
    from wl have wf: "\<exists>b. lock_wl_find l x = Some b"
      by (cases "lock_wl_find l x") (auto simp: lock_wl_find_def find_None_iff)
    obtain st1 st2 where st2: "cl_ll_remove_lock x a st = Some st1" "lm_locks st1 a = Some l"
      "lock_wl_remove a x st1 = Some st2"
      "lm_refines hash st2 (Q(msg_name msg := remove1 c (Q (msg_name msg))))"
      "lm_out st2 = lm_out st" "lock_map st2 = lock_map st"
      using dequeue_refines [OF ref x(2) l(1) wl] ne unfolding l(2) x(3) by blast
    have "handle_release hash c msg st = Some (emit (Receive_done c GNUNET_OK) st2)"
      using ok x found ll st2(1-3) h(1) False wf by (auto simp: handle_release_def Let_def)
    then show ?thesis
      using inQ hd False st2(4-6) lm_bounded_mono [OF bd, of st2] by (simp add: spec_release_def)
  qed
qed

lemma unknown_not_queued:
  assumes ref: "lm_refines hash st Q" and no: "c \<notin> client_of (lm_clients st) ` dom (lm_clients st)"
  shows "c \<notin> set (Q k)"
proof
  assume c: "c \<in> set (Q k)"
  then obtain a l where l: "lm_locks st a = Some l" "lock_name l = k"
    using no_lock_no_queue [OF ref, of k] by fastforce
  obtain h where "h \<in> dom (lm_clients st)" "set (lk_wl l) \<subseteq> dom (lm_clients st)"
    "Q k = map (client_of (lm_clients st)) (h # lk_wl l)"
    using refines_queue [OF ref l(1)] unfolding l(2) by metis
  then show False using no c by auto
qed

lemma handle_release_refines:
  assumes ref: "lm_refines hash st Q" and bd: "lm_bounded k st"
  shows "\<exists>st'. handle_release hash c msg st = Some st' \<and>
    lm_refines hash st' (fst (spec_step (Release c msg) Q)) \<and>
    lm_out st' = lm_out st @ snd (spec_step (Release c msg) Q) \<and> lm_bounded (Suc k) st'"
proof -
  let ?d = "request_domain msg" and ?n = "request_lock msg"
  let ?fail = "emit (Receive_done c GNUNET_SYSERR) st"
  have fail: ?thesis if "handle_release hash c msg st = Some ?fail" "bad_request msg \<or> c \<notin> set (Q (?d, ?n))"
    using that ref lm_bounded_mono [OF bd, of st] by (auto simp: spec_release_def msg_name_def)
  show ?thesis
  proof (cases "bad_request msg")
    case True
    then show ?thesis by (intro fail) (simp_all add: handle_release_def)
  next
    case False
    from find_client_spec [OF refines_parts(2) [OF ref], of c] consider
        (no) "cl_find_client st c = None" "c \<notin> client_of (lm_clients st) ` dom (lm_clients st)"
      | (yes) x e where "cl_find_client st c = Some x" "lm_clients st x = Some e" "cl_client e = c" by metis
    then show ?thesis
    proof cases
      case no
      have "c \<notin> set (Q (?d, ?n))" by (rule unknown_not_queued [OF ref no(2)])
      then show ?thesis using no False by (intro fail) (simp_all add: handle_release_def)
    next
      case yes
      from find_lock_spec [OF refines_parts(1) [OF ref], of ?d ?n] consider
          (none) "find_lock hash st ?d ?n = Some None" "\<forall>a l. lm_locks st a = Some l \<longrightarrow> lock_name l \<noteq> (?d, ?n)"
        | (some) a l where "find_lock hash st ?d ?n = Some (Some a)" "lm_locks st a = Some l" "lock_name l = (?d, ?n)"
        by blast
      then show ?thesis
      proof cases
        case none
        then show ?thesis using yes False no_lock_no_queue [OF ref none(2)]
          by (intro fail) (simp_all add: handle_release_def)
      next
        case some
        show ?thesis
        proof (cases "a \<in> set (cl_ll e)")
          case True
          then show ?thesis
            using handle_release_known [OF ref bd False yes some(1,2)] some(3) False by (simp add: msg_name_def)
        next
          case no: False
          then have "cl_ll_find_lock e a = None" by (auto simp: cl_ll_find_lock_def find_None_iff)
          then show ?thesis using yes False no some refines_member [OF ref some(2) yes(2)]
            by (intro fail) (simp_all add: handle_release_def)
        qed
      qed
    qed
  qed
qed

section \<open>Runs\<close>

lemma lm_step_refines:
  assumes "lm_refines hash st Q" "fresh_malloc malloc" "lm_bounded k st" "k < 536870912"
  shows "\<exists>st'. lm_step malloc hash r st = Some st' \<and> lm_refines hash st' (fst (spec_step r Q)) \<and>
    lm_out st' = lm_out st @ snd (spec_step r Q) \<and> lm_bounded (Suc k) st'"
proof (cases r)
  case (Acquire c msg)
  then show ?thesis using handle_acquire_refines [OF assms, of c msg] by (simp only: lm_step.simps)
next
  case (Release c msg)
  then show ?thesis using handle_release_refines [OF assms(1,3), of c msg] by (simp only: lm_step.simps)
qed




lemma lockmanager_run_refines:
  "\<exists>st. lockmanager_run = Some st \<and> lm_refines hash st (\<lambda>_. []) \<and> lm_bounded 0 st \<and> lm_out st = []"
proof -
  obtain m :: "nat GNUNET_CONTAINER_MultiHashMap" where m: "GNUNET_CONTAINER_multihashmap_create 32 False = Some m"
    "map_invar m" "map_pairs m = {#}" "map_length m = 32" "map_size m = 0"
    by (rule create_spec [of 32 False]) simp_all
  then show ?thesis
    by (simp add: lockmanager_run_def lm_refines_def lm_invar_def lock_table_def lock_links_def client_table_def
        queues_of_def lm_bounded_def)
qed

section \<open>What the clients see\<close>

text \<open>
  A client holds a lock from the moment it gets the success message for it until it sends a release
  for it; \<open>holders\<close> replays a log of requests and the messages they caused.
\<close>

fun grants :: "'c lm_event list \<Rightarrow> (lock_name \<Rightarrow> 'c set) \<Rightarrow> lock_name \<Rightarrow> 'c set" where
  "grants [] H = H"
| "grants (Transmit c msg # es) H = grants es (H(msg_name msg := insert c (H (msg_name msg))))"
| "grants (Receive_done c r # es) H = grants es H"


lemma msg_name_success [simp]: "0 \<notin> set d \<Longrightarrow> msg_name (success_msg d n) = (d, n)"
proof -
  assume "0 \<notin> set d"
  then have "takeWhile (\<lambda>b. b \<noteq> 0) (d @ [0]) = d" by (subst takeWhile_append2) auto
  moreover have "request_lock (success_msg d n) = n"
    using get_be_append(2) [of "be16 (of_nat (9 + length d)) @ be16 452" "be32 n @ d @ [0]" 0]
    by (simp add: request_lock_def success_msg_def Let_def)
  ultimately show ?thesis
    by (simp add: msg_name_def request_domain_def success_msg_def Let_def)
qed

lemma request_domain_no_NUL [simp]: "0 \<notin> set (request_domain msg)"
  unfolding request_domain_def by (auto dest: set_takeWhileD)

lemma grants_granted [simp]:
  "grants (granted c (msg_name m) # es) H = grants es (H(msg_name m := insert c (H (msg_name m))))"
proof -
  have "msg_name (success_msg (request_domain m) (request_lock m)) = msg_name m"
    by (simp add: msg_name_def [of m])
  then show ?thesis by (simp add: granted_def msg_name_def [of m])
qed







section \<open>Disconnects\<close>





lemma find_client_cases:
  assumes "lm_refines hash st Q"
  obtains (unknown) "cl_find_client st c = None" "\<forall>k. c \<notin> set (Q k)"
  | (known) x e where "cl_find_client st c = Some x" "lm_clients st x = Some e" "cl_client e = c"
  using find_client_spec [OF refines_parts(2) [OF assms], of c] unknown_not_queued [OF assms] by metis

lemma queued_lock:
  assumes ref: "lm_refines hash st Q" and e: "lm_clients st x = Some e"
  shows "cl_client e \<in> set (Q k) \<longleftrightarrow> (\<exists>a l. lm_locks st a = Some l \<and> lock_name l = k \<and> a \<in> set (cl_ll e))"
  using refines_member [OF ref _ e] no_lock_no_queue [OF ref] by (metis empty_iff list.set(1))

lemma lock_list_present:
  assumes ref: "lm_refines hash st Q" and e: "lm_clients st x = Some e" and a: "a \<in> set (cl_ll e)"
  obtains l h where "lm_locks st a = Some l" "lk_cl_entry l = Some h" "Q (lock_name l) = map (client_of (lm_clients st)) (h # lk_wl l)"
    "count (mset (cl_ll e)) a = count (mset (h # lk_wl l)) x" "h \<in> dom (lm_clients st)"
proof -
  have cnt: "count (mset (cl_ll e)) a = count (mset (lock_queue (lm_locks st a))) x"
    by (rule refines_parts(3) [OF ref e])
  then have "lock_queue (lm_locks st a) \<noteq> []" using a by (metis count_mset_0_iff empty_iff list.set(1))
  then obtain l where l: "lm_locks st a = Some l" by (cases "lm_locks st a") (auto simp: lock_queue_def)
  then show thesis using that refines_queue [OF ref l] cnt by metis
qed



lemma disconnect_waiter:
  assumes ref: "lm_refines hash st Q" and q: "Q k = h # w # ws" and c: "c \<in> set (w # ws)" "distinct (Q k)"
    and only: "\<forall>j. j \<noteq> k \<longrightarrow> c \<notin> set (Q j)"
  shows "\<exists>st'. client_disconnect_cb hash (Some c) st = Some st' \<and> lm_out st' = lm_out st @ [granted w k]"
  using ref
proof (cases rule: find_client_cases [where c = c])
  case unknown
  then show ?thesis using c q by (metis list.set_intros(2))
next
  case (known x e)
  have "c \<in> set (Q k)" using c q by simp
  then obtain a where a: "a \<in> set (cl_ll e)" using queued_lock [OF ref known(2), of k] known(3) by auto
  have loc: "lm_locks st b = Some l \<Longrightarrow> b \<in> set (cl_ll e) \<Longrightarrow> lock_name l = k" for b l
    using refines_member [OF ref _ known(2)] only known(3) by metis
  obtain l y where l: "lm_locks st a = Some l" "Q (lock_name l) = map (client_of (lm_clients st)) (y # lk_wl l)"
    "count (mset (cl_ll e)) a = count (mset (y # lk_wl l)) x"
    using lock_list_present [OF ref known(2) a] by metis
  have nm: "lock_name l = k" by (rule loc [OF l(1) a])
  then have wl: "map (client_of (lm_clients st)) (lk_wl l) = w # ws" and dist: "distinct (y # lk_wl l)"
    using l(2) q c(2) by (auto simp: distinct_map)
  then obtain v vs where v: "lk_wl l = v # vs" "client_of (lm_clients st) v = w" by auto
  have vin: "v \<in> dom (lm_clients st)"
    using refines_queue [OF ref l(1)] v(1) by (metis list.set_intros(1) subset_iff)
  have only_a: "b = a" if b: "b \<in> set (cl_ll e)" for b
  proof -
    obtain l' where "lm_locks st b = Some l'" using lock_list_present [OF ref known(2) b] by metis
    then show ?thesis using loc [OF _ b] nm l(1) refines_parts(1) [OF ref] unfolding lock_table_def by metis
  qed
  have "count (mset (cl_ll e)) a \<le> 1" unfolding l(3) using dist by (simp add: distinct_count_atmost_1)
  then have ll: "cl_ll e = [a]"
    using a only_a by (cases "cl_ll e"; cases "tl (cl_ll e)") auto
  let ?st1 = "st\<lparr>lm_clients := (lm_clients st)(x \<mapsto> e\<lparr>cl_ll := []\<rparr>)\<rparr>"
  let ?st2 = "?st1\<lparr>lm_locks := (lm_locks st)(a \<mapsto> l\<lparr>lk_cl_entry := Some v, lk_wl := vs\<rparr>)\<rparr>"
  obtain cv where cv: "lm_clients ?st1 v = Some cv" "cl_client cv = w"
    using vin v(2) known(2,3) by (cases "v = x") (auto simp: client_of_def)
  have "process_lock_release hash a ?st1 = Some (emit (granted w k) ?st2)"
    using process_release_waiting [of ?st1 a l v vs cv hash] l(1) v(1) cv nm by simp
  then show ?thesis using known(1,2) ll
    by (simp add: client_disconnect_cb_def cl_ll_remove_lock_def cl_remove_client_def)
qed

fun lm_run ::
    "(nat set \<Rightarrow> nat) \<Rightarrow> (byte list \<Rightarrow> GNUNET_HashCode) \<Rightarrow> 'c request list \<Rightarrow> 'c lm_state \<Rightarrow> 'c lm_state option" where
  "lm_run malloc hash [] st = Some st"
| "lm_run malloc hash (r # rs) st = Option.bind (lm_step malloc hash r st) (lm_run malloc hash rs)"

lemma lm_run_refines:
  assumes "lm_refines hash st Q" "fresh_malloc malloc" "lm_bounded k st" "k + length rs \<le> 536870912"
  shows "\<exists>st'. lm_run malloc hash rs st = Some st' \<and> lm_refines hash st' (fold (\<lambda>r. fst \<circ> spec_step r) rs Q)"
  using assms
proof (induction rs arbitrary: st Q k)
  case (Cons r rs)
  then obtain st' where st': "lm_step malloc hash r st = Some st'" "lm_refines hash st' (fst (spec_step r Q))"
      "lm_bounded (Suc k) st'"
    using lm_step_refines [OF Cons.prems(1-3), of r] by auto
  then show ?case using Cons.IH [OF st'(2) Cons.prems(2) st'(3)] Cons.prems(4) by simp
qed simp

section \<open>Properties\<close>


definition example_malloc :: "nat set \<Rightarrow> nat" where
  "example_malloc A = Suc (Max (insert 0 A))"

lemma example_malloc_fresh: "fresh_malloc example_malloc"
  unfolding fresh_malloc_def example_malloc_def
  by (metis Max_ge Suc_n_not_le_n finite_insert insertCI)

definition example_lock :: "byte list" where
  "example_lock = [0, 0, 0, 0, 0, 0, 0, 7, 65, 66, 0]"

lemma example_lock_request [simp]: "\<not> bad_request example_lock" "msg_name example_lock = ([65, 66], 7)"
  by (simp_all add: example_lock_def bad_request_def msg_name_def request_domain_def request_lock_def get_be32_def)





lemma example_queue:
  "\<exists>st :: nat lm_state. lm_refines (\<lambda>_. 0) st ((\<lambda>_. [])(([65, 66], 7) := [10, 20, 30]))"
proof -
  let ?rs = "[Acquire (10 :: nat) example_lock, Acquire 20 example_lock, Acquire 30 example_lock]"
  obtain st0 st :: "nat lm_state" where "lm_refines (\<lambda>_. 0) st (fold (\<lambda>r. fst \<circ> spec_step r) ?rs (\<lambda>_. []))"
    using lockmanager_run_refines [of "\<lambda>_. 0"] lm_run_refines [OF _ example_malloc_fresh, of "\<lambda>_. 0" _ "\<lambda>_. []" 0 ?rs] by auto
  then show ?thesis by (auto simp: spec_acquire_def)
qed


text \<open>
  C7: The disconnect of a client that is only waiting for a lock grants that lock to the first waiting
  client although its holder has not released it, so that two clients hold it.
\<close>

theorem lockmanager_disconnect_waiter_grants:
  assumes "lm_refines hash st Q" "Q k = h # w # ws" "c \<in> set (w # ws)" "distinct (Q k)"
    and "\<forall>j. j \<noteq> k \<longrightarrow> c \<notin> set (Q j)"
  shows "\<exists>st'. client_disconnect_cb hash (Some c) st = Some st' \<and> lm_out st' = lm_out st @ [granted w k]"
  using assms by (rule disconnect_waiter)

theorem lockmanager_disconnect_waiter_grants_witness:
  "\<exists>st st' :: nat lm_state. lm_refines (\<lambda>_. 0) st ((\<lambda>_. [])(([65, 66], 7) := [10, 20, 30])) \<and>
     client_disconnect_cb (\<lambda>_. 0) (Some 30) st = Some st' \<and>
     lm_out st' = lm_out st @ [granted 20 ([65, 66], 7)]"
proof -
  let ?Q = "(\<lambda>_. [])(([65, 66], 7) := [10, 20, 30 :: nat])"
  obtain st :: "nat lm_state" where st: "lm_refines (\<lambda>_. 0) st ?Q" using example_queue by blast
  have "\<exists>st'. client_disconnect_cb (\<lambda>_. 0) (Some 30) st = Some st' \<and>
      lm_out st' = lm_out st @ [granted 20 ([65, 66], 7)]"
    by (rule lockmanager_disconnect_waiter_grants [OF st, of _ 10 20 "[30]"]) simp_all
  then show ?thesis using st by blast
qed

section \<open>Shutdown\<close>

text \<open>
  The map iteration fetches the next entry before it calls the iterator, so that the iterator may remove
  the entry it is called with; the iteration is over the entries that the map has at its start.
\<close>

definition lock_delete_iterator :: "(nat, 'c lm_state option) HashMapIterator" where
  "lock_delete_iterator s key value =
     (do { st \<leftarrow> s;
           lock \<leftarrow> value;
           l \<leftarrow> lm_locks st lock;
           (case GNUNET_CONTAINER_multihashmap_remove (lock_map st) key (Some lock) of
              (m, res) \<Rightarrow>
                if res = GNUNET_YES then Some (st\<lparr>lock_map := m, lm_locks := (lm_locks st)(lock := None)\<rparr>)
                else None) }, GNUNET_YES)"

fun clear_lock_list :: "nat \<Rightarrow> nat list \<Rightarrow> 'c lm_state \<Rightarrow> 'c lm_state option" where
  "clear_lock_list cl [] st = Some st"
| "clear_lock_list cl (lock # locks) st =
     do { st' \<leftarrow> cl_ll_remove_lock cl lock st; clear_lock_list cl locks st' }"

fun clear_client_list :: "nat list \<Rightarrow> 'c lm_state \<Rightarrow> 'c lm_state option" where
  "clear_client_list [] st = Some st"
| "clear_client_list (cl # cls) st =
     do { c \<leftarrow> lm_clients st cl;
          st1 \<leftarrow> clear_lock_list cl (cl_ll c) st;
          st2 \<leftarrow> cl_remove_client cl st1;
          clear_client_list cls st2 }"

definition shutdown_task :: "'c lm_state \<Rightarrow> 'c lm_state option" where
  "shutdown_task st =
     do { st1 \<leftarrow> clear_client_list (cl_list st) st;
          st2 \<leftarrow> fst (GNUNET_CONTAINER_multihashmap_iterate (lock_map st1) (Some lock_delete_iterator) (Some st1));
          if GNUNET_CONTAINER_multihashmap_size (lock_map st2) = 0 then Some st2 else None }"

lemma clear_lock_list_spec:
  "lm_clients st x = Some e \<Longrightarrow> cl_ll e = ll \<Longrightarrow>
   clear_lock_list x ll st = Some (st\<lparr>lm_clients := (lm_clients st)(x \<mapsto> e\<lparr>cl_ll := []\<rparr>)\<rparr>)"
proof (induction ll arbitrary: st e)
  case Nil
  then show ?case by (simp add: fun_upd_idem)
next
  case (Cons a ll)
  let ?st = "st\<lparr>lm_clients := (lm_clients st)(x \<mapsto> e\<lparr>cl_ll := ll\<rparr>)\<rparr>"
  have "cl_ll_remove_lock x a st = Some ?st" using Cons.prems by (simp add: cl_ll_remove_lock_def)
  moreover have "?st\<lparr>lm_clients := (lm_clients ?st)(x \<mapsto> e\<lparr>cl_ll := ll, cl_ll := []\<rparr>)\<rparr> =
      st\<lparr>lm_clients := (lm_clients st)(x \<mapsto> e\<lparr>cl_ll := []\<rparr>)\<rparr>" by simp
  then have "clear_lock_list x ll ?st = Some (st\<lparr>lm_clients := (lm_clients st)(x \<mapsto> e\<lparr>cl_ll := []\<rparr>)\<rparr>)"
    using Cons.IH [of ?st "e\<lparr>cl_ll := ll\<rparr>"] by (simp add: fun_upd_def)
  ultimately show ?case by (simp add: fun_upd_def)
qed

lemma clear_client_list_spec:
  "cl_list st = cls \<Longrightarrow> distinct cls \<Longrightarrow> set cls = dom (lm_clients st) \<Longrightarrow>
   clear_client_list cls st = Some (st\<lparr>lm_clients := Map.empty, cl_list := []\<rparr>)"
proof (induction cls arbitrary: st)
  case Nil
  then have "lm_clients st = Map.empty" by auto
  then show ?case using Nil by simp
next
  case (Cons x cls)
  then obtain e where e: "lm_clients st x = Some e" by auto
  let ?st = "st\<lparr>lm_clients := (lm_clients st)(x := None), cl_list := cls\<rparr>"
  have "clear_client_list cls ?st = Some (?st\<lparr>lm_clients := Map.empty, cl_list := []\<rparr>)"
    by (rule Cons.IH) (use Cons.prems in \<open>auto split: if_splits\<close>)
  then show ?case using e Cons.prems(1)
    by (simp add: clear_lock_list_spec cl_remove_client_def)
qed

lemma iterate_visit:
  "\<exists>ps. mset ps = map_pairs m \<and>
     fst (GNUNET_CONTAINER_multihashmap_iterate m (Some f) s) = fst (visit f ps s)"
  by (intro exI [of _ "map pair_of (concat (map_buckets m))"])
    (simp add: map_pairs_def GNUNET_CONTAINER_multihashmap_iterate_def buckets_iterate_visit split: prod.splits)

lemma delete_locks:
  "lock_table hash (lock_map st) (lm_locks st) \<Longrightarrow> mset ps = map_pairs (lock_map st) \<Longrightarrow>
   \<exists>m. fst (visit lock_delete_iterator ps (Some st)) = Some (st\<lparr>lock_map := m, lm_locks := Map.empty\<rparr>) \<and>
     map_invar m \<and> map_pairs m = {#}"
proof (induction ps arbitrary: st)
  case Nil
  then have "mset_set (dom (lm_locks st)) = {#}" "finite (dom (lm_locks st))" "map_invar (lock_map st)"
    by (simp_all add: lock_table_def)
  then have "lm_locks st = Map.empty" by (simp add: mset_set_empty_iff)
  then show ?case using Nil \<open>map_invar (lock_map st)\<close> by (intro exI [of _ "lock_map st"]) simp
next
  case (Cons p ps)
  have inv: "map_invar (lock_map st)" and pairs: "map_pairs (lock_map st) =
      image_mset (lock_entry hash (lm_locks st)) (mset_set (dom (lm_locks st)))" "finite (dom (lm_locks st))"
    using Cons.prems(1) unfolding lock_table_def by blast+
  have mem: "p \<in># map_pairs (lock_map st)" using Cons.prems(2) by (metis list.set_intros(1) set_mset_mset)
  then obtain a l where l: "lm_locks st a = Some l" "p = (get_key hash (domain_name l) (lock_num l), Some a)"
    using pairs by (auto simp: lock_entry_def)
  obtain m where m: "GNUNET_CONTAINER_multihashmap_remove (lock_map st)
      (get_key hash (domain_name l) (lock_num l)) (Some a) = (m, GNUNET_YES)"
      "lock_table hash m ((lm_locks st)(a := None))"
    using lock_table_delete [OF Cons.prems(1) l(1)] by blast
  have "map_pairs m = map_pairs (lock_map st) - {#p#}"
    using mhm.remove_some [OF inv mem [unfolded l(2)]] m(1) l(2) by auto
  then have ps: "mset ps = map_pairs m" using Cons.prems(2) by (metis add_mset_remove_trivial mset.simps(2))
  let ?st = "st\<lparr>lock_map := m, lm_locks := (lm_locks st)(a := None)\<rparr>"
  have "visit lock_delete_iterator (p # ps) (Some st) = visit lock_delete_iterator ps (Some ?st)"
    using l m(1) by (simp add: lock_delete_iterator_def)
  moreover obtain m' where "fst (visit lock_delete_iterator ps (Some ?st)) = Some (?st\<lparr>lock_map := m', lm_locks := Map.empty\<rparr>)"
      "map_invar m'" "map_pairs m' = {#}"
    using Cons.IH [of ?st] m(2) ps by (auto simp: fun_upd_def)
  ultimately show ?case by (intro exI [of _ m']) simp
qed

text \<open>
  C8: Shutting the service down frees every client entry and every lock and leaves the lock map empty, as
  its last assertion demands, in every state whose tables are well-formed.
\<close>

theorem lockmanager_shutdown_frees_all:
  assumes "lock_table hash (lock_map st) (lm_locks st)" "client_table (cl_list st) (lm_clients st)"
  shows "\<exists>st'. shutdown_task st = Some st' \<and> lm_locks st' = Map.empty \<and> lm_clients st' = Map.empty \<and>
    cl_list st' = [] \<and> map_pairs (lock_map st') = {#} \<and> lm_out st' = lm_out st"
proof -
  let ?st1 = "st\<lparr>lm_clients := Map.empty, cl_list := []\<rparr>"
  have st1: "clear_client_list (cl_list st) st = Some ?st1"
    using clear_client_list_spec [of st] assms(2) unfolding client_table_def by blast
  obtain ps where ps: "mset ps = map_pairs (lock_map st)"
    "fst (GNUNET_CONTAINER_multihashmap_iterate (lock_map st) (Some lock_delete_iterator) (Some ?st1)) =
     fst (visit lock_delete_iterator ps (Some ?st1))"
    using iterate_visit [of "lock_map st" lock_delete_iterator "Some ?st1"] by blast
  obtain m where m: "fst (visit lock_delete_iterator ps (Some ?st1)) = Some (?st1\<lparr>lock_map := m, lm_locks := Map.empty\<rparr>)"
    "map_invar m" "map_pairs m = {#}"
    using delete_locks [of hash ?st1 ps] assms(1) ps(1) by auto
  have "unat (map_size m) = 0" using size_map_pairs [OF m(2)] m(3) by simp
  then have "map_size m = 0" by (simp add: unat_eq_0)
  then show ?thesis using st1 ps(2) m
    by (simp add: shutdown_task_def GNUNET_CONTAINER_multihashmap_size_def)
qed

theorem lockmanager_shutdown_frees_all_witness:
  "\<exists>st st' :: nat lm_state. lm_refines (\<lambda>_. 0) st ((\<lambda>_. [])(([65, 66], 7) := [10, 20, 30])) \<and>
     shutdown_task st = Some st' \<and> lm_locks st' = Map.empty"
proof -
  obtain st :: "nat lm_state" where st: "lm_refines (\<lambda>_. 0) st ((\<lambda>_. [])(([65, 66], 7) := [10, 20, 30]))"
    using example_queue by blast
  then show ?thesis
    using lockmanager_shutdown_frees_all [OF refines_parts(1,2) [OF st]] by blast
qed

end
