(* ===== verification/Fragmentation.thy ===== *)
theory Fragmentation
  imports Bandwidth "HOL-Library.Monad_Syntax"
begin

unbundle bit_operations_syntax

text \<open>
  The sender side of message fragmentation, \<^verbatim>\<open>src/src/fragmentation/fragmentation.c\<close>.  A message is the
  byte sequence in memory at the pointer that the code gets, at least as long as its size field says.  The scheduled
  task of a context is the delay with which \<^verbatim>\<open>transmit_next\<close> was scheduled, \<open>None\<close> for
  \<^verbatim>\<open>GNUNET_SCHEDULER_NO_TASK\<close>.  The bandwidth tracker, which the context shares with its owner, is an argument
  and a result.  The arguments \<open>clk\<close> are the successive readings of the clock.  A failing assertion is the result
  \<open>None\<close>.  The C standard leaves the value of \<^verbatim>\<open>1 << i\<close> open if \<^verbatim>\<open>i\<close> is 31 or more; it is the argument \<open>undef\<close>.
  The updates of statistics counters are left out.
\<close>

section \<open>The code\<close>

definition FragmentHeader_size :: nat where [simp]: "FragmentHeader_size = 12"

definition FragmentAcknowledgement_size :: nat where [simp]: "FragmentAcknowledgement_size = 16"

definition MessageHeader_size :: nat where [simp]: "MessageHeader_size = 4"

record GNUNET_FRAGMENT_Context =
  ack_delay :: GNUNET_TIME_Relative
  msg_delay :: GNUNET_TIME_Relative
  delay_until :: GNUNET_TIME_Absolute
  last_round :: GNUNET_TIME_Absolute
  fc_msg :: "byte list"
  acks :: u64
  acks_mask :: u64
  fc_task :: "GNUNET_TIME_Relative option"
  fc_fragment_id :: u32
  next_transmission :: u32
  num_rounds :: u32
  num_transmissions :: u32
  proc_busy :: int
  wack :: int
  fc_mtu :: u16

definition MIN_ACK_DELAY :: GNUNET_TIME_Relative where
  "MIN_ACK_DELAY = GNUNET_TIME_relative_multiply GNUNET_TIME_UNIT_MILLISECONDS 1"

definition message_size :: "byte list \<Rightarrow> nat" where
  "message_size msg = unat (get_be16 msg 0)"

definition payload_size :: "u16 \<Rightarrow> nat" where
  "payload_size mtu = unat mtu - FragmentHeader_size"

definition num_fragments :: "u16 \<Rightarrow> nat \<Rightarrow> nat" where
  "num_fragments mtu sz = (sz + unat mtu - FragmentHeader_size - 1) div payload_size mtu"

definition low_bits :: "nat \<Rightarrow> u64" where
  "low_bits n = (if n = 64 then UINT64_MAX else push_bit n 1 - 1)"

definition GNUNET_FRAGMENT_context_create ::
    "u32 \<Rightarrow> u16 \<Rightarrow> GNUNET_TIME_Relative \<Rightarrow> GNUNET_TIME_Relative \<Rightarrow> byte list \<Rightarrow> GNUNET_FRAGMENT_Context option" where
  "GNUNET_FRAGMENT_context_create random mtu mdelay adelay msg =
     (let sz = message_size msg;
          bits = num_fragments mtu sz in
      if 1024 + FragmentHeader_size \<le> unat mtu \<and> MessageHeader_size \<le> sz \<and> bits \<le> 64 \<and> sz \<le> length msg
      then Some \<lparr>ack_delay = adelay, msg_delay = mdelay, delay_until = \<lparr>abs_value = 0\<rparr>,
                 last_round = \<lparr>abs_value = 0\<rparr>, fc_msg = take sz msg,
                 acks = low_bits bits, acks_mask = low_bits bits, fc_task = Some GNUNET_TIME_UNIT_ZERO,
                 fc_fragment_id = random, next_transmission = 0, num_rounds = 0, num_transmissions = 0,
                 proc_busy = GNUNET_NO, wack = GNUNET_NO, fc_mtu = mtu\<rparr>
      else None)"

text \<open>The loop over \<^verbatim>\<open>next_transmission\<close>; a loop that does not end has no result.\<close>

partial_function (option) next_unacked :: "u64 \<Rightarrow> u32 \<Rightarrow> bool \<Rightarrow> (u32 \<times> bool) option" where
  "next_unacked unacked nt wrap =
     (if unacked AND push_bit (unat nt) 1 = 0
      then let nt' = (nt + 1) mod 64 in next_unacked unacked nt' (wrap \<or> nt' = 0)
      else Some (nt, wrap))"

declare next_unacked.simps [code]

definition tracker_get_delay ::
    "GNUNET_TIME_Absolute \<Rightarrow> GNUNET_BANDWIDTH_Tracker option \<Rightarrow> nat \<Rightarrow>
     GNUNET_BANDWIDTH_Tracker option \<times> GNUNET_TIME_Relative" where
  "tracker_get_delay now tracker fsize =
     (case tracker of
        None \<Rightarrow> (None, GNUNET_TIME_UNIT_ZERO)
      | Some av \<Rightarrow> (case GNUNET_BANDWIDTH_tracker_get_delay now av (of_nat fsize) of (av', d) \<Rightarrow> (Some av', d)))"

definition tracker_consume ::
    "GNUNET_TIME_Absolute \<Rightarrow> GNUNET_BANDWIDTH_Tracker option \<Rightarrow> nat \<Rightarrow> GNUNET_BANDWIDTH_Tracker option" where
  "tracker_consume now tracker fsize =
     map_option (\<lambda>av. fst (GNUNET_BANDWIDTH_tracker_consume now av (of_nat fsize))) tracker"

definition fragment_message :: "GNUNET_FRAGMENT_Context \<Rightarrow> nat \<Rightarrow> nat \<Rightarrow> byte list" where
  "fragment_message fc b fsize =
     be16 (of_nat fsize) @ be16 18 @ be32 (fc_fragment_id fc) @ take 2 (fc_msg fc) @
     be16 (of_nat (payload_size (fc_mtu fc) * b)) @
     take (fsize - FragmentHeader_size) (drop (b * payload_size (fc_mtu fc)) (fc_msg fc))"

definition fragment_size :: "GNUNET_FRAGMENT_Context \<Rightarrow> nat \<Rightarrow> nat" where
  "fragment_size fc b =
     (let sz = message_size (fc_msg fc);
          p = payload_size (fc_mtu fc) in
      if b = sz div p then sz mod p + FragmentHeader_size else unat (fc_mtu fc))"

definition int_shl :: "(nat \<Rightarrow> u32) \<Rightarrow> nat \<Rightarrow> u32" where
  "int_shl undef i = (if i < 31 then push_bit i 1 else undef i)"

text \<open>The delay until the next transmission, to fragment \<open>b\<close>; a round is over when \<open>wrap\<close> is set.\<close>

definition schedule_next ::
    "(nat \<Rightarrow> u32) \<Rightarrow> (nat \<Rightarrow> GNUNET_TIME_Absolute) \<Rightarrow> GNUNET_BANDWIDTH_Tracker option \<Rightarrow> u32 \<Rightarrow> bool \<Rightarrow>
     GNUNET_FRAGMENT_Context \<Rightarrow> GNUNET_BANDWIDTH_Tracker option \<times> GNUNET_FRAGMENT_Context" where
  "schedule_next undef clk tracker b wrap fc =
     (let sz = message_size (fc_msg fc);
          p = payload_size (fc_mtu fc);
          fsize = (if unat b = sz div p then sz mod p else unat (fc_mtu fc));
          (tracker', delay) = tracker_get_delay (clk 2) tracker fsize;
          delay = GNUNET_TIME_relative_max delay
                    (GNUNET_TIME_relative_multiply (msg_delay fc) (int_shl undef (unat (num_rounds fc))));
          (fc', delay) =
            (if wrap
             then (fc\<lparr>num_rounds := num_rounds fc + 1, wack := GNUNET_YES, last_round := clk 3\<rparr>,
                   GNUNET_TIME_relative_max MIN_ACK_DELAY (GNUNET_TIME_relative_multiply (ack_delay fc) 2))
             else (fc, delay))
      in (tracker', fc'\<lparr>next_transmission := b, proc_busy := GNUNET_YES,
                        delay_until := GNUNET_TIME_relative_to_absolute (clk 4) delay,
                        num_transmissions := num_transmissions fc' + 1\<rparr>))"

definition transmit_next ::
    "(nat \<Rightarrow> u32) \<Rightarrow> (nat \<Rightarrow> GNUNET_TIME_Absolute) \<Rightarrow> GNUNET_BANDWIDTH_Tracker option \<Rightarrow>
     GNUNET_FRAGMENT_Context \<Rightarrow>
     (GNUNET_BANDWIDTH_Tracker option \<times> GNUNET_FRAGMENT_Context \<times> byte list option) option" where
  "transmit_next undef clk tracker fc0 =
     (let fc = fc0\<lparr>fc_task := None\<rparr> in
      if proc_busy fc \<noteq> GNUNET_NO then None
      else if acks fc = 0 then Some (tracker, fc, None)
      else do {
        (b, wrap) \<leftarrow> next_unacked (acks fc) (next_transmission fc) False;
        let fsize = fragment_size fc (unat b);
        let (tracker1, delay1) = tracker_get_delay (clk 0) tracker fsize;
        if 0 < rel_value delay1
        then Some (tracker1, fc\<lparr>next_transmission := b, fc_task := Some delay1\<rparr>, None)
        else do {
          let nt = (b + 1) mod 64;
          (b2, wrap2) \<leftarrow> next_unacked (acks fc) nt (wrap \<or> nt = 0);
          let (tracker2, fc2) =
            schedule_next undef clk (tracker_consume (clk 1) tracker1 fsize) b2 wrap2 fc;
          Some (tracker2, fc2, Some (fragment_message fc (unat b) fsize))
        } })"

definition GNUNET_FRAGMENT_context_transmission_done ::
    "GNUNET_TIME_Absolute \<Rightarrow> GNUNET_FRAGMENT_Context \<Rightarrow> GNUNET_FRAGMENT_Context option" where
  "GNUNET_FRAGMENT_context_transmission_done now fc =
     (if proc_busy fc = GNUNET_YES \<and> fc_task fc = None
      then Some (fc\<lparr>proc_busy := GNUNET_NO,
                    fc_task := Some (GNUNET_TIME_absolute_get_remaining now (delay_until fc))\<rparr>)
      else None)"

definition update_delays ::
    "(nat \<Rightarrow> u32) \<Rightarrow> GNUNET_TIME_Absolute \<Rightarrow> u64 \<Rightarrow> GNUNET_FRAGMENT_Context \<Rightarrow> GNUNET_FRAGMENT_Context option" where
  "update_delays undef now abits fc =
     do {
       ndelay \<leftarrow> GNUNET_TIME_absolute_get_duration now (last_round fc);
       let adelay = (rel_value ndelay div ucast (num_transmissions fc) + 3 * rel_value (ack_delay fc)) div 4;
       let sent = filter (\<lambda>i. acks_mask fc AND scast (int_shl undef i) = 1) [0..<64];
       let snd_cnt = (of_nat (length sent) :: u32);
       let ack_cnt = (of_nat (length (filter (\<lambda>i. abits AND scast (int_shl undef i) = 0) sent)) :: u32);
       let mdelay =
         (if ack_cnt = 0 then GNUNET_TIME_relative_multiply (msg_delay fc) snd_cnt
          else if ack_cnt < snd_cnt
          then \<lparr>rel_value = (rel_value (msg_delay fc) * ucast ack_cnt) div ucast snd_cnt\<rparr>
          else if 1 < rel_value (msg_delay fc) then \<lparr>rel_value = rel_value (msg_delay fc) - 1\<rparr>
          else msg_delay fc);
       Some (fc\<lparr>wack := GNUNET_NO, ack_delay := \<lparr>rel_value = adelay\<rparr>, num_transmissions := 0,
                msg_delay := GNUNET_TIME_relative_min mdelay GNUNET_TIME_UNIT_SECONDS\<rparr>)
     }"

definition GNUNET_FRAGMENT_process_ack ::
    "(nat \<Rightarrow> u32) \<Rightarrow> GNUNET_TIME_Absolute \<Rightarrow> GNUNET_FRAGMENT_Context \<Rightarrow> byte list \<Rightarrow>
     (GNUNET_FRAGMENT_Context \<times> int) option" where
  "GNUNET_FRAGMENT_process_ack undef now fc msg =
     (if message_size msg \<noteq> FragmentAcknowledgement_size then Some (fc, GNUNET_SYSERR)
      else if get_be32 msg 4 \<noteq> fc_fragment_id fc then Some (fc, GNUNET_SYSERR)
      else do {
        let abits = get_be64 msg 8;
        fc1 \<leftarrow> (if wack fc = GNUNET_YES \<and> num_transmissions fc \<noteq> 0 then update_delays undef now abits fc
                else Some fc);
        let fc2 = fc1\<lparr>acks := abits AND acks_mask fc1\<rparr>;
        if acks fc2 \<noteq> 0
        then (if fc_task fc2 \<noteq> None
              then Some (fc2\<lparr>fc_task := Some GNUNET_TIME_UNIT_ZERO\<rparr>, GNUNET_NO)
              else if proc_busy fc2 = GNUNET_YES then Some (fc2, GNUNET_NO) else None)
        else Some (fc2\<lparr>fc_task := None\<rparr>, GNUNET_OK)
      })"

definition GNUNET_FRAGMENT_context_destroy ::
    "GNUNET_FRAGMENT_Context \<Rightarrow> GNUNET_TIME_Relative \<times> GNUNET_TIME_Relative" where
  "GNUNET_FRAGMENT_context_destroy fc =
     (GNUNET_TIME_relative_multiply (msg_delay fc) (num_rounds fc), ack_delay fc)"

section \<open>Bit fields\<close>

lemma and_bit_0_iff: "(w :: u64) AND push_bit k 1 = 0 \<longleftrightarrow> \<not> bit w k"
proof -
  have "push_bit k (1 :: u64) = 2 ^ k" by (simp add: push_bit_eq_mult)
  then show ?thesis by (simp only: and_exp_eq_0_iff_not_bit)
qed

lemma low_bits_mask: "n \<le> 64 \<Longrightarrow> low_bits n = mask n"
  by (cases "n = 64") (simp_all add: low_bits_def UINT64_MAX_def mask_eq_exp_minus_1 push_bit_eq_mult)

lemma bit_low_bits: "n \<le> 64 \<Longrightarrow> bit (low_bits n) k \<longleftrightarrow> k < n"
  by (auto simp: low_bits_mask bit_mask_iff)

lemma u64_eq_0_iff: "(w :: u64) = 0 \<longleftrightarrow> (\<forall>k < 64. \<not> bit w k)"
  by (auto simp: bit_eq_iff intro!: bit_eqI dest: bit_imp_le_length)

text \<open>The loop ends, at the first bit set at or after the start, going around at 64.\<close>

lemma next_unacked_at:
  assumes "bit unacked (unat nt)"
  shows "next_unacked unacked nt wrap = Some (nt, wrap)"
  by (subst next_unacked.simps) (simp only: and_bit_0_iff assms not_True_eq_False if_False)

lemma next_unacked_skip:
  assumes "\<not> bit unacked (unat nt)"
  shows "next_unacked unacked nt wrap = next_unacked unacked ((nt + 1) mod 64) (wrap \<or> (nt + 1) mod 64 = 0)"
  by (subst next_unacked.simps) (simp only: and_bit_0_iff assms not_False_eq_True if_True Let_def)

lemma unat_succ_mod_64:
  assumes "unat (nt :: u32) < 64"
  shows "unat ((nt + 1) mod 64) = (unat nt + 1) mod 64"
proof -
  have "unat (nt + 1) = unat nt + 1" using assms by (subst unat_add_lem [THEN iffD1]) auto
  then show ?thesis by (simp add: unat_mod)
qed

lemma next_unacked_distance:
  assumes "unat nt < 64" "bit unacked ((unat nt + d) mod 64)" "\<forall>j < d. \<not> bit unacked ((unat nt + j) mod 64)" "d < 64"
  shows "\<exists>k. next_unacked unacked nt wrap = Some (k, wrap \<or> 64 \<le> unat nt + d) \<and> unat k = (unat nt + d) mod 64"
  using assms
proof (induction d arbitrary: nt wrap)
  case 0
  then show ?case by (simp add: next_unacked_at)
next
  case (Suc d)
  let ?nt = "(nt + 1) mod 64"
  have nt: "unat ?nt = (unat nt + 1) mod 64" by (rule unat_succ_mod_64 [OF Suc.prems(1)])
  have shift: "(unat ?nt + j) mod 64 = (unat nt + Suc j) mod 64" for j
    unfolding nt by (simp add: mod_simps)
  have "\<not> bit unacked (unat nt)" using Suc.prems(1,3) by (metis add.right_neutral mod_less zero_less_Suc)
  then have step: "next_unacked unacked nt wrap = next_unacked unacked ?nt (wrap \<or> ?nt = 0)"
    by (rule next_unacked_skip)
  have "\<forall>j < d. \<not> bit unacked ((unat ?nt + j) mod 64)" using Suc.prems(3) unfolding shift by (meson Suc_less_eq)
  then obtain k where k: "next_unacked unacked ?nt (wrap \<or> ?nt = 0) =
      Some (k, (wrap \<or> ?nt = 0) \<or> 64 \<le> unat ?nt + d)" "unat k = (unat ?nt + d) mod 64"
    using Suc.IH [of ?nt "wrap \<or> ?nt = 0"] Suc.prems(2,4) nt unfolding shift by auto
  have z: "?nt = 0 \<longleftrightarrow> unat nt = 63"
  proof -
    have "?nt = 0 \<longleftrightarrow> (unat nt + 1) mod 64 = 0" using nt by (metis unat_eq_zero)
    then show ?thesis using Suc.prems(1) by presburger
  qed
  have "((wrap \<or> ?nt = 0) \<or> 64 \<le> unat ?nt + d) = (wrap \<or> 64 \<le> unat nt + Suc d)"
    using z nt Suc.prems(1,4) by (cases "unat nt = 63") auto
  then show ?case using step k shift [of d] by simp
qed

lemma next_unacked_terminates:
  assumes "unacked \<noteq> 0" "unat nt < 64"
  obtains k d where "next_unacked unacked nt wrap = Some (k, wrap \<or> 64 \<le> unat nt + d)" "d < 64"
    "unat k = (unat nt + d) mod 64" "bit unacked (unat k)" "\<forall>j < d. \<not> bit unacked ((unat nt + j) mod 64)"
proof -
  obtain i where i: "i < 64" "bit unacked i" using assms(1) by (auto simp: u64_eq_0_iff)
  define e where "e = (i + 64 - unat nt) mod 64"
  have "(unat nt + e) mod 64 = i" using i(1) assms(2) by (simp add: e_def mod_simps)
  then have ex: "bit unacked ((unat nt + e) mod 64)" using i(2) by simp
  define d where "d = (LEAST d. bit unacked ((unat nt + d) mod 64))"
  have d: "bit unacked ((unat nt + d) mod 64)" unfolding d_def by (rule LeastI, rule ex)
  have "d \<le> e" unfolding d_def by (rule Least_le, rule ex)
  then have lt: "d < 64" by (simp add: e_def order.strict_trans1)
  have min: "\<forall>j < d. \<not> bit unacked ((unat nt + j) mod 64)" unfolding d_def using not_less_Least by blast
  show thesis using next_unacked_distance [OF assms(2) d min lt, of wrap] that d lt min by metis
qed

section \<open>Fragments\<close>

text \<open>Fragment \<open>b\<close> of a message: a header and the \<open>b\<close>-th piece of the message.\<close>

definition fragment :: "u16 \<Rightarrow> u32 \<Rightarrow> byte list \<Rightarrow> nat \<Rightarrow> byte list" where
  "fragment mtu fid msg b =
     (let p = payload_size mtu; payload = take p (drop (b * p) msg) in
      be16 (of_nat (FragmentHeader_size + length payload)) @ be16 18 @ be32 fid @ be16 (of_nat (length msg)) @
      be16 (of_nat (p * b)) @ payload)"

definition fragmentable :: "u16 \<Rightarrow> byte list \<Rightarrow> bool" where
  "fragmentable mtu msg \<longleftrightarrow> 1036 \<le> unat mtu \<and> 4 \<le> length msg \<and> message_size msg = length msg"

lemma message_size_lt: "message_size msg < 65536"
  unfolding message_size_def using unsigned_less [of "get_be16 msg 0"] by simp

lemma num_fragments_bounds:
  assumes "1036 \<le> unat (mtu :: u16)" "0 < sz"
  shows "(num_fragments mtu sz - 1) * payload_size mtu < sz" "sz \<le> num_fragments mtu sz * payload_size mtu"
    "0 < num_fragments mtu sz"
proof -
  let ?p = "payload_size mtu"
  have p: "0 < ?p" using assms(1) by (simp add: payload_size_def)
  have n: "num_fragments mtu sz = (sz - 1) div ?p + 1"
  proof -
    have "sz + unat mtu - FragmentHeader_size - 1 = (sz - 1) + ?p" using assms by (simp add: payload_size_def)
    then show ?thesis unfolding num_fragments_def by (simp only: div_add_self2 [OF p [THEN less_not_refl2]] simp_thms)
  qed
  show "0 < num_fragments mtu sz" by (simp add: n)
  have le: "(sz - 1) div ?p * ?p \<le> sz - 1" by (rule div_times_less_eq_dividend)
  have "num_fragments mtu sz - 1 = (sz - 1) div ?p" by (simp add: n)
  then show "(num_fragments mtu sz - 1) * ?p < sz" using le assms(2) by (metis Suc_diff_1 less_Suc_eq_le diff_Suc_1')
  have "sz - 1 < ((sz - 1) div ?p + 1) * ?p" using p by (simp add: dividend_less_div_times)
  then show "sz \<le> num_fragments mtu sz * ?p" by (simp add: n)
qed

lemma num_fragments_le_64:
  assumes "1036 \<le> unat (mtu :: u16)" "0 < sz" "sz < 65536"
  shows "num_fragments mtu sz \<le> 64"
proof (rule ccontr)
  assume "\<not> ?thesis"
  then have "64 * 1024 \<le> (num_fragments mtu sz - 1) * payload_size mtu"
    using assms(1) by (intro mult_le_mono) (auto simp: payload_size_def)
  then show False using num_fragments_bounds(1) [OF assms(1,2)] assms(3) by linarith
qed

lemma fragmentableD:
  assumes "fragmentable mtu msg"
  shows "1036 \<le> unat mtu" "0 < length msg" "length msg < 65536" "0 < payload_size mtu"
    "num_fragments mtu (length msg) \<le> 64" "2 \<le> length msg"
proof -
  show m: "1036 \<le> unat mtu" and l: "0 < length msg" "length msg < 65536" "0 < payload_size mtu" "2 \<le> length msg"
    using assms message_size_lt [of msg] by (auto simp: fragmentable_def payload_size_def)
  show "num_fragments mtu (length msg) \<le> 64" by (rule num_fragments_le_64 [OF m l(1,2)])
qed

lemma fragment_position:
  assumes "fragmentable mtu msg" "b < num_fragments mtu (length msg)"
  shows "b * payload_size mtu < length msg" "b < 64"
    "length (take (payload_size mtu) (drop (b * payload_size mtu) msg)) =
      (if b = length msg div payload_size mtu then length msg mod payload_size mtu else payload_size mtu)"
proof -
  let ?p = "payload_size mtu" and ?n = "num_fragments mtu (length msg)"
  note f = fragmentableD [OF assms(1)]
  have "b * ?p \<le> (?n - 1) * ?p" using assms(2) by (intro mult_le_mono) auto
  then show lt: "b * ?p < length msg"
    using num_fragments_bounds(1) [OF f(1,2)] by linarith
  show "b < 64" using assms(2) f(5) by simp
  have le: "b \<le> length msg div ?p" using lt f(4) by (simp add: less_eq_div_iff_mult_less_eq)
  show "length (take ?p (drop (b * ?p) msg)) = (if b = length msg div ?p then length msg mod ?p else ?p)"
  proof (cases "b = length msg div ?p")
    case True
    then have "length msg - b * ?p = length msg mod ?p" by (simp add: minus_div_mult_eq_mod)
    then show ?thesis using True f(4) by (simp add: less_imp_le)
  next
    case False
    then have "Suc b \<le> length msg div ?p" using le by simp
    then have "Suc b * ?p \<le> length msg" using f(4) by (simp add: less_eq_div_iff_mult_less_eq)
    then show ?thesis using False by simp
  qed
qed

lemma fragment_message_eq:
  assumes "fragmentable (fc_mtu fc) (fc_msg fc)" "b < num_fragments (fc_mtu fc) (length (fc_msg fc))"
  shows "fragment_message fc b (fragment_size fc b) = fragment (fc_mtu fc) (fc_fragment_id fc) (fc_msg fc) b"
proof -
  let ?p = "payload_size (fc_mtu fc)" and ?m = "fc_msg fc"
  note f = fragmentableD [OF assms(1)]
  let ?pl = "take ?p (drop (b * ?p) ?m)"
  let ?fsize = "fragment_size fc b"
  have ms: "message_size ?m = length ?m" using assms(1) by (simp add: fragmentable_def)
  have len: "FragmentHeader_size + length ?pl = ?fsize"
    using fragment_position(3) [OF assms(1,2)] f(1)
    by (simp add: fragment_size_def ms Let_def) (simp add: payload_size_def)
  have "of_nat (unat (get_be16 ?m 0)) = (of_nat (length ?m) :: u16)" using ms by (simp add: message_size_def)
  then have sz: "take 2 ?m = be16 (of_nat (length ?m))"
    using be16_get_be16 [OF f(6)] by simp
  have "take (?fsize - FragmentHeader_size) (drop (b * ?p) ?m) = take (length ?pl) (drop (b * ?p) ?m)"
    using len by (metis add_diff_cancel_left')
  also have "\<dots> = ?pl" by (simp add: min_def)
  finally have "take (?fsize - FragmentHeader_size) (drop (b * ?p) ?m) = ?pl" .
  then show ?thesis unfolding fragment_message_def fragment_def Let_def len sz by (simp only:)
qed

section \<open>The sender\<close>

definition fc_ok :: "GNUNET_FRAGMENT_Context \<Rightarrow> bool" where
  "fc_ok fc \<longleftrightarrow>
     fragmentable (fc_mtu fc) (fc_msg fc) \<and>
     acks_mask fc = low_bits (num_fragments (fc_mtu fc) (length (fc_msg fc))) \<and>
     acks fc AND acks_mask fc = acks fc \<and> unat (next_transmission fc) < 64 \<and>
     last_round fc \<noteq> \<lparr>abs_value = UINT64_MAX\<rparr> \<and>
     (proc_busy fc = GNUNET_NO \<or> proc_busy fc = GNUNET_YES \<and> fc_task fc = None)"

definition fc_live :: "GNUNET_FRAGMENT_Context \<Rightarrow> bool" where
  "fc_live fc \<longleftrightarrow> fc_ok fc \<and> acks fc \<noteq> 0 \<and> (proc_busy fc = GNUNET_NO \<longrightarrow> fc_task fc \<noteq> None)"

definition same_job :: "GNUNET_FRAGMENT_Context \<Rightarrow> GNUNET_FRAGMENT_Context \<Rightarrow> bool" where
  "same_job fc fc' \<longleftrightarrow> fc_msg fc' = fc_msg fc \<and> fc_mtu fc' = fc_mtu fc \<and>
     fc_fragment_id fc' = fc_fragment_id fc \<and> acks_mask fc' = acks_mask fc"

lemma acks_bit:
  assumes "fc_ok fc" "bit (acks fc) b"
  shows "b < num_fragments (fc_mtu fc) (length (fc_msg fc))"
proof -
  have "bit (acks fc AND acks_mask fc) b" using assms unfolding fc_ok_def by metis
  then have "bit (acks_mask fc) b" by (simp add: bit_and_iff)
  then show ?thesis
    using assms(1) fragmentableD(5) by (auto simp: fc_ok_def bit_low_bits)
qed

lemma create_live:
  assumes "1036 \<le> unat mtu" "4 \<le> message_size msg" "message_size msg \<le> length msg"
  shows "\<exists>fc. GNUNET_FRAGMENT_context_create r mtu md ad msg = Some fc \<and> fc_live fc \<and>
    fc_msg fc = take (message_size msg) msg \<and> fc_mtu fc = mtu \<and> fc_fragment_id fc = r \<and>
    acks fc = low_bits (num_fragments mtu (message_size msg))"
proof -
  let ?sz = "message_size msg" and ?m = "take (message_size msg) msg"
  have n: "num_fragments mtu ?sz \<le> 64" by (rule num_fragments_le_64) (use assms message_size_lt in auto)
  have "get_be16 ?m 0 = get_be16 msg 0" using assms(2) by (simp add: get_be16_def)
  then have ms: "message_size ?m = ?sz" by (simp add: message_size_def)
  have len: "length ?m = ?sz" using assms(3) by simp
  have pos: "0 < num_fragments mtu ?sz" by (rule num_fragments_bounds(3)) (use assms in auto)
  then have "bit (low_bits (num_fragments mtu ?sz)) 0" using n by (simp only: bit_low_bits)
  then have nz: "low_bits (num_fragments mtu ?sz) \<noteq> 0" by auto
  have "fragmentable mtu ?m" using assms ms len by (simp add: fragmentable_def)
  then show ?thesis
    using assms n len nz
    by (simp add: GNUNET_FRAGMENT_context_create_def fc_live_def fc_ok_def Let_def min_def UINT64_MAX_def)
qed

lemma schedule_next_fields:
  assumes "schedule_next undef clk tracker b wrap fc = (tr, fc')"
  shows "fc_task fc' = fc_task fc" "proc_busy fc' = GNUNET_YES" "acks fc' = acks fc" "same_job fc fc'"
    "next_transmission fc' = b" "last_round fc' = last_round fc \<or> last_round fc' = clk 3"
  using assms by (auto simp: schedule_next_def Let_def same_job_def split: prod.splits if_splits)

lemma transmit_next_spec:
  assumes live: "fc_live fc" and idle: "proc_busy fc = GNUNET_NO" and clk: "clk 3 \<noteq> \<lparr>abs_value = UINT64_MAX\<rparr>"
  shows "\<exists>tr fc' out. transmit_next undef clk tracker fc = Some (tr, fc', out) \<and> fc_live fc' \<and> same_job fc fc' \<and>
    acks fc' = acks fc \<and>
    (case out of None \<Rightarrow> proc_busy fc' = GNUNET_NO
     | Some f \<Rightarrow> proc_busy fc' = GNUNET_YES \<and>
         (\<exists>b d e. f = fragment (fc_mtu fc) (fc_fragment_id fc) (fc_msg fc) b \<and> bit (acks fc) b \<and>
            b = (unat (next_transmission fc) + d) mod 64 \<and>
            (\<forall>j < d. \<not> bit (acks fc) ((unat (next_transmission fc) + j) mod 64)) \<and>
            unat (next_transmission fc') = (b + 1 + e) mod 64 \<and>
            (\<forall>j < e. \<not> bit (acks fc) ((b + 1 + j) mod 64)))) \<and> (tracker = None \<longrightarrow> out \<noteq> None \<and> tr = None)"
proof -
  let ?nt = "next_transmission fc" and ?m = "fc_msg fc" and ?p = "payload_size (fc_mtu fc)"
  have ok: "fc_ok fc" "acks fc \<noteq> 0" "unat ?nt < 64" using live by (auto simp: fc_live_def fc_ok_def)
  have ms: "message_size ?m = length ?m" using ok(1) by (simp add: fc_ok_def fragmentable_def)
  obtain k d where k: "next_unacked (acks fc) ?nt False = Some (k, False \<or> 64 \<le> unat ?nt + d)"
    "unat k = (unat ?nt + d) mod 64" "bit (acks fc) (unat k)" "\<forall>j < d. \<not> bit (acks fc) ((unat ?nt + j) mod 64)"
    using next_unacked_terminates [OF ok(2,3), of False] by metis
  have k64: "unat k < 64" using k(2) by simp
  let ?fc = "fc\<lparr>fc_task := None\<rparr>"
  obtain t1 d1 where t1: "tracker_get_delay (clk 0) tracker (fragment_size ?fc (unat k)) = (t1, d1)" by fastforce
  show ?thesis
  proof (cases "0 < rel_value d1")
    case True
    let ?fc' = "fc\<lparr>fc_task := Some d1, next_transmission := k\<rparr>"
    have "transmit_next undef clk tracker fc = Some (t1, ?fc', None)"
      using idle ok(2) k(1) t1 True by (simp add: transmit_next_def Let_def)
    moreover have "fc_live ?fc'" "same_job fc ?fc'" "proc_busy ?fc' = GNUNET_NO"
      using live idle k64 by (auto simp: fc_live_def fc_ok_def same_job_def)
    moreover have "tracker \<noteq> None" using t1 True by (cases tracker) (auto simp: tracker_get_delay_def GNUNET_TIME_UNIT_ZERO_def)
    ultimately show ?thesis by auto
  next
    case False
    let ?nt2 = "(k + 1) mod 64"
    have nt2: "unat ?nt2 = (unat k + 1) mod 64" by (rule unat_succ_mod_64 [OF k64])
    obtain k2 w2 e where k2: "next_unacked (acks fc) ?nt2 (64 \<le> unat ?nt + d \<or> ?nt2 = 0) = Some (k2, w2)"
      "unat k2 = (unat ?nt2 + e) mod 64" "\<forall>j < e. \<not> bit (acks fc) ((unat ?nt2 + j) mod 64)"
      using next_unacked_terminates [OF ok(2), of ?nt2 "64 \<le> unat ?nt + d \<or> ?nt2 = 0"] nt2
      by (metis mod_less_divisor zero_less_numeral)
    have nxt: "unat k2 = (unat k + 1 + e) mod 64" "\<forall>j < e. \<not> bit (acks fc) ((unat k + 1 + j) mod 64)"
      using k2(2,3) unfolding nt2 by (simp_all only: mod_add_left_eq)
    let ?f = "fragment (fc_mtu fc) (fc_fragment_id fc) ?m (unat k)"
    have frag': "fragment_message ?fc (unat k) (fragment_size ?fc (unat k)) = ?f"
      using fragment_message_eq [of ?fc "unat k"] ok(1) acks_bit [OF ok(1) k(3)] by (simp add: fc_ok_def)
    obtain t3 fc3 where sn: "schedule_next undef clk (tracker_consume (clk 1) t1 (fragment_size ?fc (unat k))) k2 w2 ?fc = (t3, fc3)"
      by fastforce
    note fc3 = schedule_next_fields [OF sn]
    have r: "transmit_next undef clk tracker fc = Some (t3, fc3, Some ?f)"
      using idle ok(2) k(1) k2(1) t1 False frag' sn by (simp add: transmit_next_def Let_def)
    have job: "same_job fc fc3" using fc3(4) by (simp add: same_job_def)
    have "fc_live fc3"
      using live fc3 nxt(1) clk by (auto simp: fc_live_def fc_ok_def same_job_def)
    moreover have "tracker = None \<Longrightarrow> t3 = None"
      using sn t1 by (auto simp: tracker_get_delay_def tracker_consume_def schedule_next_def Let_def split: if_splits)
    ultimately show ?thesis using r fc3(2,3,5) job k(2-4) nxt by auto
  qed
qed

lemma transmission_done_spec:
  assumes "fc_live fc" "proc_busy fc = GNUNET_YES"
  shows "\<exists>fc'. GNUNET_FRAGMENT_context_transmission_done now fc = Some fc' \<and> fc_live fc' \<and> same_job fc fc' \<and>
    acks fc' = acks fc \<and> proc_busy fc' = GNUNET_NO \<and> next_transmission fc' = next_transmission fc"
  using assms
  by (auto simp: GNUNET_FRAGMENT_context_transmission_done_def fc_live_def fc_ok_def same_job_def)

definition ack_for :: "u32 \<Rightarrow> u64 \<Rightarrow> byte list" where
  "ack_for fid w = be16 (of_nat FragmentAcknowledgement_size) @ be16 19 @ be32 fid @ be64 w"

lemma ack_for_fields:
  "message_size (ack_for fid w) = FragmentAcknowledgement_size" "get_be32 (ack_for fid w) 4 = fid"
  "get_be64 (ack_for fid w) 8 = w"
proof -
  show "message_size (ack_for fid w) = FragmentAcknowledgement_size"
    by (simp add: message_size_def ack_for_def)
  show "get_be32 (ack_for fid w) 4 = fid"
    using get_be_append(2) [of "be16 16 @ be16 19" "be32 fid @ be64 w" 0] by (simp add: ack_for_def)
  show "get_be64 (ack_for fid w) 8 = w"
    using get_be64_append [of "be16 16 @ be16 19 @ be32 fid" "be64 w" 0] get_be64_be64 [of w "[]"]
    by (simp add: ack_for_def)
qed

lemma update_delays_fields:
  assumes "last_round fc \<noteq> \<lparr>abs_value = UINT64_MAX\<rparr>"
  shows "\<exists>fc'. update_delays undef now w fc = Some fc' \<and> same_job fc fc' \<and> last_round fc' = last_round fc \<and>
    fc_task fc' = fc_task fc \<and> proc_busy fc' = proc_busy fc \<and> next_transmission fc' = next_transmission fc"
proof -
  have "abs_value (last_round fc) \<noteq> UINT64_MAX" using assms by (cases "last_round fc") auto
  then obtain d where "GNUNET_TIME_absolute_get_duration now (last_round fc) = Some d"
    by (cases "abs_value (last_round fc) > abs_value now") (simp_all add: GNUNET_TIME_absolute_get_duration_def)
  then show ?thesis by (simp add: update_delays_def Let_def same_job_def)
qed

lemma process_ack_foreign:
  assumes "message_size msg \<noteq> FragmentAcknowledgement_size \<or> get_be32 msg 4 \<noteq> fc_fragment_id fc"
  shows "GNUNET_FRAGMENT_process_ack undef now fc msg = Some (fc, GNUNET_SYSERR)"
  using assms by (auto simp: GNUNET_FRAGMENT_process_ack_def)

lemma process_ack_spec:
  assumes live: "fc_live fc"
  shows "\<exists>fc' r. GNUNET_FRAGMENT_process_ack undef now fc (ack_for (fc_fragment_id fc) w) = Some (fc', r) \<and>
    same_job fc fc' \<and> acks fc' = w AND acks_mask fc \<and> fc_ok fc' \<and>
    (if acks fc' = 0 then r = GNUNET_OK else r = GNUNET_NO \<and> fc_live fc')"
proof -
  have lr: "last_round fc \<noteq> \<lparr>abs_value = UINT64_MAX\<rparr>" using live by (simp add: fc_live_def fc_ok_def)
  obtain fc1 where fc1: "(if wack fc = GNUNET_YES \<and> num_transmissions fc \<noteq> 0 then update_delays undef now w fc else Some fc) = Some fc1"
    "same_job fc fc1" "last_round fc1 = last_round fc" "fc_task fc1 = fc_task fc" "proc_busy fc1 = proc_busy fc"
    "next_transmission fc1 = next_transmission fc"
  proof (cases "wack fc = GNUNET_YES \<and> num_transmissions fc \<noteq> 0")
    case True
    then show thesis using that update_delays_fields [OF lr, of undef now w] by auto
  next
    case False
    then show thesis by (intro that [of fc]) (simp_all only: if_False, simp_all add: same_job_def)
  qed
  let ?fc = "fc1\<lparr>acks := w AND acks_mask fc1\<rparr>"
  have mask: "acks_mask fc1 = acks_mask fc" using fc1(2) by (simp add: same_job_def)
  have ok: "fc_ok ?fc"
    using live fc1(2-6) by (auto simp: fc_live_def fc_ok_def same_job_def)
  have p: "GNUNET_FRAGMENT_process_ack undef now fc (ack_for (fc_fragment_id fc) w) =
      (if acks ?fc \<noteq> 0
       then (if fc_task ?fc \<noteq> None then Some (?fc\<lparr>fc_task := Some GNUNET_TIME_UNIT_ZERO\<rparr>, GNUNET_NO)
             else if proc_busy ?fc = GNUNET_YES then Some (?fc, GNUNET_NO) else None)
       else Some (?fc\<lparr>fc_task := None\<rparr>, GNUNET_OK))"
    unfolding GNUNET_FRAGMENT_process_ack_def Let_def ack_for_fields fc1(1) by simp
  show ?thesis
  proof (cases "w AND acks_mask fc = 0")
    case True
    have "fc_ok (?fc\<lparr>fc_task := None\<rparr>)" using ok by (auto simp: fc_ok_def)
    then show ?thesis unfolding p using True fc1(2) mask by (auto simp: same_job_def)
  next
    case False
    show ?thesis
    proof (cases "fc_task ?fc")
      case None
      then have "proc_busy ?fc = GNUNET_YES" using live fc1(4,5) by (auto simp: fc_live_def fc_ok_def)
      then show ?thesis unfolding p using False None ok fc1(2) mask by (auto simp: same_job_def fc_live_def)
    next
      case (Some d)
      then have "proc_busy ?fc = GNUNET_NO" using ok by (auto simp: fc_ok_def)
      then have "fc_ok (?fc\<lparr>fc_task := Some GNUNET_TIME_UNIT_ZERO\<rparr>)" using ok by (auto simp: fc_ok_def)
      then show ?thesis unfolding p using False Some fc1(2) mask by (auto simp: same_job_def fc_live_def)
    qed
  qed
qed

section \<open>A round\<close>

text \<open>
  The sender without a bandwidth tracker and without acknowledgements: the scheduled task runs, and the
  transport reports the fragment as sent, \<open>k\<close> times.
\<close>

fun send_fragments ::
    "(nat \<Rightarrow> u32) \<Rightarrow> (nat \<Rightarrow> GNUNET_TIME_Absolute) \<Rightarrow> nat \<Rightarrow> GNUNET_FRAGMENT_Context \<Rightarrow>
     (GNUNET_FRAGMENT_Context \<times> byte list list) option" where
  "send_fragments undef clk 0 fc = Some (fc, [])"
| "send_fragments undef clk (Suc k) fc =
     do {
       (tracker, fc1, out) \<leftarrow> transmit_next undef (\<lambda>i. clk (6 * k + i)) None fc;
       f \<leftarrow> out;
       fc2 \<leftarrow> GNUNET_FRAGMENT_context_transmission_done (clk (6 * k + 5)) fc1;
       (fc3, fs) \<leftarrow> send_fragments undef clk k fc2;
       Some (fc3, f # fs)
     }"

lemma filter_upt_single:
  assumes "P (t + d)" "\<forall>j < d. \<not> P (t + j)" "\<forall>j < e. \<not> P (t + d + 1 + j)"
  shows "filter P [t..<t + d + 1 + e] = [t + d]"
proof -
  have "filter P [t..<t + d] = []"
    using assms(2) by (auto simp: filter_empty_conv) (metis le_Suc_ex nat_add_left_cancel_less)
  moreover have "filter P [t + d + 1..<t + d + 1 + e] = []"
    using assms(3) by (auto simp: filter_empty_conv dest!: le_Suc_ex)
  moreover have "[t..<t + d + 1 + e] = [t..<t + d] @ [t + d] @ [t + d + 1..<t + d + 1 + e]"
    using upt_add_eq_append [of t "t + d" "1 + e"] upt_add_eq_append [of "t + d" "t + d + 1" e]
    by (simp add: add.assoc)
  ultimately show ?thesis using assms(1) by simp
qed

definition clocks_ok :: "(nat \<Rightarrow> GNUNET_TIME_Absolute) \<Rightarrow> bool" where
  "clocks_ok clk \<longleftrightarrow> (\<forall>i. clk i \<noteq> \<lparr>abs_value = UINT64_MAX\<rparr>)"

lemma send_fragments_positions:
  assumes "fc_live fc" "proc_busy fc = GNUNET_NO" "clocks_ok clk" "unat (next_transmission fc) = t mod 64"
  shows "\<exists>fc' t'. send_fragments undef clk k fc =
      Some (fc', map (\<lambda>q. fragment (fc_mtu fc) (fc_fragment_id fc) (fc_msg fc) (q mod 64))
                   (filter (\<lambda>q. bit (acks fc) (q mod 64)) [t..<t'])) \<and>
    length (filter (\<lambda>q. bit (acks fc) (q mod 64)) [t..<t']) = k \<and> t \<le> t' \<and>
    fc_live fc' \<and> same_job fc fc' \<and> acks fc' = acks fc"
  using assms
proof (induction k arbitrary: fc t)
  case 0
  then show ?case by (intro exI [of _ fc] exI [of _ t]) (simp add: same_job_def)
next
  case (Suc k)
  let ?P = "\<lambda>q. bit (acks fc) (q mod 64)" and ?F = "fragment (fc_mtu fc) (fc_fragment_id fc) (fc_msg fc)"
  have clk3: "clk (6 * k + 3) \<noteq> \<lparr>abs_value = UINT64_MAX\<rparr>" using Suc.prems(3) by (simp add: clocks_ok_def)
  obtain fc1 b d e where t: "transmit_next undef (\<lambda>i. clk (6 * k + i)) None fc = Some (None, fc1, Some (?F b))"
      "fc_live fc1" "same_job fc fc1" "acks fc1 = acks fc" "proc_busy fc1 = GNUNET_YES" "bit (acks fc) b"
      "b = (unat (next_transmission fc) + d) mod 64"
      "\<forall>j < d. \<not> bit (acks fc) ((unat (next_transmission fc) + j) mod 64)"
      "unat (next_transmission fc1) = (b + 1 + e) mod 64"
      "\<forall>j < e. \<not> bit (acks fc) ((b + 1 + j) mod 64)"
    using transmit_next_spec [OF Suc.prems(1,2), of "\<lambda>i. clk (6 * k + i)" undef None] clk3
    by (auto split: option.splits)
  obtain fc2 where d: "GNUNET_FRAGMENT_context_transmission_done (clk (6 * k + 5)) fc1 = Some fc2" "fc_live fc2"
      "same_job fc1 fc2" "acks fc2 = acks fc1" "proc_busy fc2 = GNUNET_NO" "next_transmission fc2 = next_transmission fc1"
    using transmission_done_spec [OF t(2,5)] by blast
  let ?t = "t + d + 1 + e"
  have b: "b = (t + d) mod 64" using t(7) Suc.prems(4) by (simp add: mod_add_left_eq)
  have pos: "(b + 1 + j) mod 64 = (t + d + 1 + j) mod 64" for j unfolding b by (simp only: add.assoc mod_add_left_eq)
  have before: "\<forall>j < d. \<not> ?P (t + j)" using t(8) Suc.prems(4) by (simp add: mod_add_left_eq)
  have single: "filter ?P [t..<?t] = [t + d]"
    by (rule filter_upt_single) (use t(6) b before t(10) pos in auto)
  have job: "fc_mtu fc2 = fc_mtu fc" "fc_fragment_id fc2 = fc_fragment_id fc" "fc_msg fc2 = fc_msg fc" "acks fc2 = acks fc"
    using t(3,4) d(3,4) by (auto simp: same_job_def)
  have nt: "unat (next_transmission fc2) = ?t mod 64" using t(9) d(6) pos by simp
  obtain fc' t' where IH: "send_fragments undef clk k fc2 = Some (fc', map (\<lambda>q. ?F (q mod 64)) (filter ?P [?t..<t']))"
      "length (filter ?P [?t..<t']) = k" "?t \<le> t'" "fc_live fc'" "same_job fc2 fc'" "acks fc' = acks fc"
    using Suc.IH [OF d(2,5) Suc.prems(3) nt] unfolding job by blast
  have "[t..<t'] = [t..<?t] @ [?t..<t']" using IH(3) upt_add_eq_append [of t ?t "t' - ?t"] by simp
  then have all: "filter ?P [t..<t'] = (t + d) # filter ?P [?t..<t']" by (simp only: filter_append single append_Cons append_Nil)
  have "send_fragments undef clk (Suc k) fc = Some (fc', ?F b # map (\<lambda>q. ?F (q mod 64)) (filter ?P [?t..<t']))"
    using t(1) d(1) IH(1) by simp
  then have "send_fragments undef clk (Suc k) fc = Some (fc', map (\<lambda>q. ?F (q mod 64)) (filter ?P [t..<t']))"
    unfolding all b by simp
  moreover have "length (filter ?P [t..<t']) = Suc k" unfolding all using IH(2) by simp
  moreover have "t \<le> t'" using IH(3) by simp
  moreover have "same_job fc fc'" using t(3) d(3) IH(5) by (simp add: same_job_def)
  ultimately show ?case using IH(4,6) by blast
qed

lemma mod_window: "x \<le> y \<Longrightarrow> y < x + 64 \<Longrightarrow> x mod 64 = y mod 64 \<Longrightarrow> x = (y :: nat)"
  using mod_eq_dvd_iff_nat [of x y 64] nat_dvd_not_less [of "y - x" 64] by (cases "x = y") auto

lemma send_round:
  assumes live: "fc_live fc" "proc_busy fc = GNUNET_NO" and clk: "clocks_ok clk"
    and k: "k = card {b. bit (acks fc) b}"
  shows "\<exists>fc' bs. send_fragments undef clk k fc =
      Some (fc', map (fragment (fc_mtu fc) (fc_fragment_id fc) (fc_msg fc)) bs) \<and>
    distinct bs \<and> set bs = {b. bit (acks fc) b}"
proof -
  let ?P = "\<lambda>q. bit (acks fc) (q mod 64)"
  define t where "t = unat (next_transmission fc)"
  have t64: "t < 64" using live by (simp add: t_def fc_live_def fc_ok_def)
  then have nt: "unat (next_transmission fc) = t mod 64" by (simp add: t_def)
  obtain fc' t' where s: "send_fragments undef clk k fc =
      Some (fc', map (\<lambda>q. fragment (fc_mtu fc) (fc_fragment_id fc) (fc_msg fc) (q mod 64)) (filter ?P [t..<t']))"
      "length (filter ?P [t..<t']) = k" "t \<le> t'"
    using send_fragments_positions [OF live clk nt] by blast
  let ?W = "filter ?P [t..<t + 64]" and ?B = "{b. bit (acks fc) b}"
  have inj: "inj_on (\<lambda>q. q mod 64) (set ?W)"
  proof (rule inj_onI)
    fix x y assume "x \<in> set ?W" "y \<in> set ?W" "x mod 64 = y mod 64"
    then have "t \<le> x" "x < t + 64" "t \<le> y" "y < t + 64" "x mod 64 = y mod 64" by auto
    then show "x = y"
      by (cases "x \<le> y") (use mod_window [of x y] mod_window [of y x] in auto)
  qed
  have img: "(\<lambda>q. q mod 64) ` set ?W = ?B"
  proof (intro equalityI subsetI)
    fix b assume "b \<in> ?B"
    then have b: "bit (acks fc) b" "b < 64" by (auto dest: bit_imp_le_length)
    then have "(if t \<le> b then b else b + 64) \<in> set ?W" using t64 by auto
    moreover have "b = (if t \<le> b then b else b + 64) mod 64" using b(2) by simp
    ultimately show "b \<in> (\<lambda>q. q mod 64) ` set ?W" by blast
  qed auto
  have "distinct ?W" by simp
  then have len: "length ?W = k" using k inj img by (metis card_image distinct_card)
  have "filter ?P [t..<t'] = ?W"
  proof (cases "t' \<le> t + 64")
    case True
    then have "[t..<t + 64] = [t..<t'] @ [t'..<t + 64]" using s(3) upt_add_eq_append [of t t' "t + 64 - t'"] by simp
    then have "?W = filter ?P [t..<t'] @ filter ?P [t'..<t + 64]" by (metis filter_append)
    then show ?thesis using s(2) len by (metis append_eq_append_conv append_Nil2)
  next
    case False
    then have "[t..<t'] = [t..<t + 64] @ [t + 64..<t']" using upt_add_eq_append [of t "t + 64" "t' - (t + 64)"] by simp
    then have "filter ?P [t..<t'] = ?W @ filter ?P [t + 64..<t']" by (metis filter_append)
    then show ?thesis using s(2) len by (metis append_eq_append_conv append_Nil2)
  qed
  then have "send_fragments undef clk k fc =
      Some (fc', map (fragment (fc_mtu fc) (fc_fragment_id fc) (fc_msg fc)) (map (\<lambda>q. q mod 64) ?W))"
    using s(1) by simp
  moreover have "distinct (map (\<lambda>q. q mod 64) ?W)" unfolding distinct_map using inj by simp
  moreover have "set (map (\<lambda>q. q mod 64) ?W) = ?B" using img by simp
  ultimately show ?thesis by blast
qed

end
