(* ===== verification/Defragmentation.thy ===== *)
theory Defragmentation
  imports Fragmentation
begin

unbundle bit_operations_syntax

text \<open>
  The receiver side of message fragmentation, \<^verbatim>\<open>src/src/fragmentation/defragmentation.c\<close>.  The message
  contexts of a defragmentation context form a list, the head of the C list first.  Messages, scheduled tasks and
  the clock are as for the sender.  The messages given to \<^verbatim>\<open>proc\<close> are a result.  A failing assertion, a division by
  zero, an access outside an array or buffer and a shift by 64 or more have the result \<open>None\<close>.  The argument \<open>est\<close> stands for
  the floating-point least-squares fit in \<^verbatim>\<open>estimate_latency\<close>, applied to the recorded time stamps.
\<close>

section \<open>The code\<close>

record FragTimes =
  ft_time :: GNUNET_TIME_Absolute
  ft_bit :: u32

record MessageContext =
  mc_msg :: "byte list"
  mc_last_update :: GNUNET_TIME_Absolute
  ack_task :: "GNUNET_TIME_Relative option"
  frag_times :: "FragTimes list"
  mc_bits :: u64
  mc_fragment_id :: u32
  last_bit :: u32
  frag_times_start_offset :: u32
  frag_times_write_offset :: u32
  total_size :: u16

record GNUNET_DEFRAGMENT_Context =
  dc_msgs :: "MessageContext list"
  latency :: GNUNET_TIME_Relative
  num_msgs :: u32
  list_size :: u32
  dc_mtu :: u16

definition GNUNET_DEFRAGMENT_context_create :: "u16 \<Rightarrow> u32 \<Rightarrow> GNUNET_DEFRAGMENT_Context" where
  "GNUNET_DEFRAGMENT_context_create mtu n =
     \<lparr>dc_msgs = [], latency = GNUNET_TIME_UNIT_SECONDS, num_msgs = n, list_size = 0, dc_mtu = mtu\<rparr>"

fun destroy_loop :: "MessageContext list \<Rightarrow> u32 \<Rightarrow> u32" where
  "destroy_loop [] n = n"
| "destroy_loop (mc # mcs) n = destroy_loop mcs (n - 1)"

definition GNUNET_DEFRAGMENT_context_destroy :: "GNUNET_DEFRAGMENT_Context \<Rightarrow> unit option" where
  "GNUNET_DEFRAGMENT_context_destroy dc =
     (if destroy_loop (dc_msgs dc) (list_size dc) = 0 then Some () else None)"

definition ack_message :: "MessageContext \<Rightarrow> byte list" where
  "ack_message mc =
     be16 (of_nat FragmentAcknowledgement_size) @ be16 19 @ be32 (mc_fragment_id mc) @ be64 (mc_bits mc)"

definition send_ack :: "nat \<Rightarrow> GNUNET_DEFRAGMENT_Context \<Rightarrow> (GNUNET_DEFRAGMENT_Context \<times> byte list) option" where
  "send_ack i dc =
     (if i < length (dc_msgs dc)
      then let mc = dc_msgs dc ! i in
           Some (dc\<lparr>dc_msgs := (dc_msgs dc)[i := mc\<lparr>ack_task := None\<rparr>]\<rparr>, ack_message mc)
      else None)"

definition estimate_latency :: "(FragTimes list \<Rightarrow> GNUNET_TIME_Relative) \<Rightarrow> MessageContext \<Rightarrow> GNUNET_TIME_Relative option" where
  "estimate_latency est mc =
     (let total = frag_times_write_offset mc - frag_times_start_offset mc;
          ret = est (take (unat total) (drop (unat (frag_times_start_offset mc)) (frag_times mc))) in
      if 1 < total \<and> unat (frag_times_start_offset mc) + unat total \<le> length (frag_times mc)
      then Some (if rel_value ret = 0 then GNUNET_TIME_UNIT_MILLISECONDS else ret)
      else None)"

fun find_oldest :: "(nat \<times> MessageContext) option \<Rightarrow> nat \<Rightarrow> MessageContext list \<Rightarrow> (nat \<times> MessageContext) option" where
  "find_oldest old i [] = old"
| "find_oldest old i (pos # mcs) =
     find_oldest
       (case old of
          None \<Rightarrow> Some (i, pos)
        | Some (j, mc) \<Rightarrow>
            if abs_value (mc_last_update mc) > abs_value (mc_last_update pos) then Some (i, pos) else Some (j, mc))
       (Suc i) mcs"

definition discard_oldest_mc :: "GNUNET_DEFRAGMENT_Context \<Rightarrow> GNUNET_DEFRAGMENT_Context option" where
  "discard_oldest_mc dc =
     (case find_oldest None 0 (dc_msgs dc) of
        None \<Rightarrow> None
      | Some (i, old) \<Rightarrow>
          Some (dc\<lparr>dc_msgs := take i (dc_msgs dc) @ drop (Suc i) (dc_msgs dc), list_size := list_size dc - 1\<rparr>))"

fun find_context :: "u32 \<Rightarrow> MessageContext list \<Rightarrow> nat option" where
  "find_context fid [] = None"
| "find_context fid (mc # mcs) =
     (if fid = mc_fragment_id mc then Some 0 else map_option Suc (find_context fid mcs))"

text \<open>The branch for a fragment of an unknown message; the new context becomes the head of the list.\<close>

definition new_context ::
    "GNUNET_TIME_Absolute \<Rightarrow> GNUNET_DEFRAGMENT_Context \<Rightarrow> u32 \<Rightarrow> u16 \<Rightarrow> GNUNET_DEFRAGMENT_Context option" where
  "new_context now dc fid msize =
     (let n = num_fragments (dc_mtu dc) (unat msize) in
      if 64 < n then None
      else do {
        let mc = \<lparr>mc_msg = replicate (unat msize) 0, mc_last_update = now, ack_task = None,
                  frag_times = replicate 64 \<lparr>ft_time = \<lparr>abs_value = 0\<rparr>, ft_bit = 0\<rparr>,
                  mc_bits = low_bits n, mc_fragment_id = fid, last_bit = 0,
                  frag_times_start_offset = 0, frag_times_write_offset = 0, total_size = msize\<rparr>;
        dc1 \<leftarrow> (if list_size dc \<ge> num_msgs dc then discard_oldest_mc dc else Some dc);
        Some (dc1\<lparr>dc_msgs := mc # dc_msgs dc1, list_size := list_size dc1 + 1\<rparr>)
      })"

text \<open>Copying the payload of fragment \<open>b\<close> into the context, and recording when it came.\<close>

definition store_fragment ::
    "GNUNET_TIME_Absolute \<Rightarrow> u16 \<Rightarrow> nat \<Rightarrow> byte list \<Rightarrow> MessageContext \<Rightarrow> MessageContext option" where
  "store_fragment now mtu b payload mc =
     (let off = b * payload_size mtu;
          w = unat (frag_times_write_offset mc) in
      if off + length payload \<le> length (mc_msg mc) \<and> w < length (frag_times mc)
      then Some (mc\<lparr>mc_bits := mc_bits mc - push_bit b 1,
                    mc_msg := take off (mc_msg mc) @ payload @ drop (off + length payload) (mc_msg mc),
                    mc_last_update := now,
                    frag_times_start_offset :=
                      (if of_nat b < last_bit mc then frag_times_write_offset mc else frag_times_start_offset mc),
                    last_bit := of_nat b,
                    frag_times := (frag_times mc)[w := \<lparr>ft_time = now, ft_bit = of_nat b\<rparr>],
                    frag_times_write_offset := frag_times_write_offset mc + 1\<rparr>)
      else None)"

text \<open>
  The rest of the processing, once the context of the message is entry \<open>i\<close> of the list; \<open>linear\<close> is the
  comparison of \<^verbatim>\<open>last + fid\<close> with \<^verbatim>\<open>num_fragments\<close>.
\<close>

definition receive_fragment ::
    "(FragTimes list \<Rightarrow> GNUNET_TIME_Relative) \<Rightarrow> GNUNET_TIME_Absolute \<Rightarrow> GNUNET_DEFRAGMENT_Context \<Rightarrow> nat \<Rightarrow> nat \<Rightarrow>
     bool \<Rightarrow> byte list \<Rightarrow> (GNUNET_DEFRAGMENT_Context \<times> int \<times> byte list list) option" where
  "receive_fragment est now dc i b linear payload =
     do {
       let mc = dc_msgs dc ! i;
       let duplicate = (mc_bits mc AND push_bit b 1 = 0);
       mc1 \<leftarrow> (if 64 \<le> b then None
               else if duplicate then Some mc
               else store_fragment now (dc_mtu dc) b payload mc);
       let bc = length (filter (\<lambda>b. mc_bits mc1 AND push_bit b 1 \<noteq> 0) [0..<64]);
       let out = (if \<not> duplicate \<and> mc_bits mc1 = 0 then [mc_msg mc1] else []);
       lat \<leftarrow> (if 1 < frag_times_write_offset mc1 - frag_times_start_offset mc1
               then estimate_latency est mc1 else Some (latency dc));
       let delay = (if linear \<or> mc_bits mc1 = 0 \<or> duplicate then GNUNET_TIME_UNIT_ZERO
                    else GNUNET_TIME_relative_multiply lat (of_nat (bc + 1)));
       Some (dc\<lparr>dc_msgs := (dc_msgs dc)[i := mc1\<lparr>ack_task := Some delay\<rparr>], latency := lat\<rparr>,
             if duplicate then GNUNET_NO else GNUNET_YES, out)
     }"

definition GNUNET_DEFRAGMENT_process_fragment ::
    "(FragTimes list \<Rightarrow> GNUNET_TIME_Relative) \<Rightarrow> GNUNET_TIME_Absolute \<Rightarrow> GNUNET_DEFRAGMENT_Context \<Rightarrow> byte list \<Rightarrow>
     (GNUNET_DEFRAGMENT_Context \<times> int \<times> byte list list) option" where
  "GNUNET_DEFRAGMENT_process_fragment est now dc msg =
     (let fail = Some (dc, GNUNET_SYSERR, []);
          sz = message_size msg;
          mtu = unat (dc_mtu dc) in
      if sz < FragmentHeader_size then fail
      else if mtu < sz then fail
      else if length msg < sz then None
      else (let msize = get_be16 msg 8;
                fid = get_be32 msg 4;
                foff = unat (get_be16 msg 10);
                p = payload_size (dc_mtu dc) in
        if unat msize < MessageHeader_size then fail
        else if unat msize \<le> foff then fail
        else if p = 0 then None
        else if foff mod p \<noteq> 0 then fail
        else (let n_frag = (sz + mtu - FragmentHeader_size - 1) div p;
                  last = length (filter (\<lambda>mc. fid < mc_fragment_id mc) (dc_msgs dc));
                  found = find_context fid (dc_msgs dc);
                  b = foff div p in
          if unat msize < b * p + sz - FragmentHeader_size then fail
          else if found \<noteq> None \<and> total_size (dc_msgs dc ! the found) \<noteq> msize then fail
          else do {
            dc1 \<leftarrow> (if found = None then new_context now dc fid msize else Some dc);
            let i = (case found of None \<Rightarrow> 0 | Some i \<Rightarrow> i);
            receive_fragment est now dc1 i b (of_nat last + fid = of_nat n_frag)
              (take (sz - FragmentHeader_size) (drop FragmentHeader_size msg))
          })))"

section \<open>Reading a fragment\<close>

lemma unat_u16_lt: "unat (w :: u16) < 65536"
proof -
  have "unat w < 2 ^ LENGTH(16)" by (rule unsigned_less)
  then show ?thesis by simp
qed

lemma fragment_fields:
  assumes "fragmentable mtu msg" "b < num_fragments mtu (length msg)"
  shows "message_size (fragment mtu fid msg b) = length (fragment mtu fid msg b)"
    "length (fragment mtu fid msg b) = 12 + length (take (payload_size mtu) (drop (b * payload_size mtu) msg))"
    "get_be32 (fragment mtu fid msg b) 4 = fid"
    "unat (get_be16 (fragment mtu fid msg b) 8) = length msg"
    "unat (get_be16 (fragment mtu fid msg b) 10) = payload_size mtu * b"
    "drop 12 (fragment mtu fid msg b) = take (payload_size mtu) (drop (b * payload_size mtu) msg)"
proof -
  note f = fragmentableD [OF assms(1)] and pos = fragment_position [OF assms]
  let ?p = "payload_size mtu" and ?pl = "take (payload_size mtu) (drop (b * payload_size mtu) msg)"
  let ?h1 = "be16 (of_nat (12 + length ?pl))" and ?h2 = "be16 18" and ?h3 = "be32 fid"
    and ?h4 = "be16 (of_nat (length msg))" and ?h5 = "be16 (of_nat (?p * b))"
  have frag: "fragment mtu fid msg b = ?h1 @ ?h2 @ ?h3 @ ?h4 @ ?h5 @ ?pl"
    by (simp only: fragment_def Let_def FragmentHeader_size_def)
  show len: "length (fragment mtu fid msg b) = 12 + length ?pl" unfolding frag by simp
  have "12 + length ?pl \<le> unat mtu" using f(1) by (simp add: payload_size_def)
  then have lt: "12 + length ?pl < 65536" using unat_u16_lt [of mtu] by simp
  have wsz: "unat (of_nat n :: u16) = n" if "n < 65536" for n :: nat
    using that by (simp add: unat_of_nat)
  have "get_be16 (fragment mtu fid msg b) 0 = of_nat (12 + length ?pl)" unfolding frag by (rule get_be16_be16)
  then show "message_size (fragment mtu fid msg b) = length (fragment mtu fid msg b)"
    unfolding message_size_def len using wsz [OF lt] by simp
  show "get_be32 (fragment mtu fid msg b) 4 = fid"
    using get_be_append(2) [of "?h1 @ ?h2" "?h3 @ ?h4 @ ?h5 @ ?pl" 0] unfolding frag by simp
  have "get_be16 (fragment mtu fid msg b) 8 = of_nat (length msg)"
    using get_be_append(1) [of "?h1 @ ?h2 @ ?h3" "?h4 @ ?h5 @ ?pl" 0] unfolding frag by simp
  then show "unat (get_be16 (fragment mtu fid msg b) 8) = length msg" using wsz [OF f(3)] by simp
  have "?p * b < 65536" using pos(1) f(3) by (simp add: mult.commute)
  moreover have "get_be16 (fragment mtu fid msg b) 10 = of_nat (?p * b)"
    using get_be_append(1) [of "?h1 @ ?h2 @ ?h3 @ ?h4" "?h5 @ ?pl" 0] unfolding frag by simp
  ultimately show "unat (get_be16 (fragment mtu fid msg b) 10) = ?p * b" using wsz by (metis (no_types))
  show "drop 12 (fragment mtu fid msg b) = ?pl" unfolding frag by simp
qed

section \<open>Well-formed contexts\<close>

text \<open>
  The function \<open>M\<close> gives the messages that the fragment identifiers belong to.
\<close>

definition slot :: "u16 \<Rightarrow> nat \<Rightarrow> byte list \<Rightarrow> byte list" where
  "slot mtu b msg = take (payload_size mtu) (drop (b * payload_size mtu) msg)"

definition bitset :: "u64 \<Rightarrow> nat set" where
  "bitset w = {b. bit w b}"

definition mc_ok :: "u16 \<Rightarrow> (u32 \<rightharpoonup> byte list) \<Rightarrow> MessageContext \<Rightarrow> bool" where
  "mc_ok mtu M mc \<longleftrightarrow>
     (\<exists>msg. M (mc_fragment_id mc) = Some msg \<and> fragmentable mtu msg \<and> unat (total_size mc) = length msg \<and>
        length (mc_msg mc) = length msg \<and> bitset (mc_bits mc) \<subseteq> {..<num_fragments mtu (length msg)} \<and>
        length (frag_times mc) = 64 \<and>
        unat (frag_times_write_offset mc) + card (bitset (mc_bits mc)) = num_fragments mtu (length msg) \<and>
        frag_times_start_offset mc \<le> frag_times_write_offset mc \<and>
        (\<forall>b < num_fragments mtu (length msg). b \<notin> bitset (mc_bits mc) \<longrightarrow> slot mtu b (mc_msg mc) = slot mtu b msg))"

definition dc_inv :: "(MessageContext \<Rightarrow> bool) \<Rightarrow> GNUNET_DEFRAGMENT_Context \<Rightarrow> bool" where
  "dc_inv P dc \<longleftrightarrow>
     (\<forall>mc \<in> set (dc_msgs dc). P mc) \<and> distinct (map mc_fragment_id (dc_msgs dc)) \<and>
     length (dc_msgs dc) = unat (list_size dc) \<and> list_size dc \<le> num_msgs dc \<and> 0 < num_msgs dc"

definition dc_ok :: "(u32 \<rightharpoonup> byte list) \<Rightarrow> GNUNET_DEFRAGMENT_Context \<Rightarrow> bool" where
  "dc_ok M dc \<longleftrightarrow> dc_inv (mc_ok (dc_mtu dc) M) dc"

lemma bitset_finite [simp]: "finite (bitset w)"
  by (rule finite_subset [of _ "{..<64}"]) (auto simp: bitset_def dest: bit_imp_le_length)

lemma bitset_empty_iff: "bitset w = {} \<longleftrightarrow> w = 0"
proof
  assume "bitset w = {}"
  then show "w = 0" by (intro bit_word_eqI) (auto simp: bitset_def)
qed (simp add: bitset_def)

lemma bitset_low_bits: "n \<le> 64 \<Longrightarrow> bitset (low_bits n) = {..<n}"
  by (auto simp: bitset_def bit_low_bits)

lemma bitset_remove:
  assumes "b \<in> bitset w"
  shows "bitset (w - push_bit b 1) = bitset w - {b}"
proof -
  have "w - push_bit b 1 = unset_bit b w"
    using assms by (simp add: bitset_def unset_bit_eq push_bit_eq_mult)
  then show ?thesis by (auto simp: bitset_def bit_unset_bit_iff)
qed

lemma slots_eq:
  assumes "length xs = length ys" "0 < payload_size mtu" "length ys \<le> n * payload_size mtu"
    and "\<forall>b < n. slot mtu b xs = slot mtu b ys"
  shows "xs = ys"
proof (rule nth_equalityI [OF assms(1)])
  fix i assume i: "i < length xs"
  let ?p = "payload_size mtu" and ?b = "i div payload_size mtu"
  have lt: "i < n * ?p" using i assms(1,3) by simp
  have b: "?b < n" using lt assms(2) by (simp add: less_mult_imp_div_less)
  have m: "i mod ?p < ?p" using assms(2) by simp
  have e: "i = ?b * ?p + i mod ?p" by simp
  have "slot mtu ?b zs ! (i mod ?p) = zs ! i" if "length zs = length ys" for zs :: "byte list"
    using m i that assms(1) unfolding slot_def by (metis e nth_take nth_drop less_imp_le add_leD1 order.strict_implies_order)
  then show "xs ! i = ys ! i" using assms(1,4) b by metis
qed

lemma slot_store:
  assumes pl: "pl = slot mtu b msg" and len: "length buf = length msg" "b * payload_size mtu < length msg"
    and buf': "buf' = take (b * payload_size mtu) buf @ pl @ drop (b * payload_size mtu + length pl) buf"
  shows "slot mtu c buf' = (if c = b then slot mtu b msg else slot mtu c buf)" "length buf' = length msg"
proof -
  let ?p = "payload_size mtu"
  have plen: "length pl = min (length msg - b * ?p) ?p" by (simp add: pl slot_def)
  then have fits: "b * ?p + length pl \<le> length msg" using len(2) by simp
  show "length buf' = length msg" using fits len(1) by (simp add: buf')
  consider "c = b" | "c < b" | "b < c" by linarith
  then show "slot mtu c buf' = (if c = b then slot mtu b msg else slot mtu c buf)"
  proof cases
    case 1
    have "drop (b * ?p) buf' = pl @ drop (b * ?p + length pl) buf" using len by (simp add: buf')
    moreover have "take ?p (pl @ drop (b * ?p + length pl) buf) = pl"
      using plen len by (cases "length msg - b * ?p \<le> ?p") (simp_all add: min_def)
    ultimately show ?thesis using 1 pl by (simp add: slot_def)
  next
    case 2
    then have "Suc c * ?p \<le> b * ?p" by (intro mult_le_mono) simp_all
    then have "take (c * ?p + ?p) buf' = take (c * ?p + ?p) buf" using len by (simp add: buf' min_def)
    then have "take ?p (drop (c * ?p) buf') = take ?p (drop (c * ?p) buf)"
      by (metis take_drop add.commute)
    then show ?thesis using 2 by (simp add: slot_def)
  next
    case 3
    then have "Suc b * ?p \<le> c * ?p" by (intro mult_le_mono) simp_all
    then have "b * ?p + length pl \<le> c * ?p" using plen by simp
    then have "drop (c * ?p) buf' = drop (c * ?p) buf"
      using len fits 3 by (simp add: buf' drop_append)
    then show ?thesis using 3 by (simp add: slot_def)
  qed
qed

section \<open>The list of contexts\<close>

lemma find_context_None: "find_context fid mcs = None \<longleftrightarrow> fid \<notin> mc_fragment_id ` set mcs"
  by (induction mcs) auto

lemma find_context_Some:
  "find_context fid mcs = Some i \<Longrightarrow> i < length mcs \<and> mc_fragment_id (mcs ! i) = fid"
  by (induction mcs arbitrary: i) (auto split: if_splits)

definition missing_of :: "GNUNET_DEFRAGMENT_Context \<Rightarrow> u32 \<Rightarrow> nat set option" where
  "missing_of dc fid = map_option (\<lambda>i. bitset (mc_bits (dc_msgs dc ! i))) (find_context fid (dc_msgs dc))"

lemma missing_of_None: "missing_of dc fid = None \<longleftrightarrow> fid \<notin> mc_fragment_id ` set (dc_msgs dc)"
  by (simp add: missing_of_def find_context_None)

lemma missing_of_Some:
  assumes "distinct (map mc_fragment_id (dc_msgs dc))" "mc \<in> set (dc_msgs dc)"
  shows "missing_of dc (mc_fragment_id mc) = Some (bitset (mc_bits mc))"
proof -
  obtain i where i: "find_context (mc_fragment_id mc) (dc_msgs dc) = Some i"
    using assms(2) find_context_None [of "mc_fragment_id mc" "dc_msgs dc"] by auto
  note s = find_context_Some [OF i]
  then have "dc_msgs dc ! i = mc"
    using assms by (metis in_set_conv_nth length_map nth_eq_iff_index_eq nth_map)
  then show ?thesis by (simp add: missing_of_def i)
qed

text \<open>The context that is discarded is one that was not updated for the longest time.\<close>

lemma find_oldest_spec:
  assumes "find_oldest old i mcs = r"
    and "\<forall>j mc. old = Some (j, mc) \<longrightarrow> j < length (pre @ mcs) \<and> (pre @ mcs) ! j = mc \<and>
      (\<forall>x \<in> set pre. abs_value (mc_last_update mc) \<le> abs_value (mc_last_update x))"
    and "i = length pre" "old = None \<longrightarrow> pre = []" "pre @ mcs \<noteq> []"
  shows "\<exists>j mc. r = Some (j, mc) \<and> j < length (pre @ mcs) \<and> (pre @ mcs) ! j = mc \<and>
    (\<forall>x \<in> set (pre @ mcs). abs_value (mc_last_update mc) \<le> abs_value (mc_last_update x))"
  using assms
proof (induction old i mcs arbitrary: pre rule: find_oldest.induct)
  case (1 old i)
  then show ?case by (cases old) auto
next
  case (2 old i pos mcs)
  let ?old = "case old of None \<Rightarrow> Some (i, pos) | Some (j, mc) \<Rightarrow>
    if abs_value (mc_last_update mc) > abs_value (mc_last_update pos) then Some (i, pos) else Some (j, mc)"
  have inv: "\<forall>j mc. ?old = Some (j, mc) \<longrightarrow> j < length ((pre @ [pos]) @ mcs) \<and> ((pre @ [pos]) @ mcs) ! j = mc \<and>
      (\<forall>x \<in> set (pre @ [pos]). abs_value (mc_last_update mc) \<le> abs_value (mc_last_update x))"
  proof (cases old)
    case None
    then show ?thesis using "2.prems"(3,4) by simp
  next
    case (Some jm)
    obtain j mc where jm: "jm = (j, mc)" by fastforce
    have o: "j < length (pre @ pos # mcs)" "(pre @ pos # mcs) ! j = mc"
        "\<forall>x \<in> set pre. abs_value (mc_last_update mc) \<le> abs_value (mc_last_update x)"
      using "2.prems"(2) Some jm by auto
    show ?thesis
    proof (cases "abs_value (mc_last_update mc) > abs_value (mc_last_update pos)")
      case True
      then have "\<forall>x \<in> set pre. abs_value (mc_last_update pos) \<le> abs_value (mc_last_update x)"
        using o(3) by (meson less_imp_le order.trans)
      then show ?thesis using True Some jm "2.prems"(3) by simp
    next
      case False
      then show ?thesis using o Some jm by auto
    qed
  qed
  have some: "?old \<noteq> None" by (cases old) (auto split: prod.splits)
  have r: "find_oldest ?old (Suc i) mcs = r" using "2.prems"(1) by simp
  have "\<exists>j mc. r = Some (j, mc) \<and> j < length ((pre @ [pos]) @ mcs) \<and> ((pre @ [pos]) @ mcs) ! j = mc \<and>
      (\<forall>x \<in> set ((pre @ [pos]) @ mcs). abs_value (mc_last_update mc) \<le> abs_value (mc_last_update x))"
    by (rule "2.IH" [OF r inv]) (use some "2.prems"(3) in auto)
  then show ?case by (simp only: append_assoc append_Cons append_Nil)
qed

lemma discard_oldest_spec:
  assumes "dc_msgs dc \<noteq> []"
  shows "\<exists>i < length (dc_msgs dc). discard_oldest_mc dc =
      Some (dc\<lparr>dc_msgs := take i (dc_msgs dc) @ drop (Suc i) (dc_msgs dc), list_size := list_size dc - 1\<rparr>) \<and>
    (\<forall>mc \<in> set (dc_msgs dc). abs_value (mc_last_update (dc_msgs dc ! i)) \<le> abs_value (mc_last_update mc))"
  using find_oldest_spec [OF refl, of None "[]" "dc_msgs dc" 0] assms
  by (auto simp: discard_oldest_mc_def)

lemma set_take_drop_Suc: "set (take i xs @ drop (Suc i) xs) \<subseteq> set xs"
  by (auto dest: in_set_takeD in_set_dropD)

lemma distinct_take_drop_Suc: "distinct (map f xs) \<Longrightarrow> distinct (map f (take i xs @ drop (Suc i) xs))"
proof (induction xs arbitrary: i)
  case (Cons x xs)
  show ?case
  proof (cases i)
    case (Suc j)
    have "f x \<notin> f ` set (take j xs @ drop (Suc j) xs)" using Cons.prems set_take_drop_Suc [of j xs] by auto
    then show ?thesis using Cons Suc by (simp add: image_Un)
  qed (use Cons.prems in simp)
qed simp

definition fresh_context :: "GNUNET_TIME_Absolute \<Rightarrow> u16 \<Rightarrow> u32 \<Rightarrow> u16 \<Rightarrow> MessageContext" where
  "fresh_context now mtu fid msize =
     \<lparr>mc_msg = replicate (unat msize) 0, mc_last_update = now, ack_task = None,
      frag_times = replicate 64 \<lparr>ft_time = \<lparr>abs_value = 0\<rparr>, ft_bit = 0\<rparr>,
      mc_bits = low_bits (num_fragments mtu (unat msize)), mc_fragment_id = fid, last_bit = 0,
      frag_times_start_offset = 0, frag_times_write_offset = 0, total_size = msize\<rparr>"

lemma fresh_context_ok:
  assumes "M fid = Some msg" "fragmentable mtu msg" "unat msize = length msg"
  shows "mc_ok mtu M (fresh_context now mtu fid msize)"
  using assms fragmentableD(5) [OF assms(2)]
  by (auto simp: mc_ok_def fresh_context_def bitset_low_bits)

lemma unat_succ_less: "(x :: u32) < y \<Longrightarrow> unat (x + 1) = unat x + 1"
proof -
  assume "x < y"
  then have "unat x + 1 < 4294967296" using unat_u32_lt [of y] by (simp only: word_less_nat_alt)
  then show ?thesis by (simp add: unat_word_ariths)
qed

lemma new_context_spec:
  assumes ok: "dc_inv P dc" and n: "num_fragments (dc_mtu dc) (unat msize) \<le> 64"
    and mok: "P (fresh_context now (dc_mtu dc) fid msize)" and new: "fid \<notin> mc_fragment_id ` set (dc_msgs dc)"
  shows "\<exists>dc1 kept. new_context now dc fid msize = Some dc1 \<and> dc_inv P dc1 \<and>
    dc_msgs dc1 = fresh_context now (dc_mtu dc) fid msize # kept \<and> set kept \<subseteq> set (dc_msgs dc) \<and>
    (list_size dc < num_msgs dc \<longrightarrow> kept = dc_msgs dc) \<and> dc_mtu dc1 = dc_mtu dc \<and> num_msgs dc1 = num_msgs dc"
proof -
  let ?mc = "fresh_context now (dc_mtu dc) fid msize"
  have d: "\<forall>mc \<in> set (dc_msgs dc). P mc" "distinct (map mc_fragment_id (dc_msgs dc))"
      "length (dc_msgs dc) = unat (list_size dc)" "list_size dc \<le> num_msgs dc" "0 < num_msgs dc"
    using ok by (auto simp: dc_inv_def)
  have step: "new_context now dc fid msize =
      do { dc1 \<leftarrow> (if list_size dc \<ge> num_msgs dc then discard_oldest_mc dc else Some dc);
           Some (dc1\<lparr>dc_msgs := ?mc # dc_msgs dc1, list_size := list_size dc1 + 1\<rparr>) }"
    using n by (simp add: new_context_def fresh_context_def)
  have mid: "mc_fragment_id ?mc = fid" by (simp add: fresh_context_def)
  show ?thesis
  proof (cases "list_size dc \<ge> num_msgs dc")
    case False
    then have lt: "list_size dc < num_msgs dc" by simp
    then have "unat (list_size dc + 1) = unat (list_size dc) + 1"
      by (rule unat_succ_less)
    moreover have "list_size dc + 1 \<le> num_msgs dc" using lt by (rule inc_le)
    ultimately have "dc_inv P (dc\<lparr>dc_msgs := ?mc # dc_msgs dc, list_size := list_size dc + 1\<rparr>)"
      using d new mok mid by (simp add: dc_inv_def)
    then show ?thesis unfolding step using False by simp
  next
    case True
    then have full: "list_size dc = num_msgs dc" using d(4) by simp
    then have "dc_msgs dc \<noteq> []" using d(3,5) by (auto simp: word_less_nat_alt)
    then obtain i where i: "i < length (dc_msgs dc)" "discard_oldest_mc dc =
        Some (dc\<lparr>dc_msgs := take i (dc_msgs dc) @ drop (Suc i) (dc_msgs dc), list_size := list_size dc - 1\<rparr>)"
      using discard_oldest_spec by blast
    let ?kept = "take i (dc_msgs dc) @ drop (Suc i) (dc_msgs dc)"
    have sub: "set ?kept \<subseteq> set (dc_msgs dc)" by (rule set_take_drop_Suc)
    have "length ?kept + 1 = unat (list_size dc)" using i(1) d(3) by simp
    moreover have "distinct (map mc_fragment_id ?kept)" by (rule distinct_take_drop_Suc [OF d(2)])
    moreover have "fid \<notin> mc_fragment_id ` set ?kept" using new sub by blast
    ultimately have "dc_inv P (dc\<lparr>dc_msgs := ?mc # ?kept, list_size := list_size dc\<rparr>)"
      using d(1,4,5) sub mok mid by (auto simp: dc_inv_def)
    then show ?thesis unfolding step using True full i(2) sub by simp
  qed
qed

section \<open>Receiving a fragment\<close>

lemma mc_okE:
  assumes "mc_ok mtu M mc" "M (mc_fragment_id mc) = Some msg"
  shows "fragmentable mtu msg" "unat (total_size mc) = length msg" "length (mc_msg mc) = length msg"
    "bitset (mc_bits mc) \<subseteq> {..<num_fragments mtu (length msg)}" "length (frag_times mc) = 64"
    "unat (frag_times_write_offset mc) + card (bitset (mc_bits mc)) = num_fragments mtu (length msg)"
    "frag_times_start_offset mc \<le> frag_times_write_offset mc"
    "\<forall>b < num_fragments mtu (length msg). b \<notin> bitset (mc_bits mc) \<longrightarrow> slot mtu b (mc_msg mc) = slot mtu b msg"
  using assms unfolding mc_ok_def by auto

lemma mc_complete:
  assumes "mc_ok mtu M mc" "M (mc_fragment_id mc) = Some msg" "mc_bits mc = 0"
  shows "mc_msg mc = msg"
proof -
  note m = mc_okE [OF assms(1,2)] and f = fragmentableD [OF mc_okE(1) [OF assms(1,2)]]
  have "bitset (mc_bits mc) = {}" using assms(3) by (simp add: bitset_empty_iff)
  then show ?thesis
    using m(8) by (intro slots_eq [OF m(3) f(4) num_fragments_bounds(2) [OF f(1,2)]]) simp
qed

lemma store_fragment_spec:
  assumes ok: "mc_ok mtu M mc" and M: "M (mc_fragment_id mc) = Some msg" and b: "b \<in> bitset (mc_bits mc)"
  shows "\<exists>mc'. store_fragment now mtu b (slot mtu b msg) mc = Some mc' \<and> mc_ok mtu M mc' \<and>
    mc_fragment_id mc' = mc_fragment_id mc \<and> bitset (mc_bits mc') = bitset (mc_bits mc) - {b}"
proof -
  note m = mc_okE [OF ok M]
  let ?n = "num_fragments mtu (length msg)" and ?p = "payload_size mtu" and ?pl = "slot mtu b msg"
  let ?w = "frag_times_write_offset mc"
  have bn: "b < ?n" using b m(4) by auto
  note pos = fragment_position [OF m(1) bn] and f = fragmentableD [OF m(1)]
  have fits: "b * ?p + length ?pl \<le> length (mc_msg mc)" using pos(1) m(3) by (simp add: slot_def)
  have "0 < card (bitset (mc_bits mc))" using b by (auto simp: card_gt_0_iff)
  then have w: "unat ?w < 64" using m(6) f(5) by linarith
  then have w1: "unat (?w + 1) = unat ?w + 1" by (simp add: unat_word_ariths)
  define mc' where "mc' = mc\<lparr>mc_bits := mc_bits mc - push_bit b 1,
      mc_msg := take (b * ?p) (mc_msg mc) @ ?pl @ drop (b * ?p + length ?pl) (mc_msg mc), mc_last_update := now,
      frag_times_start_offset := (if of_nat b < last_bit mc then ?w else frag_times_start_offset mc),
      last_bit := of_nat b, frag_times := (frag_times mc)[unat ?w := \<lparr>ft_time = now, ft_bit = of_nat b\<rparr>],
      frag_times_write_offset := ?w + 1\<rparr>"
  have st: "store_fragment now mtu b ?pl mc = Some mc'"
    using fits w m(5) by (simp add: store_fragment_def Let_def mc'_def)
  have buf: "mc_msg mc' = take (b * ?p) (mc_msg mc) @ ?pl @ drop (b * ?p + length ?pl) (mc_msg mc)"
    by (simp add: mc'_def)
  note slots = slot_store [OF refl m(3) pos(1) buf]
  have bits: "bitset (mc_bits mc') = bitset (mc_bits mc) - {b}" using bitset_remove [OF b] by (simp add: mc'_def)
  have card: "card (bitset (mc_bits mc')) + 1 = card (bitset (mc_bits mc))"
    unfolding bits using card_Suc_Diff1 [OF bitset_finite b] by simp
  have "frag_times_start_offset mc' \<le> frag_times_write_offset mc'"
    using m(7) w1 by (auto simp: mc'_def word_le_nat_alt)
  moreover have "\<forall>c < ?n. c \<notin> bitset (mc_bits mc') \<longrightarrow> slot mtu c (mc_msg mc') = slot mtu c msg"
    unfolding bits slots(1) using m(8) by simp
  moreover have "unat (frag_times_write_offset mc') + card (bitset (mc_bits mc')) = ?n"
    using m(6) card w1 by (simp add: mc'_def)
  moreover have "bitset (mc_bits mc') \<subseteq> {..<?n}" unfolding bits using m(4) by blast
  moreover have "total_size mc' = total_size mc" "mc_fragment_id mc' = mc_fragment_id mc" "length (frag_times mc') = 64"
    using m(5) by (simp_all add: mc'_def)
  ultimately have "mc_ok mtu M mc'"
    unfolding mc_ok_def using M m(1,2) slots(2) by simp
  then show ?thesis using st bits by (auto simp: mc'_def)
qed

lemma estimate_latency_defined:
  assumes ok: "mc_ok mtu M mc" and M: "M (mc_fragment_id mc) = Some msg"
    and "1 < frag_times_write_offset mc - frag_times_start_offset mc"
  shows "\<exists>lat. estimate_latency est mc = Some lat"
proof -
  note m = mc_okE [OF ok M]
  have "unat (frag_times_write_offset mc) \<le> 64" using m(6) fragmentableD(5) [OF m(1)] by linarith
  moreover have "unat (frag_times_write_offset mc - frag_times_start_offset mc) =
      unat (frag_times_write_offset mc) - unat (frag_times_start_offset mc)"
    using m(7) by (rule unat_sub)
  ultimately show ?thesis
    using m(5,7) assms(3) by (simp add: estimate_latency_def Let_def word_le_nat_alt)
qed

text \<open>The part of the code after the context of the fragment is known, as the list entry \<open>i\<close>.\<close>

lemma mc_ok_ack_task [simp]: "mc_ok mtu M (mc\<lparr>ack_task := t\<rparr>) = mc_ok mtu M mc"
  by (simp add: mc_ok_def)

lemma update_context_ok:
  assumes "dc_inv P dc" "i < length (dc_msgs dc)" "P mc"
    and "mc_fragment_id mc = mc_fragment_id (dc_msgs dc ! i)"
  shows "dc_inv P (dc\<lparr>dc_msgs := (dc_msgs dc)[i := mc], latency := lat\<rparr>)"
proof -
  have "map mc_fragment_id ((dc_msgs dc)[i := mc]) = map mc_fragment_id (dc_msgs dc)"
    using assms(2,4) by (metis list_update_id map_update nth_map length_map)
  moreover have "\<forall>x \<in> set ((dc_msgs dc)[i := mc]). P x"
    using assms(1,3) set_update_subset_insert [of "dc_msgs dc" i mc] by (auto simp: dc_inv_def)
  ultimately show ?thesis using assms(1) by (simp add: dc_inv_def)
qed

lemma find_context_update:
  "i < length mcs \<Longrightarrow> mc_fragment_id mc = mc_fragment_id (mcs ! i) \<Longrightarrow>
   find_context g (mcs[i := mc]) = find_context g mcs"
  by (induction mcs arbitrary: i) (auto simp: nth_Cons split: nat.splits)

lemma missing_of_update:
  assumes "distinct (map mc_fragment_id (dc_msgs dc))" "i < length (dc_msgs dc)"
    and "mc_fragment_id mc = mc_fragment_id (dc_msgs dc ! i)"
  shows "missing_of (dc\<lparr>dc_msgs := (dc_msgs dc)[i := mc], latency := lat\<rparr>) g =
    (if g = mc_fragment_id mc then Some (bitset (mc_bits mc)) else missing_of dc g)"
proof (cases "find_context g (dc_msgs dc)")
  case None
  then have "g \<noteq> mc_fragment_id mc" using assms(2,3) by (auto simp: find_context_None)
  then show ?thesis using None assms(2,3) by (simp add: missing_of_def find_context_update)
next
  case (Some j)
  then have j: "j < length (dc_msgs dc)" "mc_fragment_id (dc_msgs dc ! j) = g" using find_context_Some by auto
  have "g = mc_fragment_id mc \<longleftrightarrow> j = i"
    using assms j nth_eq_iff_index_eq [of "map mc_fragment_id (dc_msgs dc)" i j] by auto
  then show ?thesis using Some assms(2,3) by (auto simp: missing_of_def find_context_update)
qed

lemma receive_fragment_spec:
  assumes ok: "dc_ok M dc" and i: "i < length (dc_msgs dc)" and fid: "mc_fragment_id (dc_msgs dc ! i) = fid"
    and M: "M fid = Some msg" and b: "b < num_fragments (dc_mtu dc) (length msg)"
  defines "missing \<equiv> bitset (mc_bits (dc_msgs dc ! i))"
  shows "\<exists>dc'. receive_fragment est now dc i b linear (slot (dc_mtu dc) b msg) =
      Some (dc', if b \<in> missing then GNUNET_YES else GNUNET_NO, if missing = {b} then [msg] else []) \<and>
    dc_ok M dc' \<and> dc_mtu dc' = dc_mtu dc \<and> num_msgs dc' = num_msgs dc \<and> list_size dc' = list_size dc \<and>
    (\<forall>g. missing_of dc' g = (if g = fid then Some (missing - {b}) else missing_of dc g))"
proof -
  let ?mc = "dc_msgs dc ! i"
  have mok: "mc_ok (dc_mtu dc) M ?mc" using ok i by (simp add: dc_ok_def dc_inv_def)
  have M': "M (mc_fragment_id ?mc) = Some msg" using M fid by simp
  note m = mc_okE [OF mok M']
  have b64: "\<not> 64 \<le> b" using fragment_position(2) [OF m(1) b] by simp
  have dup: "mc_bits ?mc AND push_bit b 1 = 0 \<longleftrightarrow> b \<notin> missing"
    unfolding and_bit_0_iff by (simp add: missing_def bitset_def)
  obtain mc1 where mc1: "(if mc_bits ?mc AND push_bit b 1 = 0 then Some ?mc
        else store_fragment now (dc_mtu dc) b (slot (dc_mtu dc) b msg) ?mc) = Some mc1"
      "mc_ok (dc_mtu dc) M mc1" "mc_fragment_id mc1 = fid" "bitset (mc_bits mc1) = missing - {b}"
  proof (cases "b \<in> missing")
    case True
    then show thesis using that store_fragment_spec [OF mok M', of b now] dup fid unfolding missing_def by auto
  next
    case False
    then show thesis using that [of ?mc] mok dup fid unfolding missing_def by auto
  qed
  obtain lat where lat: "(if 1 < frag_times_write_offset mc1 - frag_times_start_offset mc1
      then estimate_latency est mc1 else Some (latency dc)) = Some lat"
    using estimate_latency_defined [OF mc1(2), of msg est] M mc1(3)
    by (cases "1 < frag_times_write_offset mc1 - frag_times_start_offset mc1") auto
  have zero: "mc_bits mc1 = 0 \<longleftrightarrow> missing - {b} = {}" using mc1(4) bitset_empty_iff by metis
  have out: "(if \<not> b \<notin> missing \<and> mc_bits mc1 = 0 then [mc_msg mc1] else []) = (if missing = {b} then [msg] else [])"
    using zero mc_complete [OF mc1(2), of msg] M mc1(3) by auto
  define t where "t = (if linear \<or> mc_bits mc1 = 0 \<or> b \<notin> missing then GNUNET_TIME_UNIT_ZERO
    else GNUNET_TIME_relative_multiply lat
      (of_nat (length (filter (\<lambda>b. mc_bits mc1 AND push_bit b 1 \<noteq> 0) [0..<64]) + 1)))"
  have r: "receive_fragment est now dc i b linear (slot (dc_mtu dc) b msg) =
      Some (dc\<lparr>dc_msgs := (dc_msgs dc)[i := mc1\<lparr>ack_task := Some t\<rparr>], latency := lat\<rparr>,
        if b \<in> missing then GNUNET_YES else GNUNET_NO, if missing = {b} then [msg] else [])"
    unfolding receive_fragment_def Let_def dup t_def out [symmetric]
    using b64 mc1(1) [unfolded dup] lat by simp
  let ?dc = "dc\<lparr>dc_msgs := (dc_msgs dc)[i := mc1\<lparr>ack_task := Some t\<rparr>], latency := lat\<rparr>"
  have "dc_inv (mc_ok (dc_mtu dc) M) ?dc"
    by (rule update_context_ok [OF ok [unfolded dc_ok_def] i]) (use mc1(2,3) fid in simp_all)
  then have "dc_ok M ?dc" by (simp add: dc_ok_def)
  moreover have "distinct (map mc_fragment_id (dc_msgs dc))" using ok by (simp add: dc_ok_def dc_inv_def)
  then have "missing_of ?dc g = (if g = fid then Some (missing - {b}) else missing_of dc g)" for g
    using missing_of_update [OF _ i, of "mc1\<lparr>ack_task := Some t\<rparr>" lat g] mc1(3,4) fid by simp
  ultimately show ?thesis using r by simp
qed

lemma new_context_others:
  assumes ok: "dc_inv P dc" "dc_inv P dc1" and kept: "dc_msgs dc1 = mc # kept" "set kept \<subseteq> set (dc_msgs dc)"
      "list_size dc < num_msgs dc \<longrightarrow> kept = dc_msgs dc"
    and g: "g \<noteq> mc_fragment_id mc"
  shows "missing_of dc1 g = missing_of dc g \<or> missing_of dc1 g = None \<and> list_size dc = num_msgs dc"
proof (cases "g \<in> mc_fragment_id ` set kept")
  case True
  then obtain x where "x \<in> set kept" "mc_fragment_id x = g" by auto
  moreover have "distinct (map mc_fragment_id (dc_msgs dc))" "distinct (map mc_fragment_id (dc_msgs dc1))"
    using ok by (simp_all add: dc_inv_def)
  ultimately show ?thesis using missing_of_Some [of _ x] kept(1,2) by (metis list.set_intros(2) subsetD)
next
  case False
  then have none: "missing_of dc1 g = None" using kept(1) g by (simp add: missing_of_None)
  show ?thesis
  proof (cases "list_size dc < num_msgs dc")
    case True
    then have "missing_of dc g = None" using False kept(3) by (simp add: missing_of_None)
    then show ?thesis using none by simp
  next
    case False
    then show ?thesis using none ok(1) by (auto simp: dc_inv_def)
  qed
qed

lemma process_fragment_spec:
  assumes ok: "dc_ok M dc" and M: "M fid = Some msg" "fragmentable (dc_mtu dc) msg"
    and b: "b < num_fragments (dc_mtu dc) (length msg)"
  defines "missing \<equiv> case missing_of dc fid of None \<Rightarrow> {..<num_fragments (dc_mtu dc) (length msg)} | Some s \<Rightarrow> s"
  shows "\<exists>dc'. GNUNET_DEFRAGMENT_process_fragment est now dc (fragment (dc_mtu dc) fid msg b) =
      Some (dc', if b \<in> missing then GNUNET_YES else GNUNET_NO, if missing = {b} then [msg] else []) \<and>
    dc_ok M dc' \<and> dc_mtu dc' = dc_mtu dc \<and> num_msgs dc' = num_msgs dc \<and>
    missing_of dc' fid = Some (missing - {b}) \<and>
    (\<forall>g. g \<noteq> fid \<longrightarrow> missing_of dc' g = missing_of dc g \<or>
       missing_of dc' g = None \<and> missing_of dc fid = None \<and> list_size dc = num_msgs dc)"
proof -
  let ?f = "fragment (dc_mtu dc) fid msg b" and ?p = "payload_size (dc_mtu dc)"
  note f = fragment_fields [OF M(2) b] and fd = fragmentableD [OF M(2)] and pos = fragment_position [OF M(2) b]
  let ?msize = "get_be16 ?f 8"
  have len: "length ?f = 12 + length (slot (dc_mtu dc) b msg)" unfolding f(2) slot_def by simp
  have fits: "b * ?p + length (slot (dc_mtu dc) b msg) \<le> length msg" using pos(1) by (simp add: slot_def)
  have mtu: "length ?f \<le> unat (dc_mtu dc)" using fd(1) unfolding len by (simp add: slot_def payload_size_def)
  have g4: "\<not> unat ?msize < MessageHeader_size" "\<not> unat ?msize \<le> ?p * b"
    using M(2) pos(1) unfolding f(4) by (simp_all add: fragmentable_def mult.commute)
  have sizes: "total_size (dc_msgs dc ! i) = ?msize" if "find_context fid (dc_msgs dc) = Some i" for i
  proof -
    have i: "i < length (dc_msgs dc)" "mc_fragment_id (dc_msgs dc ! i) = fid" using find_context_Some [OF that] by auto
    then have "mc_ok (dc_mtu dc) M (dc_msgs dc ! i)" using ok by (simp add: dc_ok_def dc_inv_def)
    then have "unat (total_size (dc_msgs dc ! i)) = unat ?msize" using mc_okE(2) M(1) i(2) f(4) by metis
    then show ?thesis by (rule unsigned_word_eqI)
  qed
  have payload: "take (length ?f - FragmentHeader_size) (drop FragmentHeader_size ?f) = slot (dc_mtu dc) b msg"
  proof -
    have "drop FragmentHeader_size ?f = slot (dc_mtu dc) b msg" by (simp add: f(6) slot_def)
    then show ?thesis using len by simp
  qed
  let ?lin = "of_nat (length (filter (\<lambda>mc. fid < mc_fragment_id mc) (dc_msgs dc))) + fid =
      of_nat ((length ?f + unat (dc_mtu dc) - FragmentHeader_size - 1) div ?p)"
  have body: "GNUNET_DEFRAGMENT_process_fragment est now dc ?f =
      do { dc1 \<leftarrow> (if find_context fid (dc_msgs dc) = None then new_context now dc fid ?msize else Some dc);
           receive_fragment est now dc1 (case find_context fid (dc_msgs dc) of None \<Rightarrow> 0 | Some i \<Rightarrow> i) b ?lin
             (slot (dc_mtu dc) b msg) }"
  proof -
    have c: "\<not> length ?f < FragmentHeader_size" "\<not> unat (dc_mtu dc) < length ?f" "\<not> length ?f < length ?f"
      "?p \<noteq> 0" "?p * b mod ?p = 0" "?p * b div ?p = b"
      "\<not> unat ?msize < b * ?p + length ?f - FragmentHeader_size"
      using len mtu fd(4) f(4) fits by auto
    have c': "\<not> (find_context fid (dc_msgs dc) \<noteq> None \<and>
        total_size (dc_msgs dc ! the (find_context fid (dc_msgs dc))) \<noteq> ?msize)"
      using sizes by (cases "find_context fid (dc_msgs dc)") auto
    show ?thesis
      unfolding GNUNET_DEFRAGMENT_process_fragment_def Let_def f(1,3,5)
      by (simp only: c c' g4 if_False not_True_eq_False simp_thms payload)
  qed
  show ?thesis
  proof (cases "find_context fid (dc_msgs dc)")
    case None
    then have new: "fid \<notin> mc_fragment_id ` set (dc_msgs dc)" "missing_of dc fid = None"
      by (simp_all add: find_context_None missing_of_None)
    have n64: "num_fragments (dc_mtu dc) (unat ?msize) \<le> 64" using fd(5) f(4) by simp
    have mfresh: "mc_ok (dc_mtu dc) M (fresh_context now (dc_mtu dc) fid ?msize)"
      by (rule fresh_context_ok) (rule M f(4))+
    obtain dc1 kept where dc1: "new_context now dc fid ?msize = Some dc1" "dc_inv (mc_ok (dc_mtu dc) M) dc1"
        "dc_msgs dc1 = fresh_context now (dc_mtu dc) fid ?msize # kept" "set kept \<subseteq> set (dc_msgs dc)"
        "list_size dc < num_msgs dc \<longrightarrow> kept = dc_msgs dc" "dc_mtu dc1 = dc_mtu dc" "num_msgs dc1 = num_msgs dc"
      using new_context_spec [OF ok [unfolded dc_ok_def] n64 mfresh new(1)] by blast
    have ok1: "dc_ok M dc1" using dc1(2,6) by (simp add: dc_ok_def)
    have fresh: "mc_fragment_id (dc_msgs dc1 ! 0) = fid" "bitset (mc_bits (dc_msgs dc1 ! 0)) = missing"
      using dc1(3) fd(5) f(4) new(2) by (simp_all add: fresh_context_def missing_def bitset_low_bits)
    have b1: "b < num_fragments (dc_mtu dc1) (length msg)" "0 < length (dc_msgs dc1)" using b dc1(3,6) by simp_all
    obtain dc' where dc': "receive_fragment est now dc1 0 b ?lin (slot (dc_mtu dc) b msg) =
        Some (dc', if b \<in> missing then GNUNET_YES else GNUNET_NO, if missing = {b} then [msg] else [])"
        "dc_ok M dc'" "dc_mtu dc' = dc_mtu dc" "num_msgs dc' = num_msgs dc"
        "\<forall>g. missing_of dc' g = (if g = fid then Some (missing - {b}) else missing_of dc1 g)"
      using receive_fragment_spec [OF ok1 b1(2) fresh(1) M(1) b1(1), of est now ?lin]
      unfolding fresh(2) dc1(6,7) by blast
    have other: "missing_of dc1 g = missing_of dc g \<or> missing_of dc1 g = None \<and> list_size dc = num_msgs dc"
      if "g \<noteq> fid" for g
      using new_context_others [OF ok [unfolded dc_ok_def] dc1(2,3,4,5), of g] that by (simp add: fresh_context_def)
    have "GNUNET_DEFRAGMENT_process_fragment est now dc ?f =
        Some (dc', if b \<in> missing then GNUNET_YES else GNUNET_NO, if missing = {b} then [msg] else [])"
      unfolding body using None dc1(1) dc'(1) by simp
    then show ?thesis using dc'(2-5) other new(2) by (intro exI [of _ dc']) simp
  next
    case (Some i)
    then have i: "i < length (dc_msgs dc)" "mc_fragment_id (dc_msgs dc ! i) = fid" using find_context_Some by auto
    have "bitset (mc_bits (dc_msgs dc ! i)) = missing" using Some by (simp add: missing_def missing_of_def)
    then obtain dc' where "receive_fragment est now dc i b ?lin (slot (dc_mtu dc) b msg) =
        Some (dc', if b \<in> missing then GNUNET_YES else GNUNET_NO, if missing = {b} then [msg] else [])"
        "dc_ok M dc'" "dc_mtu dc' = dc_mtu dc" "num_msgs dc' = num_msgs dc"
        "\<forall>g. missing_of dc' g = (if g = fid then Some (missing - {b}) else missing_of dc g)"
      using receive_fragment_spec [OF ok i M(1) b, of est now ?lin] by blast
    then show ?thesis using Some unfolding body by (intro exI [of _ dc']) simp
  qed
qed

section \<open>Arbitrary input\<close>

text \<open>What holds whatever fragments arrive.\<close>

definition mc_safe :: "u16 \<Rightarrow> MessageContext \<Rightarrow> bool" where
  "mc_safe mtu mc \<longleftrightarrow>
     4 \<le> unat (total_size mc) \<and> length (mc_msg mc) = unat (total_size mc) \<and>
     bitset (mc_bits mc) \<subseteq> {..<num_fragments mtu (unat (total_size mc))} \<and> length (frag_times mc) = 64 \<and>
     unat (frag_times_write_offset mc) + card (bitset (mc_bits mc)) = num_fragments mtu (unat (total_size mc)) \<and>
     frag_times_start_offset mc \<le> frag_times_write_offset mc"

definition dc_safe :: "GNUNET_DEFRAGMENT_Context \<Rightarrow> bool" where
  "dc_safe dc \<longleftrightarrow> 1036 \<le> unat (dc_mtu dc) \<and> dc_inv (mc_safe (dc_mtu dc)) dc"

lemma mc_safe_fragments:
  assumes "1036 \<le> unat mtu" "mc_safe mtu mc"
  shows "num_fragments mtu (unat (total_size mc)) \<le> 64"
  by (rule num_fragments_le_64) (use assms unat_u16_lt in \<open>auto simp: mc_safe_def\<close>)

lemma store_fragment_safe:
  assumes mtu: "1036 \<le> unat mtu" and safe: "mc_safe mtu mc" and b: "b \<in> bitset (mc_bits mc)"
    and fits: "b * payload_size mtu + length pl \<le> unat (total_size mc)"
  shows "\<exists>mc'. store_fragment now mtu b pl mc = Some mc' \<and> mc_safe mtu mc' \<and> mc_fragment_id mc' = mc_fragment_id mc"
proof -
  let ?n = "num_fragments mtu (unat (total_size mc))" and ?p = "payload_size mtu" and ?w = "frag_times_write_offset mc"
  have m: "4 \<le> unat (total_size mc)" "length (mc_msg mc) = unat (total_size mc)" "bitset (mc_bits mc) \<subseteq> {..<?n}"
    "length (frag_times mc) = 64" "unat ?w + card (bitset (mc_bits mc)) = ?n" "frag_times_start_offset mc \<le> ?w"
    using safe by (auto simp: mc_safe_def)
  have "0 < card (bitset (mc_bits mc))" using b by (auto simp: card_gt_0_iff)
  then have w: "unat ?w < 64" using m(5) mc_safe_fragments [OF mtu safe] by linarith
  then have w1: "unat (?w + 1) = unat ?w + 1" by (simp add: unat_word_ariths)
  have bits: "bitset (mc_bits mc - push_bit b 1) = bitset (mc_bits mc) - {b}" by (rule bitset_remove [OF b])
  have card: "card (bitset (mc_bits mc - push_bit b 1)) + 1 = card (bitset (mc_bits mc))"
    unfolding bits using card_Suc_Diff1 [OF bitset_finite b] by simp
  obtain mc' where st: "store_fragment now mtu b pl mc = Some mc'"
    and mc': "mc_bits mc' = mc_bits mc - push_bit b 1" "total_size mc' = total_size mc"
      "mc_fragment_id mc' = mc_fragment_id mc" "frag_times_write_offset mc' = ?w + 1"
      "length (frag_times mc') = 64" "length (mc_msg mc') = unat (total_size mc)"
      "frag_times_start_offset mc' = ?w \<or> frag_times_start_offset mc' = frag_times_start_offset mc"
    using fits w m(2,4) by (simp add: store_fragment_def Let_def)
  have "frag_times_start_offset mc' \<le> frag_times_write_offset mc'"
    using mc'(4,7) m(6) w1 by (auto simp: word_le_nat_alt)
  moreover have "unat (?w + 1) + card (bitset (mc_bits mc - push_bit b 1)) = ?n" using m(5) card w1 by simp
  ultimately have "mc_safe mtu mc'"
    using m(1,3) mc'(2,4,5,6) unfolding mc_safe_def mc'(1) bits by auto
  then show ?thesis using st mc'(3) by blast
qed

lemma receive_fragment_safe:
  assumes safe: "dc_safe dc" and i: "i < length (dc_msgs dc)"
    and b: "b < num_fragments (dc_mtu dc) (unat (total_size (dc_msgs dc ! i)))"
    and fits: "b * payload_size (dc_mtu dc) + length pl \<le> unat (total_size (dc_msgs dc ! i))"
  shows "\<exists>dc' r out. receive_fragment est now dc i b linear pl = Some (dc', r, out) \<and> dc_safe dc' \<and> num_msgs dc' = num_msgs dc \<and>
    (r = GNUNET_YES \<or> r = GNUNET_NO \<and> out = []) \<and> (\<forall>m \<in> set out. 4 \<le> length m)"
proof -
  let ?mc = "dc_msgs dc ! i"
  have mtu: "1036 \<le> unat (dc_mtu dc)" and inv: "dc_inv (mc_safe (dc_mtu dc)) dc" using safe by (simp_all add: dc_safe_def)
  have ms: "mc_safe (dc_mtu dc) ?mc" using inv i by (simp add: dc_inv_def)
  have b64: "\<not> 64 \<le> b" using b mc_safe_fragments [OF mtu ms] by simp
  have dup: "mc_bits ?mc AND push_bit b 1 = 0 \<longleftrightarrow> b \<notin> bitset (mc_bits ?mc)"
    unfolding and_bit_0_iff by (simp add: bitset_def)
  obtain mc1 where mc1: "(if b \<notin> bitset (mc_bits ?mc) then Some ?mc else store_fragment now (dc_mtu dc) b pl ?mc) = Some mc1"
      "mc_safe (dc_mtu dc) mc1" "mc_fragment_id mc1 = mc_fragment_id ?mc"
  proof (cases "b \<in> bitset (mc_bits ?mc)")
    case True
    then show thesis using that store_fragment_safe [OF mtu ms True fits, of now] by auto
  next
    case False
    then show thesis using that [of ?mc] ms by simp
  qed
  have "\<exists>lat. estimate_latency est mc1 = Some lat" if "1 < frag_times_write_offset mc1 - frag_times_start_offset mc1"
  proof -
    have "unat (frag_times_write_offset mc1) \<le> 64" "frag_times_start_offset mc1 \<le> frag_times_write_offset mc1"
        "length (frag_times mc1) = 64"
      using mc1(2) mc_safe_fragments [OF mtu mc1(2)] by (auto simp: mc_safe_def)
    moreover from this have "unat (frag_times_write_offset mc1 - frag_times_start_offset mc1) =
        unat (frag_times_write_offset mc1) - unat (frag_times_start_offset mc1)" by (intro unat_sub)
    ultimately show ?thesis using that by (simp add: estimate_latency_def Let_def word_le_nat_alt)
  qed
  then obtain lat where lat: "(if 1 < frag_times_write_offset mc1 - frag_times_start_offset mc1
      then estimate_latency est mc1 else Some (latency dc)) = Some lat"
    by (cases "1 < frag_times_write_offset mc1 - frag_times_start_offset mc1") auto
  define t where "t = (if linear \<or> mc_bits mc1 = 0 \<or> b \<notin> bitset (mc_bits ?mc) then GNUNET_TIME_UNIT_ZERO
    else GNUNET_TIME_relative_multiply lat
      (of_nat (length (filter (\<lambda>b. mc_bits mc1 AND push_bit b 1 \<noteq> 0) [0..<64]) + 1)))"
  define out where "out = (if \<not> b \<notin> bitset (mc_bits ?mc) \<and> mc_bits mc1 = 0 then [mc_msg mc1] else [])"
  have r: "receive_fragment est now dc i b linear pl =
      Some (dc\<lparr>dc_msgs := (dc_msgs dc)[i := mc1\<lparr>ack_task := Some t\<rparr>], latency := lat\<rparr>,
        if b \<notin> bitset (mc_bits ?mc) then GNUNET_NO else GNUNET_YES, out)"
    unfolding receive_fragment_def Let_def dup t_def out_def using b64 mc1(1) lat by simp
  let ?dc = "dc\<lparr>dc_msgs := (dc_msgs dc)[i := mc1\<lparr>ack_task := Some t\<rparr>], latency := lat\<rparr>"
  have "dc_inv (mc_safe (dc_mtu dc)) ?dc"
    by (rule update_context_ok [OF inv i]) (use mc1(2,3) in \<open>simp_all add: mc_safe_def\<close>)
  then have "dc_safe ?dc" using mtu by (simp add: dc_safe_def)
  moreover have "4 \<le> length (mc_msg mc1)" using mc1(2) by (simp add: mc_safe_def)
  ultimately show ?thesis unfolding r by (auto simp: out_def)
qed

lemma process_fragment_cases:
  assumes mtu: "1036 \<le> unat (dc_mtu dc)" and len: "message_size msg \<le> length msg"
  obtains (fail) "GNUNET_DEFRAGMENT_process_fragment est now dc msg = Some (dc, GNUNET_SYSERR, [])"
  | (pass) fid msize b lin pl where
    "4 \<le> unat (msize :: u16)" "b * payload_size (dc_mtu dc) + length pl \<le> unat msize"
    "b * payload_size (dc_mtu dc) < unat msize"
    "\<forall>i. find_context fid (dc_msgs dc) = Some i \<longrightarrow> total_size (dc_msgs dc ! i) = msize"
    "GNUNET_DEFRAGMENT_process_fragment est now dc msg =
      do { dc1 \<leftarrow> (if find_context fid (dc_msgs dc) = None then new_context now dc fid msize else Some dc);
           receive_fragment est now dc1 (case find_context fid (dc_msgs dc) of None \<Rightarrow> 0 | Some i \<Rightarrow> i) b lin pl }"
proof -
  let ?sz = "message_size msg" and ?msize = "get_be16 msg 8" and ?fid = "get_be32 msg 4"
    and ?foff = "unat (get_be16 msg 10)" and ?p = "payload_size (dc_mtu dc)"
  let ?pl = "take (?sz - FragmentHeader_size) (drop FragmentHeader_size msg)" and ?b = "?foff div ?p"
  let ?found = "find_context ?fid (dc_msgs dc)"
  have p: "?p \<noteq> 0" using mtu by (simp add: payload_size_def)
  define bad where "bad \<longleftrightarrow> ?sz < FragmentHeader_size \<or> unat (dc_mtu dc) < ?sz \<or> unat ?msize < MessageHeader_size \<or>
    unat ?msize \<le> ?foff \<or> ?foff mod ?p \<noteq> 0 \<or> unat ?msize < ?b * ?p + ?sz - FragmentHeader_size \<or>
    ?found \<noteq> None \<and> total_size (dc_msgs dc ! the ?found) \<noteq> ?msize"
  have nl: "\<not> length msg < ?sz" using len by simp
  show thesis
  proof (cases bad)
    case True
    then show thesis
      using p nl by (intro fail) (auto simp: bad_def GNUNET_DEFRAGMENT_process_fragment_def Let_def)
  next
    case False
    note nb = False [unfolded bad_def de_Morgan_disj]
    have off: "?b * ?p = ?foff" using nb by (metis div_mult_mod_eq add.right_neutral)
    have pl: "length ?pl = ?sz - FragmentHeader_size" using nb len by simp
    show thesis
    proof (rule pass)
      show "4 \<le> unat ?msize" "?b * ?p < unat ?msize" using nb off by simp_all
      show "?b * ?p + length ?pl \<le> unat ?msize" using nb pl by simp
      show "\<forall>i. ?found = Some i \<longrightarrow> total_size (dc_msgs dc ! i) = ?msize" using nb by auto
      show "GNUNET_DEFRAGMENT_process_fragment est now dc msg =
        do { dc1 \<leftarrow> (if ?found = None then new_context now dc ?fid ?msize else Some dc);
           receive_fragment est now dc1 (case ?found of None \<Rightarrow> 0 | Some i \<Rightarrow> i) ?b
             (of_nat (length (filter (\<lambda>mc. ?fid < mc_fragment_id mc) (dc_msgs dc))) + ?fid =
               of_nat ((?sz + unat (dc_mtu dc) - FragmentHeader_size - 1) div ?p)) ?pl }"
        unfolding GNUNET_DEFRAGMENT_process_fragment_def Let_def
        by (simp only: nb nl p if_False simp_thms)
    qed
  qed
qed

lemma process_fragment_safe:
  assumes safe: "dc_safe dc" and len: "message_size msg \<le> length msg"
  shows "\<exists>dc' r out. GNUNET_DEFRAGMENT_process_fragment est now dc msg = Some (dc', r, out) \<and> dc_safe dc' \<and> num_msgs dc' = num_msgs dc \<and>
    (r = GNUNET_YES \<or> r = GNUNET_NO \<and> out = [] \<or> r = GNUNET_SYSERR \<and> dc' = dc \<and> out = []) \<and>
    (\<forall>m \<in> set out. 4 \<le> length m)"
proof -
  have mtu: "1036 \<le> unat (dc_mtu dc)" and inv: "dc_inv (mc_safe (dc_mtu dc)) dc" using safe by (simp_all add: dc_safe_def)
  have p: "0 < payload_size (dc_mtu dc)" using mtu by (simp add: payload_size_def)
  from mtu len show ?thesis
  proof (cases rule: process_fragment_cases [where est = est and now = now])
    case fail
    then show ?thesis using safe by simp
  next
    case (pass fid msize b lin pl)
    have sz: "0 < unat msize" using pass(1) by simp
    have "b * payload_size (dc_mtu dc) < num_fragments (dc_mtu dc) (unat msize) * payload_size (dc_mtu dc)"
      using pass(3) num_fragments_bounds(2) [OF mtu sz] by linarith
    then have b: "b < num_fragments (dc_mtu dc) (unat msize)" using p by simp
    show ?thesis
    proof (cases "find_context fid (dc_msgs dc)")
      case None
      have n64: "num_fragments (dc_mtu dc) (unat msize) \<le> 64" by (rule num_fragments_le_64 [OF mtu sz unat_u16_lt])
      have fresh: "mc_safe (dc_mtu dc) (fresh_context now (dc_mtu dc) fid msize)"
        using pass(1) n64 by (simp add: mc_safe_def fresh_context_def bitset_low_bits)
      obtain dc1 kept where dc1: "new_context now dc fid msize = Some dc1" "dc_inv (mc_safe (dc_mtu dc)) dc1"
          "dc_msgs dc1 = fresh_context now (dc_mtu dc) fid msize # kept" "dc_mtu dc1 = dc_mtu dc"
          "num_msgs dc1 = num_msgs dc"
        using new_context_spec [OF inv n64 fresh] None by (auto simp: find_context_None)
      have "total_size (dc_msgs dc1 ! 0) = msize" using dc1(3) by (simp add: fresh_context_def)
      then show ?thesis
        using receive_fragment_safe [of dc1 0 b pl est now lin] dc1 mtu b pass(2,5) None by (auto simp: dc_safe_def)
    next
      case (Some i)
      then have "total_size (dc_msgs dc ! i) = msize" "i < length (dc_msgs dc)"
        using pass(4) find_context_Some [OF Some] by auto
      then show ?thesis
        using receive_fragment_safe [OF safe, of i b pl est now lin] b pass(2,5) Some by auto
    qed
  qed
qed

lemma create_ok:
  assumes "0 < n"
  shows "dc_ok M (GNUNET_DEFRAGMENT_context_create mtu n)"
    "1036 \<le> unat mtu \<Longrightarrow> dc_safe (GNUNET_DEFRAGMENT_context_create mtu n)"
    "missing_of (GNUNET_DEFRAGMENT_context_create mtu n) fid = None"
  using assms by (simp_all add: GNUNET_DEFRAGMENT_context_create_def dc_ok_def dc_inv_def dc_safe_def missing_of_def)

lemma destroy_loop_count: "destroy_loop mcs n = n - of_nat (length mcs)"
  by (induction mcs arbitrary: n) (simp_all add: diff_diff_eq)

lemma destroy_ok: "dc_inv P dc \<Longrightarrow> GNUNET_DEFRAGMENT_context_destroy dc = Some ()"
  by (simp add: GNUNET_DEFRAGMENT_context_destroy_def destroy_loop_count dc_inv_def)

section \<open>Receiving many fragments\<close>

fun process_fragments ::
    "(FragTimes list \<Rightarrow> GNUNET_TIME_Relative) \<Rightarrow> (nat \<Rightarrow> GNUNET_TIME_Absolute) \<Rightarrow> byte list list \<Rightarrow>
     GNUNET_DEFRAGMENT_Context \<Rightarrow> (GNUNET_DEFRAGMENT_Context \<times> byte list list) option" where
  "process_fragments est clk [] dc = Some (dc, [])"
| "process_fragments est clk (f # fs) dc =
     do {
       (dc1, r, out) \<leftarrow> GNUNET_DEFRAGMENT_process_fragment est (clk (length fs)) dc f;
       (dc2, outs) \<leftarrow> process_fragments est clk fs dc1;
       Some (dc2, out @ outs)
     }"

lemma process_fragments_safe:
  assumes "dc_safe dc" "\<forall>f \<in> set fs. message_size f \<le> length f"
  shows "\<exists>dc' outs. process_fragments est clk fs dc = Some (dc', outs) \<and> dc_safe dc' \<and>
    num_msgs dc' = num_msgs dc \<and> (\<forall>m \<in> set outs. 4 \<le> length m)"
  using assms
proof (induction fs arbitrary: dc)
  case (Cons f fs)
  then obtain dc1 r out where "GNUNET_DEFRAGMENT_process_fragment est (clk (length fs)) dc f = Some (dc1, r, out)"
      "dc_safe dc1" "num_msgs dc1 = num_msgs dc" "\<forall>m \<in> set out. 4 \<le> length m"
    using process_fragment_safe [of dc f est "clk (length fs)"] by auto
  then show ?case using Cons.IH [of dc1] Cons.prems(2) by auto
qed simp

lemma process_fragments_spec:
  assumes "dc_ok M dc" "M fid = Some msg" "fragmentable (dc_mtu dc) msg"
    and "set bs \<subseteq> {..<num_fragments (dc_mtu dc) (length msg)}"
    and "missing = (case missing_of dc fid of None \<Rightarrow> {..<num_fragments (dc_mtu dc) (length msg)} | Some s \<Rightarrow> s)"
  shows "\<exists>dc'. process_fragments est clk (map (fragment (dc_mtu dc) fid msg) bs) dc =
      Some (dc', if missing \<noteq> {} \<and> missing \<subseteq> set bs then [msg] else []) \<and> dc_ok M dc' \<and>
    (bs \<noteq> [] \<longrightarrow> missing_of dc' fid = Some (missing - set bs))"
  using assms
proof (induction bs arbitrary: dc missing)
  case (Cons b bs)
  let ?f = "fragment (dc_mtu dc) fid msg"
  have b: "b < num_fragments (dc_mtu dc) (length msg)" using Cons.prems(4) by simp
  obtain dc1 where dc1: "GNUNET_DEFRAGMENT_process_fragment est (clk (length bs)) dc (?f b) =
      Some (dc1, if b \<in> missing then GNUNET_YES else GNUNET_NO, if missing = {b} then [msg] else [])"
      "dc_ok M dc1" "dc_mtu dc1 = dc_mtu dc" "missing_of dc1 fid = Some (missing - {b})"
    using process_fragment_spec [OF Cons.prems(1-3) b, of est "clk (length bs)"] Cons.prems(5) by blast
  obtain dc' where dc': "process_fragments est clk (map ?f bs) dc1 =
      Some (dc', if missing - {b} \<noteq> {} \<and> missing - {b} \<subseteq> set bs then [msg] else [])" "dc_ok M dc'"
      "bs \<noteq> [] \<longrightarrow> missing_of dc' fid = Some (missing - {b} - set bs)"
    using Cons.IH [OF dc1(2) Cons.prems(2), of "missing - {b}"] Cons.prems(3,4) dc1(3,4) by auto
  have out: "(if missing = {b} then [msg] else []) @ (if missing - {b} \<noteq> {} \<and> missing - {b} \<subseteq> set bs then [msg] else []) =
      (if missing \<noteq> {} \<and> missing \<subseteq> set (b # bs) then [msg] else [])"
    by auto
  have "process_fragments est clk (map ?f (b # bs)) dc =
      Some (dc', if missing \<noteq> {} \<and> missing \<subseteq> set (b # bs) then [msg] else [])"
    unfolding out [symmetric] using dc1(1) dc'(1) by simp
  moreover have "missing_of dc' fid = Some (missing - set (b # bs))"
  proof (cases "bs = []")
    case True
    then show ?thesis using dc1(4) dc'(1) by simp
  next
    case False
    moreover have "missing - {b} - set bs = missing - set (b # bs)" by auto
    ultimately show ?thesis using dc'(3) by simp
  qed
  ultimately show ?case using dc'(2) by blast
qed simp

section \<open>Properties\<close>

lemma fragment_inj:
  assumes "fragmentable mtu msg"
  shows "inj_on (fragment mtu fid msg) {..<num_fragments mtu (length msg)}"
proof (rule inj_onI)
  fix a b assume "a \<in> {..<num_fragments mtu (length msg)}" "b \<in> {..<num_fragments mtu (length msg)}"
    "fragment mtu fid msg a = fragment mtu fid msg b"
  then have "payload_size mtu * a = payload_size mtu * b"
    using fragment_fields(5) [OF assms] by (metis lessThan_iff)
  then show "a = b" using fragmentableD(4) [OF assms] by simp
qed

lemma reassemble_any_order:
  assumes "fragmentable mtu msg" "0 < n" "set gs = fragment mtu fid msg ` {..<num_fragments mtu (length msg)}"
  shows "\<exists>dc. process_fragments est clk gs (GNUNET_DEFRAGMENT_context_create mtu n) = Some (dc, [msg])"
proof -
  let ?F = "fragment mtu fid msg" and ?N = "{..<num_fragments mtu (length msg)}" and ?dc = "GNUNET_DEFRAGMENT_context_create mtu n"
  let ?bs = "map (inv_into ?N ?F) gs"
  have map: "map ?F ?bs = gs" unfolding map_map by (rule map_idI) (use assms(3) in \<open>simp add: f_inv_into_f\<close>)
  have set: "set ?bs = ?N"
    using fragment_inj [OF assms(1), of fid] by (simp add: assms(3) image_image)
  have ne: "?N \<noteq> {}" using num_fragments_bounds(3) fragmentableD(1,2) [OF assms(1)] by blast
  have mtu: "dc_mtu ?dc = mtu" by (simp add: GNUNET_DEFRAGMENT_context_create_def)
  have miss: "?N = (case missing_of ?dc fid of None \<Rightarrow> {..<num_fragments (dc_mtu ?dc) (length msg)} | Some s \<Rightarrow> s)"
    by (simp add: create_ok(3) [OF assms(2)] mtu)
  obtain dc where "process_fragments est clk (map (fragment (dc_mtu ?dc) fid msg) ?bs) ?dc =
      Some (dc, if ?N \<noteq> {} \<and> ?N \<subseteq> set ?bs then [msg] else [])"
    using process_fragments_spec [OF create_ok(1) [OF assms(2)], of "[fid \<mapsto> msg]" fid msg mtu ?bs ?N est clk]
      assms(1) set miss mtu by auto
  then show ?thesis using map set ne mtu by auto
qed

text \<open>
  C18: Fragmenting and reassembling a message loses nothing.  The sender context for a message accepts it, and as many
  transmissions as there are fragments send each fragment once; the receiver delivers exactly the original message,
  once, when these fragments arrive in any order and with any repetitions, at whatever times.
\<close>

theorem fragmentation_round_trip:
  assumes "1036 \<le> unat mtu" "4 \<le> message_size msg" "message_size msg \<le> length msg" "0 < n" "clocks_ok clk"
  shows "\<exists>fc fc' fs. GNUNET_FRAGMENT_context_create r mtu md ad msg = Some fc \<and>
    send_fragments undef clk (num_fragments mtu (message_size msg)) fc = Some (fc', fs) \<and> distinct fs \<and>
    (\<forall>gs est clk'. set gs = set fs \<longrightarrow>
      (\<exists>dc. process_fragments est clk' gs (GNUNET_DEFRAGMENT_context_create mtu n) =
         Some (dc, [take (message_size msg) msg])))"
proof -
  let ?m = "take (message_size msg) msg" and ?N = "{..<num_fragments mtu (message_size msg)}"
  obtain fc where fc: "GNUNET_FRAGMENT_context_create r mtu md ad msg = Some fc" "fc_live fc" "fc_msg fc = ?m"
      "fc_mtu fc = mtu" "fc_fragment_id fc = r" "acks fc = low_bits (num_fragments mtu (message_size msg))"
    using create_live [OF assms(1-3)] by blast
  have len: "length ?m = message_size msg" using assms(3) by simp
  have frag: "fragmentable mtu ?m" using fc(2-4) by (simp add: fc_live_def fc_ok_def)
  have n64: "num_fragments mtu (message_size msg) \<le> 64" using fragmentableD(5) [OF frag] len by simp
  have bits: "{b. bit (acks fc) b} = ?N" unfolding fc(6) using n64 by (auto simp: bit_low_bits)
  have idle: "proc_busy fc = GNUNET_NO" using fc(1) by (auto simp: GNUNET_FRAGMENT_context_create_def Let_def split: if_splits)
  obtain fc' bs where fs: "send_fragments undef clk (num_fragments mtu (message_size msg)) fc =
      Some (fc', map (fragment mtu r ?m) bs)" "distinct bs" "set bs = ?N"
    using send_round [OF fc(2) idle assms(5) refl, of undef] unfolding bits fc(3-5) by auto
  have "distinct (map (fragment mtu r ?m) bs)"
    using fs(2,3) fragment_inj [OF frag, of r] len by (simp add: distinct_map)
  moreover have "\<exists>dc. process_fragments est clk' gs (GNUNET_DEFRAGMENT_context_create mtu n) = Some (dc, [?m])"
    if "set gs = set (map (fragment mtu r ?m) bs)" for gs est clk'
    by (rule reassemble_any_order [OF frag assms(4), of gs r]) (use that fs(3) len in simp)
  ultimately show ?thesis using fc(1) fs(1) by blast
qed

definition example_message :: "byte list" where
  "example_message = 4 # 6 # replicate 1028 7"

lemma example_message_size: "message_size example_message = 1030" "length example_message = 1030"
  by (simp_all add: example_message_def message_size_def get_be16_def)

theorem fragmentation_round_trip_witness:
  "\<exists>fc fc' f g. GNUNET_FRAGMENT_context_create 5 1036 \<lparr>rel_value = 1\<rparr> \<lparr>rel_value = 1\<rparr> example_message = Some fc \<and>
     send_fragments (\<lambda>_. 0) (\<lambda>_. \<lparr>abs_value = 9\<rparr>) 2 fc = Some (fc', [f, g]) \<and>
     (\<exists>dc. process_fragments (\<lambda>_. \<lparr>rel_value = 3\<rparr>) (\<lambda>_. \<lparr>abs_value = 10\<rparr>) [g, g, f]
        (GNUNET_DEFRAGMENT_context_create 1036 1) = Some (dc, [example_message]))"
proof -
  have n: "num_fragments 1036 1030 = 2" by (simp add: num_fragments_def payload_size_def)
  have "clocks_ok (\<lambda>_. \<lparr>abs_value = 9\<rparr>)" by (simp add: clocks_ok_def UINT64_MAX_def)
  then obtain fc fc' fs where s: "GNUNET_FRAGMENT_context_create 5 1036 \<lparr>rel_value = 1\<rparr> \<lparr>rel_value = 1\<rparr> example_message = Some fc"
      "send_fragments (\<lambda>_. 0) (\<lambda>_. \<lparr>abs_value = 9\<rparr>) 2 fc = Some (fc', fs)" "distinct fs"
      "\<forall>gs est clk'. set gs = set fs \<longrightarrow>
        (\<exists>dc. process_fragments est clk' gs (GNUNET_DEFRAGMENT_context_create 1036 1) = Some (dc, [example_message]))"
    using fragmentation_round_trip [of 1036 example_message 1 "\<lambda>_. \<lparr>abs_value = 9\<rparr>" 5 "\<lparr>rel_value = 1\<rparr>" "\<lparr>rel_value = 1\<rparr>" "\<lambda>_. 0"]
    by (auto simp: example_message_size n)
  have "length fs = 2" using s(2) by (auto simp: numeral_2_eq_2 bind_eq_Some_conv split: option.splits prod.splits)
  then obtain f g where "fs = [f, g]" by (auto simp: numeral_2_eq_2 length_Suc_conv)
  moreover from this have "set [g, g, f] = set fs" by auto
  ultimately show ?thesis using s by blast
qed

text \<open>
  C19: The receiver is robust.  Whatever fragments arrive, well-formed or not, it never accesses memory outside a
  buffer or array, never fails an assertion, keeps at most the configured number of message contexts, hands on only
  messages long enough for a header, and can be destroyed.
\<close>

theorem defragmentation_robust:
  assumes "1036 \<le> unat mtu" "0 < n" "\<forall>f \<in> set fs. message_size f \<le> length f"
  shows "\<exists>dc outs. process_fragments est clk fs (GNUNET_DEFRAGMENT_context_create mtu n) = Some (dc, outs) \<and>
    length (dc_msgs dc) \<le> unat n \<and> (\<forall>m \<in> set outs. 4 \<le> length m) \<and> GNUNET_DEFRAGMENT_context_destroy dc = Some ()"
proof -
  have safe: "dc_safe (GNUNET_DEFRAGMENT_context_create mtu n)" by (rule create_ok(2) [OF assms(2,1)])
  obtain dc outs where dc: "process_fragments est clk fs (GNUNET_DEFRAGMENT_context_create mtu n) = Some (dc, outs)"
      "dc_safe dc" "num_msgs dc = n" "\<forall>m \<in> set outs. 4 \<le> length m"
    using process_fragments_safe [OF safe assms(3), of est clk]
    by (auto simp: GNUNET_DEFRAGMENT_context_create_def)
  have inv: "dc_inv (mc_safe (dc_mtu dc)) dc" using dc(2) by (simp add: dc_safe_def)
  then have "length (dc_msgs dc) \<le> unat n" using dc(3) by (auto simp: dc_inv_def word_le_nat_alt)
  then show ?thesis using dc(1,4) destroy_ok [OF inv] by blast
qed

theorem defragmentation_robust_witness:
  "\<exists>dc outs. process_fragments (\<lambda>_. \<lparr>rel_value = 3\<rparr>) (\<lambda>_. \<lparr>abs_value = 10\<rparr>)
       [[0, 2], [0, 14, 0, 18, 1, 2, 3, 4, 0, 9, 0, 7, 5, 5]] (GNUNET_DEFRAGMENT_context_create 2000 3) = Some (dc, outs) \<and>
     length (dc_msgs dc) \<le> 3"
  using defragmentation_robust [of 2000 3 "[[0, 2], [0, 14, 0, 18, 1, 2, 3, 4, 0, 9, 0, 7, 5, 5]]"
      "\<lambda>_. \<lparr>rel_value = 3\<rparr>" "\<lambda>_. \<lparr>abs_value = 10\<rparr>"]
  by (auto simp: message_size_def get_be16_def)

text \<open>
  C20: The receiver does not check that a fragment carries all bytes of its piece of the message.  A fragment that is
  only a header is accepted, and a message of one fragment is then delivered with bytes that nobody sent.
\<close>

theorem defragmentation_accepts_truncated:
  assumes "1036 \<le> unat mtu" "0 < n" "4 \<le> unat msize" "unat msize \<le> payload_size mtu"
  shows "\<exists>dc. GNUNET_DEFRAGMENT_process_fragment est now (GNUNET_DEFRAGMENT_context_create mtu n)
      (be16 12 @ be16 18 @ be32 fid @ be16 msize @ be16 0) = Some (dc, GNUNET_YES, [replicate (unat msize) 0])"
proof -
  let ?f = "be16 12 @ be16 18 @ be32 fid @ be16 msize @ be16 0" and ?dc = "GNUNET_DEFRAGMENT_context_create mtu n"
  let ?p = "payload_size mtu" and ?mc = "fresh_context now mtu fid msize"
  have p: "0 < ?p" using assms(1) by (simp add: payload_size_def)
  have f: "message_size ?f = 12" "length ?f = 12" "get_be32 ?f 4 = fid" "get_be16 ?f 8 = msize" "get_be16 ?f 10 = 0"
      "drop 12 ?f = []"
    using get_be_append(2) [of "be16 12 @ be16 18" "be32 fid @ be16 msize @ be16 0" 0]
      get_be_append(1) [of "be16 12 @ be16 18 @ be32 fid" "be16 msize @ be16 0" 0]
      get_be_append(1) [of "be16 12 @ be16 18 @ be32 fid @ be16 msize" "be16 0" 0] get_be16_be16 [of 0 "[]"]
    by (simp_all add: message_size_def)
  have sz: "0 < unat msize" using assms(3) by simp
  have "(num_fragments mtu (unat msize) - 1) * ?p < 1 * ?p"
    using num_fragments_bounds(1) [OF assms(1) sz] assms(4) by linarith
  then have "num_fragments mtu (unat msize) = 1"
    using num_fragments_bounds(3) [OF assms(1) sz] p by (simp only: mult_less_cancel2) linarith
  then have bits: "mc_bits ?mc = 1" "mc_msg ?mc = replicate (unat msize) 0" "frag_times_write_offset ?mc = 0"
      "frag_times_start_offset ?mc = 0" "length (frag_times ?mc) = 64" "last_bit ?mc = 0"
    by (simp_all add: fresh_context_def low_bits_def)
  have new: "new_context now ?dc fid msize = Some (?dc\<lparr>dc_msgs := [?mc], list_size := 1\<rparr>)"
    using assms(2) [THEN word_gt_0 [THEN iffD1]] \<open>num_fragments mtu (unat msize) = 1\<close>
    by (simp add: new_context_def GNUNET_DEFRAGMENT_context_create_def fresh_context_def)
  have body: "GNUNET_DEFRAGMENT_process_fragment est now ?dc ?f =
      receive_fragment est now (?dc\<lparr>dc_msgs := [?mc], list_size := 1\<rparr>) 0 0
        (of_nat 0 + fid = of_nat ((12 + unat mtu - FragmentHeader_size - 1) div ?p)) []"
  proof -
    have c: "\<not> (12 :: nat) < FragmentHeader_size" "\<not> unat mtu < 12" "\<not> (12 :: nat) < 12" "\<not> unat msize < MessageHeader_size"
        "\<not> unat msize \<le> unat (0 :: u16)" "?p \<noteq> 0" "\<not> unat (0 :: u16) mod ?p \<noteq> 0"
        "\<not> unat msize < 0 * ?p + 12 - FragmentHeader_size" "unat (0 :: u16) div ?p = 0"
        "take (12 - FragmentHeader_size) (drop FragmentHeader_size ?f) = []"
      using assms p sz f(6) by simp_all
    have d: "dc_mtu ?dc = mtu" "dc_msgs ?dc = []" by (simp_all add: GNUNET_DEFRAGMENT_context_create_def)
    show ?thesis
      unfolding GNUNET_DEFRAGMENT_process_fragment_def Let_def f(1-5) d
      by (simp only: c if_False find_context.simps simp_thms if_True new bind.bind_lunit option.case filter.simps list.size)
  qed
  show ?thesis
    unfolding body receive_fragment_def store_fragment_def Let_def
    by (simp add: bits GNUNET_DEFRAGMENT_context_create_def)
qed

theorem defragmentation_accepts_truncated_witness:
  "\<exists>dc. GNUNET_DEFRAGMENT_process_fragment (\<lambda>_. \<lparr>rel_value = 3\<rparr>) \<lparr>abs_value = 10\<rparr>
      (GNUNET_DEFRAGMENT_context_create 1036 1) [0, 12, 0, 18, 0, 0, 0, 9, 0, 4, 0, 0] =
    Some (dc, GNUNET_YES, [[0, 0, 0, 0]])"
proof -
  have "be16 12 @ be16 18 @ be32 9 @ be16 4 @ be16 0 = [0, 12, 0, 18, 0, 0, 0, 9, 0, 4, 0, 0]"
    by (simp add: be16_def be32_def)
  moreover have "unat (4 :: u16) = 4" by simp
  moreover have "replicate 4 (0 :: byte) = [0, 0, 0, 0]" by (simp add: numeral_eq_Suc)
  ultimately show ?thesis
    using defragmentation_accepts_truncated [of 1036 1 4 "\<lambda>_. \<lparr>rel_value = 3\<rparr>" "\<lparr>abs_value = 10\<rparr>" 9]
    by (simp add: payload_size_def)
qed

end
