(* ===== verification/Fragment_Protocol.thy ===== *)
theory Fragment_Protocol
  imports Defragmentation
begin

text \<open>
  Sender and receiver of one fragmented message, connected by a network that may lose, repeat and reorder both
  fragments and acknowledgements.  The wires hold what was ever sent, and anything on them may arrive at any time, any
  number of times or never.  The owner of the sender context stops using it once an acknowledgement completes it.
\<close>

record connection =
  sender :: GNUNET_FRAGMENT_Context
  receiver :: GNUNET_DEFRAGMENT_Context
  fragment_wire :: "byte list set"
  ack_wire :: "byte list set"
  delivered :: "byte list list"
  completed :: bool

inductive connection_step ::
    "(nat \<Rightarrow> u32) \<Rightarrow> (FragTimes list \<Rightarrow> GNUNET_TIME_Relative) \<Rightarrow> connection \<Rightarrow> connection \<Rightarrow> bool"
  for undef est where
  run_task:
    "connection_step undef est c
       (c\<lparr>sender := fc, fragment_wire := fragment_wire c \<union> set_option out\<rparr>)"
    if "\<not> completed c" "fc_task (sender c) \<noteq> None" "\<forall>i. clk i \<noteq> \<lparr>abs_value = UINT64_MAX\<rparr>"
      "transmit_next undef clk tracker (sender c) = Some (tracker', fc, out)"
| sent:
    "connection_step undef est c (c\<lparr>sender := fc\<rparr>)"
    if "\<not> completed c" "proc_busy (sender c) = GNUNET_YES"
      "GNUNET_FRAGMENT_context_transmission_done now (sender c) = Some fc"
| fragment_arrives:
    "connection_step undef est c (c\<lparr>receiver := dc, delivered := delivered c @ out\<rparr>)"
    if "f \<in> fragment_wire c" "GNUNET_DEFRAGMENT_process_fragment est now (receiver c) f = Some (dc, r, out)"
| run_ack_task:
    "connection_step undef est c (c\<lparr>receiver := dc, ack_wire := insert a (ack_wire c)\<rparr>)"
    if "i < length (dc_msgs (receiver c))" "ack_task (dc_msgs (receiver c) ! i) \<noteq> None"
      "send_ack i (receiver c) = Some (dc, a)"
| ack_arrives:
    "connection_step undef est c (c\<lparr>sender := fc, completed := (r = GNUNET_OK)\<rparr>)"
    if "\<not> completed c" "a \<in> ack_wire c" "GNUNET_FRAGMENT_process_ack undef now (sender c) a = Some (fc, r)"

inductive connection_reach ::
    "(nat \<Rightarrow> u32) \<Rightarrow> (FragTimes list \<Rightarrow> GNUNET_TIME_Relative) \<Rightarrow> connection \<Rightarrow> connection \<Rightarrow> bool"
  for undef est c where
  reach_start: "connection_reach undef est c c"
| reach_step: "connection_reach undef est c c' \<Longrightarrow> connection_step undef est c' c'' \<Longrightarrow> connection_reach undef est c c''"

definition connect :: "u16 \<Rightarrow> u32 \<Rightarrow> GNUNET_FRAGMENT_Context \<Rightarrow> connection" where
  "connect mtu n fc =
     \<lparr>sender = fc, receiver = GNUNET_DEFRAGMENT_context_create mtu n, fragment_wire = {}, ack_wire = {},
      delivered = [], completed = False\<rparr>"

definition unreceived :: "connection \<Rightarrow> nat set" where
  "unreceived c =
     (case missing_of (receiver c) (fc_fragment_id (sender c)) of
        None \<Rightarrow> {..<num_fragments (fc_mtu (sender c)) (length (fc_msg (sender c)))}
      | Some s \<Rightarrow> s)"

definition connection_ok :: "connection \<Rightarrow> bool" where
  "connection_ok c \<longleftrightarrow>
     (let fc = sender c; msg = fc_msg fc; fid = fc_fragment_id fc; mtu = fc_mtu fc in
      fc_ok fc \<and> (\<not> completed c \<longrightarrow> fc_live fc) \<and>
      dc_ok [fid \<mapsto> msg] (receiver c) \<and> dc_mtu (receiver c) = mtu \<and>
      fragment_wire c \<subseteq> fragment mtu fid msg ` {..<num_fragments mtu (length msg)} \<and>
      (\<forall>a \<in> ack_wire c. \<exists>w. a = ack_for fid w \<and> unreceived c \<subseteq> bitset w) \<and>
      unreceived c \<subseteq> bitset (acks fc) \<and> unreceived c \<subseteq> {..<num_fragments mtu (length msg)} \<and>
      delivered c = (if unreceived c = {} then [msg] else []) \<and>
      (completed c \<longrightarrow> unreceived c = {}))"

lemma connection_okD:
  assumes "connection_ok c"
  defines "fc \<equiv> sender c"
  shows "fc_ok fc" "\<not> completed c \<Longrightarrow> fc_live fc" "dc_ok [fc_fragment_id fc \<mapsto> fc_msg fc] (receiver c)"
    "dc_mtu (receiver c) = fc_mtu fc"
    "fragment_wire c \<subseteq> fragment (fc_mtu fc) (fc_fragment_id fc) (fc_msg fc) ` {..<num_fragments (fc_mtu fc) (length (fc_msg fc))}"
    "\<forall>a \<in> ack_wire c. \<exists>w. a = ack_for (fc_fragment_id fc) w \<and> unreceived c \<subseteq> bitset w"
    "unreceived c \<subseteq> bitset (acks fc)" "unreceived c \<subseteq> {..<num_fragments (fc_mtu fc) (length (fc_msg fc))}"
    "delivered c = (if unreceived c = {} then [fc_msg fc] else [])" "completed c \<Longrightarrow> unreceived c = {}"
  using assms unfolding connection_ok_def Let_def by auto

lemma connect_ok:
  assumes "fc_live fc" "fc_mtu fc = mtu" "0 < n" "acks fc = acks_mask fc"
  shows "connection_ok (connect mtu n fc)"
proof -
  let ?N = "num_fragments mtu (length (fc_msg fc))"
  have ok: "fc_ok fc" "fragmentable mtu (fc_msg fc)" using assms by (simp_all add: fc_live_def fc_ok_def)
  have "acks fc = low_bits ?N" using ok(1) assms(2,4) by (simp add: fc_ok_def)
  then have bits: "bitset (acks fc) = {..<?N}" using bitset_low_bits fragmentableD(5) [OF ok(2)] by simp
  have un: "unreceived (connect mtu n fc) = {..<?N}"
    using assms(2) by (simp add: unreceived_def connect_def create_ok(3) [OF assms(3)])
  have "0 < ?N" using num_fragments_bounds(3) fragmentableD(1,2) [OF ok(2)] by blast
  then show ?thesis
    using assms ok(1) bits un create_ok(1) [OF assms(3)]
    by (auto simp: connection_ok_def Let_def connect_def GNUNET_DEFRAGMENT_context_create_def lessThan_empty_iff)
qed

text \<open>Steps of the sender leave the receiver's view unchanged.\<close>

lemma sender_step_ok:
  assumes ok: "connection_ok c" and fc: "fc_ok fc" "same_job (sender c) fc" "\<not> fin \<Longrightarrow> fc_live fc"
    and bits: "unreceived c \<subseteq> bitset (acks fc)" "fin \<Longrightarrow> unreceived c = {}"
    and wire: "wire \<subseteq> fragment (fc_mtu fc) (fc_fragment_id fc) (fc_msg fc) ` {..<num_fragments (fc_mtu fc) (length (fc_msg fc))}"
  shows "connection_ok (c\<lparr>sender := fc, fragment_wire := fragment_wire c \<union> wire, completed := fin\<rparr>)"
proof -
  let ?c = "c\<lparr>sender := fc, fragment_wire := fragment_wire c \<union> wire, completed := fin\<rparr>"
  have un: "unreceived ?c = unreceived c" using fc(2) by (simp add: unreceived_def same_job_def split: option.split)
  have job: "fc_msg fc = fc_msg (sender c)" "fc_mtu fc = fc_mtu (sender c)" "fc_fragment_id fc = fc_fragment_id (sender c)"
    using fc(2) by (simp_all add: same_job_def)
  note d = connection_okD [OF ok]
  show ?thesis
    unfolding connection_ok_def Let_def un
    using fc(1,3) bits d(3-9) wire by (simp add: job)
qed

lemma run_task_ok:
  assumes ok: "connection_ok c" "\<not> completed c" "fc_task (sender c) \<noteq> None"
    and clk: "\<forall>i. clk i \<noteq> \<lparr>abs_value = UINT64_MAX\<rparr>"
  shows "\<exists>tracker' fc out. transmit_next undef clk tracker (sender c) = Some (tracker', fc, out) \<and>
    connection_ok (c\<lparr>sender := fc, fragment_wire := fragment_wire c \<union> set_option out\<rparr>) \<and> same_job (sender c) fc"
proof -
  let ?fc = "sender c"
  have live: "fc_live ?fc" by (rule connection_okD(2) [OF ok(1,2)])
  then have idle: "proc_busy ?fc = GNUNET_NO" using ok(3) by (auto simp: fc_live_def fc_ok_def)
  obtain tr fc out where t: "transmit_next undef clk tracker ?fc = Some (tr, fc, out)" "fc_live fc" "same_job ?fc fc"
      "acks fc = acks ?fc"
    and out: "\<And>f. out = Some f \<Longrightarrow>
      \<exists>b. f = fragment (fc_mtu ?fc) (fc_fragment_id ?fc) (fc_msg ?fc) b \<and> bit (acks ?fc) b"
  proof -
    have "clk 3 \<noteq> \<lparr>abs_value = UINT64_MAX\<rparr>" using clk by blast
    from transmit_next_spec [OF live idle, of clk undef tracker, OF this] that show thesis
      by (elim exE conjE) (force split: option.splits)
  qed
  have "set_option out \<subseteq> fragment (fc_mtu fc) (fc_fragment_id fc) (fc_msg fc) ` {..<num_fragments (fc_mtu fc) (length (fc_msg fc))}"
    using t(3) out acks_bit [OF connection_okD(1) [OF ok(1)]] by (cases out) (fastforce simp: same_job_def)+
  then have "connection_ok (c\<lparr>sender := fc, fragment_wire := fragment_wire c \<union> set_option out, completed := completed c\<rparr>)"
    by (intro sender_step_ok [OF ok(1)]) (use t(2-4) connection_okD(7) [OF ok(1)] ok(2) in \<open>auto simp: fc_live_def\<close>)
  then show ?thesis using t(1,3) by auto
qed

lemma sent_ok:
  assumes ok: "connection_ok c" "\<not> completed c" "proc_busy (sender c) = GNUNET_YES"
  shows "\<exists>fc. GNUNET_FRAGMENT_context_transmission_done now (sender c) = Some fc \<and> connection_ok (c\<lparr>sender := fc\<rparr>) \<and>
    same_job (sender c) fc"
proof -
  obtain fc where fc: "GNUNET_FRAGMENT_context_transmission_done now (sender c) = Some fc" "fc_live fc"
      "same_job (sender c) fc" "acks fc = acks (sender c)"
    using transmission_done_spec [OF connection_okD(2) [OF ok(1,2)] ok(3)] by blast
  have "connection_ok (c\<lparr>sender := fc, fragment_wire := fragment_wire c \<union> {}, completed := completed c\<rparr>)"
    by (intro sender_step_ok [OF ok(1)]) (use fc(2-4) connection_okD(7) [OF ok(1)] ok(2) in \<open>auto simp: fc_live_def\<close>)
  then show ?thesis using fc(1,3) by auto
qed

lemma ack_arrives_ok:
  assumes ok: "connection_ok c" "\<not> completed c" and a: "a \<in> ack_wire c"
  shows "\<exists>fc r. GNUNET_FRAGMENT_process_ack undef now (sender c) a = Some (fc, r) \<and>
    connection_ok (c\<lparr>sender := fc, completed := (r = GNUNET_OK)\<rparr>) \<and> same_job (sender c) fc"
proof -
  let ?fc = "sender c"
  note d = connection_okD [OF ok(1)]
  have live: "fc_live ?fc" by (rule d(2) [OF ok(2)])
  obtain w where w: "a = ack_for (fc_fragment_id ?fc) w" "unreceived c \<subseteq> bitset w" using d(6) a by blast
  obtain fc r where fc: "GNUNET_FRAGMENT_process_ack undef now ?fc a = Some (fc, r)" "same_job ?fc fc"
      "acks fc = w AND acks_mask ?fc" "fc_ok fc" "if acks fc = 0 then r = GNUNET_OK else r = GNUNET_NO \<and> fc_live fc"
    using process_ack_spec [OF live, of undef now w] unfolding w(1) by blast
  have frag: "fragmentable (fc_mtu ?fc) (fc_msg ?fc)"
      "acks_mask ?fc = low_bits (num_fragments (fc_mtu ?fc) (length (fc_msg ?fc)))"
    using d(1) by (simp_all add: fc_ok_def)
  have "bitset (acks fc) = bitset w \<inter> bitset (acks_mask ?fc)" by (auto simp: fc(3) bitset_def bit_and_iff)
  also have "bitset (acks_mask ?fc) = {..<num_fragments (fc_mtu ?fc) (length (fc_msg ?fc))}"
    unfolding frag(2) by (rule bitset_low_bits [OF fragmentableD(5) [OF frag(1)]])
  finally have sub: "unreceived c \<subseteq> bitset (acks fc)" using w(2) d(8) by blast
  have fin: "r = GNUNET_OK \<longleftrightarrow> acks fc = 0" using fc(5) by (auto split: if_splits)
  have "connection_ok (c\<lparr>sender := fc, fragment_wire := fragment_wire c \<union> {}, completed := (r = GNUNET_OK)\<rparr>)"
    by (rule sender_step_ok [OF ok(1) fc(4,2)]) (use fc(5) fin sub bitset_empty_iff in \<open>auto split: if_splits\<close>)
  then show ?thesis using fc(1,2) by auto
qed

lemma fragment_arrives_ok:
  assumes ok: "connection_ok c" and f: "f \<in> fragment_wire c"
  shows "\<exists>dc r out. GNUNET_DEFRAGMENT_process_fragment est now (receiver c) f = Some (dc, r, out) \<and>
    connection_ok (c\<lparr>receiver := dc, delivered := delivered c @ out\<rparr>)"
proof -
  note d = connection_okD [OF ok]
  let ?fc = "sender c" and ?dc = "receiver c"
  let ?msg = "fc_msg ?fc" and ?fid = "fc_fragment_id ?fc" and ?mtu = "fc_mtu ?fc"
  let ?U = "unreceived c"
  obtain b where b: "f = fragment ?mtu ?fid ?msg b" "b < num_fragments ?mtu (length ?msg)" using d(5) f by auto
  have frag: "fragmentable (dc_mtu ?dc) ?msg" using d(1,4) by (simp add: fc_ok_def)
  have U: "(case missing_of ?dc ?fid of None \<Rightarrow> {..<num_fragments (dc_mtu ?dc) (length ?msg)} | Some s \<Rightarrow> s) = ?U"
    by (simp add: unreceived_def d(4) split: option.split)
  obtain dc where dc: "GNUNET_DEFRAGMENT_process_fragment est now ?dc f =
      Some (dc, if b \<in> ?U then GNUNET_YES else GNUNET_NO, if ?U = {b} then [?msg] else [])"
      "dc_ok [?fid \<mapsto> ?msg] dc" "dc_mtu dc = ?mtu" "missing_of dc ?fid = Some (?U - {b})"
    using process_fragment_spec [OF d(3) _ frag, of ?fid b est now] b U by (auto simp: d(4))
  let ?c = "c\<lparr>receiver := dc, delivered := delivered c @ (if ?U = {b} then [?msg] else [])\<rparr>"
  have un: "unreceived ?c = ?U - {b}" by (simp add: unreceived_def dc(4))
  have empty: "?U - {b} = {} \<longleftrightarrow> ?U = {} \<or> ?U = {b}" by auto
  have acks: "\<forall>a \<in> ack_wire c. \<exists>w. a = ack_for ?fid w \<and> ?U - {b} \<subseteq> bitset w" using d(6) by blast
  have sub: "?U - {b} \<subseteq> bitset (acks ?fc)" "?U - {b} \<subseteq> {..<num_fragments ?mtu (length ?msg)}"
    using d(7,8) by blast+
  have "delivered c @ (if ?U = {b} then [?msg] else []) = (if ?U - {b} = {} then [?msg] else [])"
    unfolding d(9) using empty by (cases "?U = {}") simp_all
  then have "connection_ok ?c"
    unfolding connection_ok_def Let_def un
    using d(1,2,5,10) dc(2,3) acks sub by simp
  then show ?thesis using dc(1) by auto
qed

lemma run_ack_task_ok:
  assumes ok: "connection_ok c" and i: "i < length (dc_msgs (receiver c))"
  shows "\<exists>dc a. send_ack i (receiver c) = Some (dc, a) \<and>
    connection_ok (c\<lparr>receiver := dc, ack_wire := insert a (ack_wire c)\<rparr>)"
proof -
  note d = connection_okD [OF ok]
  let ?fc = "sender c" and ?dc = "receiver c"
  let ?msg = "fc_msg ?fc" and ?fid = "fc_fragment_id ?fc" and ?mtu = "fc_mtu ?fc"
  let ?mc = "dc_msgs ?dc ! i"
  let ?mc' = "?mc\<lparr>ack_task := None\<rparr>"
  let ?dc' = "?dc\<lparr>dc_msgs := (dc_msgs ?dc)[i := ?mc']\<rparr>"
  have inv: "dc_inv (mc_ok (dc_mtu ?dc) [?fid \<mapsto> ?msg]) ?dc" using d(3) by (simp add: dc_ok_def)
  then have mc: "mc_ok (dc_mtu ?dc) [?fid \<mapsto> ?msg] ?mc" and dist: "distinct (map mc_fragment_id (dc_msgs ?dc))"
    using i by (simp_all add: dc_inv_def)
  have fid: "mc_fragment_id ?mc = ?fid" using mc by (auto simp: mc_ok_def split: if_splits)
  have bits: "missing_of ?dc ?fid = Some (bitset (mc_bits ?mc))"
    using missing_of_Some [OF dist nth_mem [OF i]] fid by simp
  have same: "?dc\<lparr>dc_msgs := (dc_msgs ?dc)[i := ?mc'], latency := latency ?dc\<rparr> = ?dc'" by simp
  have "missing_of ?dc' ?fid = Some (bitset (mc_bits ?mc))"
    using missing_of_update [OF dist i, of ?mc' "latency ?dc" ?fid] fid unfolding same by simp
  then have un: "unreceived (c\<lparr>receiver := ?dc', ack_wire := w\<rparr>) = unreceived c"
    and U: "unreceived c = bitset (mc_bits ?mc)" for w
    using bits by (simp_all add: unreceived_def)
  have "dc_inv (mc_ok (dc_mtu ?dc) [?fid \<mapsto> ?msg]) ?dc'"
    using update_context_ok [OF inv i, of ?mc' "latency ?dc"] mc unfolding same by simp
  then have "dc_ok [?fid \<mapsto> ?msg] ?dc'" by (simp add: dc_ok_def)
  moreover have "ack_message ?mc = ack_for ?fid (mc_bits ?mc)" by (simp add: ack_message_def ack_for_def fid)
  ultimately have "connection_ok (c\<lparr>receiver := ?dc', ack_wire := insert (ack_message ?mc) (ack_wire c)\<rparr>)"
    unfolding connection_ok_def Let_def un
    using d(1,2,4,5) d(6-10) U by auto
  then show ?thesis using i by (simp add: send_ack_def Let_def)
qed

lemma connection_step_ok:
  assumes "connection_step undef est c c'" "connection_ok c"
  shows "connection_ok c' \<and> fc_msg (sender c') = fc_msg (sender c)"
  using assms(1)
proof (cases rule: connection_step.cases)
  case (run_task clk tracker tracker' fc out)
  then show ?thesis using run_task_ok [OF assms(2), of clk undef tracker] by (auto simp: same_job_def)
next
  case (sent now fc)
  then show ?thesis using sent_ok [OF assms(2), of now] by (auto simp: same_job_def)
next
  case (fragment_arrives f now dc r out)
  then show ?thesis using fragment_arrives_ok [OF assms(2), of f est now] by auto
next
  case (run_ack_task i dc a)
  then show ?thesis using run_ack_task_ok [OF assms(2), of i] by auto
next
  case (ack_arrives a now fc r)
  then show ?thesis using ack_arrives_ok [OF assms(2), of a undef now] by (auto simp: same_job_def)
qed

lemma connection_reach_ok:
  assumes "connection_reach undef est c c'" "connection_ok c"
  shows "connection_ok c' \<and> fc_msg (sender c') = fc_msg (sender c)"
  using assms(1)
proof (induction rule: connection_reach.induct)
  case reach_start
  then show ?case using assms(2) by simp
next
  case (reach_step c' c'')
  then show ?case using connection_step_ok [of undef est c' c''] by simp
qed

lemma create_connects:
  assumes "GNUNET_FRAGMENT_context_create r mtu md ad msg = Some fc" "0 < n"
  shows "connection_ok (connect mtu n fc)" "fc_msg (sender (connect mtu n fc)) = take (message_size msg) msg"
proof -
  have pre: "1036 \<le> unat mtu" "4 \<le> message_size msg" "message_size msg \<le> length msg" "acks fc = acks_mask fc"
    using assms(1) by (auto simp: GNUNET_FRAGMENT_context_create_def Let_def split: if_splits)
  then have "fc_live fc" "fc_mtu fc = mtu" "fc_msg fc = take (message_size msg) msg"
    using create_live [OF pre(1-3), of r md ad] assms(1) by auto
  then show "connection_ok (connect mtu n fc)" "fc_msg (sender (connect mtu n fc)) = take (message_size msg) msg"
    using connect_ok assms(2) pre(4) by (auto simp: connect_def)
qed

text \<open>A run on a message of one fragment: it is sent, arrives, and its acknowledgement completes the transfer.\<close>

definition example_est :: "FragTimes list \<Rightarrow> GNUNET_TIME_Relative" where
  "example_est ts = \<lparr>rel_value = 3\<rparr>"

definition example_sender :: GNUNET_FRAGMENT_Context where
  "example_sender = the (GNUNET_FRAGMENT_context_create 5 1036 \<lparr>rel_value = 1\<rparr> \<lparr>rel_value = 1\<rparr> [0, 4, 0, 7])"

definition example_sender' :: GNUNET_FRAGMENT_Context where
  "example_sender' = fst (snd (the (transmit_next (\<lambda>_. 0) (\<lambda>_. \<lparr>abs_value = 9\<rparr>) None example_sender)))"

definition example_fragment :: "byte list" where
  "example_fragment = [0, 16, 0, 18, 0, 0, 0, 5, 0, 4, 0, 0, 0, 4, 0, 7]"

definition example_receiver :: GNUNET_DEFRAGMENT_Context where
  "example_receiver =
     fst (the (GNUNET_DEFRAGMENT_process_fragment example_est \<lparr>abs_value = 10\<rparr>
       (GNUNET_DEFRAGMENT_context_create 1036 1) example_fragment))"

definition example_ack :: "byte list" where
  "example_ack = snd (the (send_ack 0 example_receiver))"

lemma example_create:
  "GNUNET_FRAGMENT_context_create 5 1036 \<lparr>rel_value = 1\<rparr> \<lparr>rel_value = 1\<rparr> [0, 4, 0, 7] = Some example_sender"
  by code_simp

lemma example_transmit:
  "transmit_next (\<lambda>_. 0) (\<lambda>_. \<lparr>abs_value = 9\<rparr>) None example_sender = Some (None, example_sender', Some example_fragment)"
  by code_simp

lemma example_receive:
  "GNUNET_DEFRAGMENT_process_fragment example_est \<lparr>abs_value = 10\<rparr>
     (GNUNET_DEFRAGMENT_context_create 1036 1) example_fragment = Some (example_receiver, GNUNET_YES, [[0, 4, 0, 7]])"
  by code_simp

lemma example_receiver_acks: "0 < length (dc_msgs example_receiver)" "ack_task (dc_msgs example_receiver ! 0) \<noteq> None"
  by code_simp+

lemma example_task: "fc_task example_sender \<noteq> None"
  by code_simp

lemma example_process_ack:
  "\<exists>fc. GNUNET_FRAGMENT_process_ack (\<lambda>_. 0) \<lparr>abs_value = 12\<rparr> example_sender' example_ack = Some (fc, GNUNET_OK)"
proof -
  have "map_option snd (GNUNET_FRAGMENT_process_ack (\<lambda>_. 0) \<lparr>abs_value = 12\<rparr> example_sender' example_ack) = Some GNUNET_OK"
    by code_simp
  then show ?thesis by auto
qed

lemma example_run:
  "\<exists>c. connection_reach (\<lambda>_. 0) example_est (connect 1036 1 example_sender) c \<and> completed c"
proof -
  let ?c0 = "connect 1036 1 example_sender"
  let ?c1 = "?c0\<lparr>sender := example_sender', fragment_wire := fragment_wire ?c0 \<union> set_option (Some example_fragment)\<rparr>"
  let ?c2 = "?c1\<lparr>receiver := example_receiver, delivered := delivered ?c1 @ [[0, 4, 0, 7]]\<rparr>"
  let ?S = "connection_step (\<lambda>_. 0) example_est"
  have s1: "?S ?c0 ?c1"
    by (rule connection_step.run_task [where clk = "\<lambda>_. \<lparr>abs_value = 9\<rparr>" and tracker = None])
      (simp_all add: connect_def example_task example_transmit UINT64_MAX_def)
  have s2: "?S ?c1 ?c2"
    by (rule connection_step.fragment_arrives [where f = example_fragment and now = "\<lparr>abs_value = 10\<rparr>"])
      (simp_all add: connect_def example_receive)
  obtain dc where dc: "send_ack 0 example_receiver = Some (dc, example_ack)"
    using example_receiver_acks(1) by (auto simp: send_ack_def example_ack_def Let_def)
  let ?c3 = "?c2\<lparr>receiver := dc, ack_wire := insert example_ack (ack_wire ?c2)\<rparr>"
  have s3: "?S ?c2 ?c3"
    by (rule connection_step.run_ack_task [where i = 0]) (use example_receiver_acks dc in simp_all)
  obtain fc where fc: "GNUNET_FRAGMENT_process_ack (\<lambda>_. 0) \<lparr>abs_value = 12\<rparr> example_sender' example_ack = Some (fc, GNUNET_OK)"
    using example_process_ack by blast
  let ?c4 = "?c3\<lparr>sender := fc, completed := (GNUNET_OK = GNUNET_OK)\<rparr>"
  have s4: "?S ?c3 ?c4"
    by (rule connection_step.ack_arrives [where a = example_ack and now = "\<lparr>abs_value = 12\<rparr>"]) (use fc in \<open>simp_all add: connect_def\<close>)
  have "connection_reach (\<lambda>_. 0) example_est ?c0 ?c4"
    by (rule reach_step [OF reach_step [OF reach_step [OF reach_step [OF reach_start s1] s2] s3] s4])
  then show ?thesis by (intro exI [of _ ?c4]) simp
qed

text \<open>
  C16: Sender and receiver of a fragmented message agree over a network that loses, repeats and reorders fragments and
  acknowledgements.  Whatever happens in whatever order, the receiver hands on the message at most once and unchanged,
  and the sender is told that the transfer is complete only after the receiver has handed on the message.
\<close>

theorem fragment_protocol_correct:
  assumes "GNUNET_FRAGMENT_context_create r mtu md ad msg = Some fc" "0 < n"
    and "connection_reach undef est (connect mtu n fc) c"
  shows "delivered c = [] \<and> \<not> completed c \<or> delivered c = [take (message_size msg) msg]"
proof -
  note start = create_connects [OF assms(1,2)]
  have "connection_ok c" "fc_msg (sender c) = take (message_size msg) msg"
    using connection_reach_ok [OF assms(3) start(1)] start(2) by auto
  then show ?thesis using connection_okD(9,10) [of c] by (cases "unreceived c = {}") auto
qed

theorem fragment_protocol_correct_witness:
  "\<exists>c. connection_reach (\<lambda>_. 0) example_est (connect 1036 1 example_sender) c \<and> completed c \<and>
     delivered c = [[0, 4, 0, 7]]"
proof -
  obtain c where c: "connection_reach (\<lambda>_. 0) example_est (connect 1036 1 example_sender) c" "completed c"
    using example_run by blast
  have "take (message_size [0, 4, 0, 7]) [0, 4, 0, 7 :: byte] = [0, 4, 0, 7]" by code_simp
  then show ?thesis using fragment_protocol_correct [OF example_create _ c(1)] c by auto
qed

text \<open>
  C17: No handler of sender or receiver fails in any state the two can reach: every task and every arriving message is
  processed without a failed assertion, an access outside a buffer or an endless loop.
\<close>

theorem fragment_protocol_never_fails:
  assumes "GNUNET_FRAGMENT_context_create r mtu md ad msg = Some fc" "0 < n"
    and "connection_reach undef est (connect mtu n fc) c"
  shows "(\<not> completed c \<and> fc_task (sender c) \<noteq> None \<and> (\<forall>i. clk i \<noteq> \<lparr>abs_value = UINT64_MAX\<rparr>) \<longrightarrow>
      transmit_next undef clk tracker (sender c) \<noteq> None) \<and>
    (\<not> completed c \<and> proc_busy (sender c) = GNUNET_YES \<longrightarrow>
      GNUNET_FRAGMENT_context_transmission_done now (sender c) \<noteq> None) \<and>
    (\<forall>f \<in> fragment_wire c. GNUNET_DEFRAGMENT_process_fragment est now (receiver c) f \<noteq> None) \<and>
    (\<forall>i < length (dc_msgs (receiver c)). send_ack i (receiver c) \<noteq> None) \<and>
    (\<not> completed c \<longrightarrow> (\<forall>a \<in> ack_wire c. GNUNET_FRAGMENT_process_ack undef now (sender c) a \<noteq> None))"
proof -
  have ok: "connection_ok c"
    using connection_reach_ok [OF assms(3)] create_connects(1) [OF assms(1,2)] by blast
  then show ?thesis
    using run_task_ok [OF ok, of clk undef tracker] sent_ok [OF ok, of now] fragment_arrives_ok [OF ok, of _ est now]
      run_ack_task_ok [OF ok] ack_arrives_ok [OF ok, of _ undef now]
    by (intro conjI impI ballI allI; metis option.distinct(1))
qed

theorem fragment_protocol_never_fails_witness:
  "\<exists>c. connection_reach (\<lambda>_. 0) example_est (connect 1036 1 example_sender) c \<and> completed c \<and>
     transmit_next (\<lambda>_. 0) (\<lambda>_. \<lparr>abs_value = 9\<rparr>) None (sender (connect 1036 1 example_sender)) \<noteq> None \<and>
     (\<forall>f \<in> fragment_wire c. GNUNET_DEFRAGMENT_process_fragment example_est \<lparr>abs_value = 20\<rparr> (receiver c) f \<noteq> None)"
proof -
  obtain c where c: "connection_reach (\<lambda>_. 0) example_est (connect 1036 1 example_sender) c" "completed c"
    using example_run by blast
  have "\<not> completed (connect 1036 1 example_sender)" "fc_task (sender (connect 1036 1 example_sender)) \<noteq> None"
      "\<lparr>abs_value = 9\<rparr> \<noteq> \<lparr>abs_value = UINT64_MAX\<rparr>"
    using example_task by (simp_all add: connect_def UINT64_MAX_def)
  then show ?thesis
    using fragment_protocol_never_fails [OF example_create _ c(1), of "\<lambda>_. \<lparr>abs_value = 9\<rparr>" None "\<lparr>abs_value = 20\<rparr>"]
      fragment_protocol_never_fails [OF example_create _ reach_start, of 1 "\<lambda>_. \<lparr>abs_value = 9\<rparr>" "\<lambda>_. 0" None "\<lparr>abs_value = 20\<rparr>" example_est]
      c by (intro exI [of _ c]) simp
qed

end
