(* ===== verification/Dns_Parser.thy ===== *)
theory Dns_Parser
  imports Time_Lib "HOL-Library.Monad_Syntax"
begin

unbundle bit_operations_syntax

text \<open>
  Parsing of DNS packets, \<^verbatim>\<open>src/src/dns/dnsparser.c\<close>.  The payload is the byte sequence that the code gets; an
  access outside of it, a failing assertion and a use of freed memory are the result \<open>None\<close>.  A C string is the list of
  its bytes without the terminator, \<open>None\<close> is \<^verbatim>\<open>NULL\<close>.  The functions of the IDNA library are parameters:
  \<open>to_unicode\<close> is \<^verbatim>\<open>idna_to_unicode_8z8z\<close> and \<open>to_ascii\<close> is \<^verbatim>\<open>idna_to_ascii_8z\<close>, each with the flag
  \<^verbatim>\<open>IDNA_USE_STD3_ASCII_RULES\<close>; they return \<open>None\<close> unless they succeed.  Reading a name starts at an offset and
  returns the offset behind it, also in case of an error, since not every caller checks for errors at once.
\<close>

section \<open>Data\<close>

type_synonym cstring = "byte list"

definition GNUNET_DNSPARSER_TYPE_NS :: u16 where [simp]: "GNUNET_DNSPARSER_TYPE_NS = 2"

definition GNUNET_DNSPARSER_TYPE_CNAME :: u16 where [simp]: "GNUNET_DNSPARSER_TYPE_CNAME = 5"

definition GNUNET_DNSPARSER_TYPE_SOA :: u16 where [simp]: "GNUNET_DNSPARSER_TYPE_SOA = 6"

definition GNUNET_DNSPARSER_TYPE_PTR :: u16 where [simp]: "GNUNET_DNSPARSER_TYPE_PTR = 12"

definition GNUNET_DNSPARSER_TYPE_MX :: u16 where [simp]: "GNUNET_DNSPARSER_TYPE_MX = 15"

definition GNUNET_DNSPARSER_TYPE_SRV :: u16 where [simp]: "GNUNET_DNSPARSER_TYPE_SRV = 33"

definition dot :: byte where [simp]: "dot = 46"

definition underscore :: byte where [simp]: "underscore = 95"

record GNUNET_DNSPARSER_Flags =
  recursion_desired :: bool
  message_truncated :: bool
  authoritative_answer :: bool
  opcode :: "4 word"
  query_or_response :: bool
  return_code :: "4 word"
  checking_disabled :: bool
  authenticated_data :: bool
  zero_flag :: bool
  recursion_available :: bool

text \<open>The layout of the flags in the two bytes of the packet, which is the same for both byte orders.\<close>

definition flags_of_bytes :: "byte \<Rightarrow> byte \<Rightarrow> GNUNET_DNSPARSER_Flags" where
  "flags_of_bytes b0 b1 =
     \<lparr>recursion_desired = bit b0 0, message_truncated = bit b0 1, authoritative_answer = bit b0 2,
      opcode = ucast (drop_bit 3 b0), query_or_response = bit b0 7, return_code = ucast b1,
      checking_disabled = bit b1 4, authenticated_data = bit b1 5, zero_flag = bit b1 6,
      recursion_available = bit b1 7\<rparr>"

definition flag_bit :: "bool \<Rightarrow> nat \<Rightarrow> byte" where
  "flag_bit b i = (if b then push_bit i 1 else 0)"

definition bytes_of_flags :: "GNUNET_DNSPARSER_Flags \<Rightarrow> byte list" where
  "bytes_of_flags f =
     [flag_bit (recursion_desired f) 0 OR flag_bit (message_truncated f) 1 OR flag_bit (authoritative_answer f) 2 OR
      push_bit 3 (ucast (opcode f)) OR flag_bit (query_or_response f) 7,
      ucast (return_code f) OR flag_bit (checking_disabled f) 4 OR flag_bit (authenticated_data f) 5 OR
      flag_bit (zero_flag f) 6 OR flag_bit (recursion_available f) 7]"

record GNUNET_DNSPARSER_Query =
  q_name :: "cstring option"
  q_type :: u16
  q_class :: u16

record GNUNET_DNSPARSER_MxRecord =
  preference :: u16
  mxhost :: "cstring option"

record GNUNET_DNSPARSER_SrvRecord =
  service :: "cstring option"
  proto :: "cstring option"
  domain_name :: "cstring option"
  target :: "cstring option"
  priority :: u16
  weight :: u16
  port :: u16

record GNUNET_DNSPARSER_SoaRecord =
  mname :: "cstring option"
  rname :: "cstring option"
  serial :: u32
  refresh :: u32
  retry :: u32
  expire :: u32
  minimum_ttl :: u32

text \<open>
  The members of the union in a record.  \<open>Data_zero\<close> is the union of a record after allocation, whose pointers are all
  \<^verbatim>\<open>NULL\<close>; \<open>Srv_freed\<close> is a pointer to an SRV record that has been freed.
\<close>

datatype record_data =
    Data_zero
  | Hostname "cstring option"
  | Soa GNUNET_DNSPARSER_SoaRecord
  | Mx GNUNET_DNSPARSER_MxRecord
  | Srv GNUNET_DNSPARSER_SrvRecord
  | Srv_freed
  | Raw "byte list"

record GNUNET_DNSPARSER_Record =
  r_name :: "cstring option"
  r_data :: record_data
  expiration_time :: GNUNET_TIME_Absolute
  r_type :: u16
  r_class :: u16

record GNUNET_DNSPARSER_Packet =
  queries :: "GNUNET_DNSPARSER_Query list"
  answers :: "GNUNET_DNSPARSER_Record list"
  authority_records :: "GNUNET_DNSPARSER_Record list"
  additional_records :: "GNUNET_DNSPARSER_Record list"
  flags :: GNUNET_DNSPARSER_Flags
  packet_id :: "byte list"

definition query_zero :: GNUNET_DNSPARSER_Query where
  "query_zero = \<lparr>q_name = None, q_type = 0, q_class = 0\<rparr>"

definition record_zero :: GNUNET_DNSPARSER_Record where
  "record_zero = \<lparr>r_name = None, r_data = Data_zero, expiration_time = \<lparr>abs_value = 0\<rparr>, r_type = 0, r_class = 0\<rparr>"

section \<open>Names\<close>

definition GNUNET_DNSPARSER_check_label :: "(cstring \<Rightarrow> cstring option) \<Rightarrow> cstring \<Rightarrow> int" where
  "GNUNET_DNSPARSER_check_label to_ascii label =
     (case to_ascii label of None \<Rightarrow> GNUNET_SYSERR | Some out \<Rightarrow> GNUNET_OK)"

text \<open>What the conversion \<^verbatim>\<open>%.*s\<close> prints of the bytes at a pointer, with precision \<open>n\<close>.\<close>

definition print_bytes :: "nat \<Rightarrow> byte list \<Rightarrow> cstring" where
  "print_bytes n bs = takeWhile (\<lambda>b. b \<noteq> 0) (take n bs)"

definition unicode_label :: "(cstring \<Rightarrow> cstring option) \<Rightarrow> cstring \<Rightarrow> cstring" where
  "unicode_label to_unicode raw = (case to_unicode raw of None \<Rightarrow> raw | Some utf8 \<Rightarrow> utf8)"

function parse_labels ::
    "(cstring \<Rightarrow> cstring option) \<Rightarrow> byte list \<Rightarrow> nat \<Rightarrow> cstring \<Rightarrow> nat \<Rightarrow> (nat \<times> cstring option) option" where
  "parse_labels to_unicode p depth ret off =
     (if length p \<le> off then Some (off, None)
      else let len = p ! off in
        if len = 0 then Some (off + 1, Some (butlast ret))
        else if len < 64 then
          if length p < off + 1 + unat len then Some (off, None)
          else parse_labels to_unicode p depth
                 (ret @ unicode_label to_unicode (print_bytes (unat len) (drop (off + 1) p)) @ [dot])
                 (off + 1 + unat len)
        else if len AND (64 OR 128) = 64 OR 128 then
          if 32 < depth then Some (off, None)
          else if length p < off + 1 then Some (off, None)
          else if length p \<le> off + 1 then None
          else (case parse_labels to_unicode p (depth + 1) [] (unat (len - (64 OR 128)) * 256 + unat (p ! (off + 1))) of
                  None \<Rightarrow> None
                | Some (_, None) \<Rightarrow> Some (off, None)
                | Some (_, Some xstr) \<Rightarrow>
                    if length p < length (ret @ xstr @ [dot]) then Some (off, None)
                    else Some (off + 2, Some (butlast (ret @ xstr @ [dot]))))
        else Some (off, None))"
  by pat_completeness auto
termination
  by (relation "measures [\<lambda>(_, _, depth, _, _). 33 - depth, \<lambda>(_, p, _, _, off). length p - off]") auto

declare parse_labels.simps [simp del]

definition parse_name :: "(cstring \<Rightarrow> cstring option) \<Rightarrow> byte list \<Rightarrow> nat \<Rightarrow> nat \<Rightarrow> (nat \<times> cstring option) option" where
  "parse_name to_unicode p off depth = parse_labels to_unicode p depth [] off"

section \<open>Queries and records\<close>

definition query_line_size :: nat where [simp]: "query_line_size = 4"

definition record_line_size :: nat where [simp]: "record_line_size = 10"

definition soa_data_size :: nat where [simp]: "soa_data_size = 20"

definition srv_data_size :: nat where [simp]: "srv_data_size = 6"

definition DnsHeader_size :: nat where [simp]: "DnsHeader_size = 12"

definition parse_query ::
    "(cstring \<Rightarrow> cstring option) \<Rightarrow> byte list \<Rightarrow> nat \<Rightarrow> (int \<times> GNUNET_DNSPARSER_Query \<times> nat) option" where
  "parse_query to_unicode p off =
     do {
       (off1, name) \<leftarrow> parse_name to_unicode p off 0;
       case name of
         None \<Rightarrow> Some (GNUNET_SYSERR, query_zero, off1)
       | Some nm \<Rightarrow>
           let q = query_zero\<lparr>q_name := Some nm\<rparr> in
           if length p < off1 + query_line_size then Some (GNUNET_SYSERR, q, off1)
           else Some (GNUNET_OK, q\<lparr>q_type := get_be16 p off1, q_class := get_be16 p (off1 + 2)\<rparr>,
                      off1 + query_line_size)
     }"

definition parse_hostname ::
    "(cstring \<Rightarrow> cstring option) \<Rightarrow> byte list \<Rightarrow> nat \<Rightarrow> nat \<Rightarrow> (int \<times> record_data \<times> nat) option" where
  "parse_hostname to_unicode p off data_len =
     do {
       (off1, host) \<leftarrow> parse_name to_unicode p off 0;
       Some (if host = None \<or> off + data_len \<noteq> off1 then GNUNET_SYSERR else GNUNET_OK, Hostname host, off1)
     }"

definition parse_soa ::
    "(cstring \<Rightarrow> cstring option) \<Rightarrow> byte list \<Rightarrow> nat \<Rightarrow> nat \<Rightarrow> (int \<times> record_data \<times> nat) option" where
  "parse_soa to_unicode p off data_len =
     do {
       (off1, mn) \<leftarrow> parse_name to_unicode p off 0;
       (off2, rn) \<leftarrow> parse_name to_unicode p off1 0;
       let soa = \<lparr>mname = mn, rname = rn, serial = 0, refresh = 0, retry = 0, expire = 0, minimum_ttl = 0\<rparr>;
       if mn = None \<or> rn = None \<or> length p < off2 + soa_data_size then Some (GNUNET_SYSERR, Soa soa, off2)
       else Some (if off + data_len \<noteq> off2 + soa_data_size then GNUNET_SYSERR else GNUNET_OK,
                  Soa (soa\<lparr>serial := get_be32 p off2, refresh := get_be32 p (off2 + 4), retry := get_be32 p (off2 + 8),
                           expire := get_be32 p (off2 + 12), minimum_ttl := get_be32 p (off2 + 16)\<rparr>),
                  off2 + soa_data_size)
     }"

definition parse_mx ::
    "(cstring \<Rightarrow> cstring option) \<Rightarrow> byte list \<Rightarrow> nat \<Rightarrow> nat \<Rightarrow> (int \<times> record_data \<times> nat) option" where
  "parse_mx to_unicode p off data_len =
     (if length p < off + 2 then Some (GNUNET_SYSERR, Data_zero, off)
      else do {
        (off1, host) \<leftarrow> parse_name to_unicode p (off + 2) 0;
        Some (if off + data_len \<noteq> off1 then GNUNET_SYSERR else GNUNET_OK,
              Mx \<lparr>preference = get_be16 p off, mxhost = host\<rparr>, off1)
      })"

definition strstr :: "cstring \<Rightarrow> cstring \<Rightarrow> bool" where
  "strstr haystack needle =
     list_ex (\<lambda>i. take (length needle) (drop i haystack) = needle) [0..<Suc (length haystack)]"

definition strtok :: "cstring \<Rightarrow> (cstring \<times> cstring) option" where
  "strtok s =
     (let s' = dropWhile (\<lambda>b. b = dot) s in
      if s' = [] then None
      else Some (takeWhile (\<lambda>b. b \<noteq> dot) s', drop 1 (dropWhile (\<lambda>b. b \<noteq> dot) s')))"

definition parse_srv ::
    "(cstring \<Rightarrow> cstring option) \<Rightarrow> cstring \<Rightarrow> byte list \<Rightarrow> nat \<Rightarrow> nat \<Rightarrow> (int \<times> record_data \<times> nat) option" where
  "parse_srv to_unicode name p off data_len =
     (if take 1 name \<noteq> [underscore] then Some (GNUNET_SYSERR, Data_zero, off)
      else if \<not> strstr name [dot, underscore] then Some (GNUNET_SYSERR, Data_zero, off)
      else if length p < off + srv_data_size then Some (GNUNET_SYSERR, Data_zero, off)
      else do {
        (tok, rest) \<leftarrow> strtok name;
        if take 1 tok \<noteq> [underscore] then None
        else case strtok rest of
          None \<Rightarrow> Some (GNUNET_SYSERR, Srv_freed, off + srv_data_size)
        | Some (tok2, rest2) \<Rightarrow>
            if take 1 tok2 \<noteq> [underscore] then Some (GNUNET_SYSERR, Srv_freed, off + srv_data_size)
            else case strtok rest2 of
              None \<Rightarrow> Some (GNUNET_SYSERR, Srv_freed, off + srv_data_size)
            | Some (tok3, _) \<Rightarrow> do {
                (off1, tgt) \<leftarrow> parse_name to_unicode p (off + srv_data_size) 0;
                Some (if off + data_len \<noteq> off1 then GNUNET_SYSERR else GNUNET_OK,
                      Srv \<lparr>service = Some (drop 1 tok), proto = Some (drop 1 tok2), domain_name = Some tok3,
                           target = tgt, priority = get_be16 p off, weight = get_be16 p (off + 2),
                           port = get_be16 p (off + 4)\<rparr>,
                      off1)
              }
      })"

definition parse_data ::
    "(cstring \<Rightarrow> cstring option) \<Rightarrow> u16 \<Rightarrow> cstring \<Rightarrow> byte list \<Rightarrow> nat \<Rightarrow> nat \<Rightarrow> (int \<times> record_data \<times> nat) option" where
  "parse_data to_unicode t name p off data_len =
     (if t \<in> {GNUNET_DNSPARSER_TYPE_NS, GNUNET_DNSPARSER_TYPE_CNAME, GNUNET_DNSPARSER_TYPE_PTR}
      then parse_hostname to_unicode p off data_len
      else if t = GNUNET_DNSPARSER_TYPE_SOA then parse_soa to_unicode p off data_len
      else if t = GNUNET_DNSPARSER_TYPE_MX then parse_mx to_unicode p off data_len
      else if t = GNUNET_DNSPARSER_TYPE_SRV then parse_srv to_unicode name p off data_len
      else Some (GNUNET_OK, Raw (take data_len (drop off p)), off + data_len))"

definition parse_record ::
    "(cstring \<Rightarrow> cstring option) \<Rightarrow> GNUNET_TIME_Absolute \<Rightarrow> byte list \<Rightarrow> nat \<Rightarrow>
     (int \<times> GNUNET_DNSPARSER_Record \<times> nat) option" where
  "parse_record to_unicode now p off =
     do {
       (off1, name) \<leftarrow> parse_name to_unicode p off 0;
       case name of
         None \<Rightarrow> Some (GNUNET_SYSERR, record_zero, off1)
       | Some nm \<Rightarrow>
           if length p < off1 + record_line_size then Some (GNUNET_SYSERR, record_zero\<lparr>r_name := Some nm\<rparr>, off1)
           else
             let t = get_be16 p off1;
                 data_len = unat (get_be16 p (off1 + 8));
                 off2 = off1 + record_line_size;
                 r = \<lparr>r_name = Some nm, r_data = Data_zero,
                      expiration_time = GNUNET_TIME_relative_to_absolute now
                        (GNUNET_TIME_relative_multiply GNUNET_TIME_UNIT_SECONDS (get_be32 p (off1 + 4))),
                      r_type = t, r_class = get_be16 p (off1 + 2)\<rparr>
             in
             if length p < off2 + data_len then Some (GNUNET_SYSERR, r, off2)
             else do {
               (ret, d, off3) \<leftarrow> parse_data to_unicode t nm p off2 data_len;
               Some (ret, r\<lparr>r_data := d\<rparr>, off3)
             }
     }"

section \<open>Freeing packets\<close>

text \<open>Freeing a member of the union that is not there, or that was freed before, has no result.\<close>

definition free_soa :: "record_data \<Rightarrow> unit option" where
  "free_soa d = (case d of Data_zero \<Rightarrow> Some () | Soa _ \<Rightarrow> Some () | _ \<Rightarrow> None)"

definition free_srv :: "record_data \<Rightarrow> unit option" where
  "free_srv d = (case d of Data_zero \<Rightarrow> Some () | Srv _ \<Rightarrow> Some () | _ \<Rightarrow> None)"

definition free_mx :: "record_data \<Rightarrow> unit option" where
  "free_mx d = (case d of Data_zero \<Rightarrow> Some () | Mx _ \<Rightarrow> Some () | _ \<Rightarrow> None)"

definition free_record :: "GNUNET_DNSPARSER_Record \<Rightarrow> unit option" where
  "free_record r =
     (if r_type r = GNUNET_DNSPARSER_TYPE_MX then free_mx (r_data r)
      else if r_type r = GNUNET_DNSPARSER_TYPE_SOA then free_soa (r_data r)
      else if r_type r = GNUNET_DNSPARSER_TYPE_SRV then free_srv (r_data r)
      else if r_type r \<in> {GNUNET_DNSPARSER_TYPE_NS, GNUNET_DNSPARSER_TYPE_CNAME, GNUNET_DNSPARSER_TYPE_PTR}
      then (case r_data r of Data_zero \<Rightarrow> Some () | Hostname _ \<Rightarrow> Some () | _ \<Rightarrow> None)
      else (case r_data r of Data_zero \<Rightarrow> Some () | Raw _ \<Rightarrow> Some () | _ \<Rightarrow> None))"

fun free_records :: "GNUNET_DNSPARSER_Record list \<Rightarrow> unit option" where
  "free_records [] = Some ()"
| "free_records (r # rs) = do { free_record r; free_records rs }"

definition GNUNET_DNSPARSER_free_packet :: "GNUNET_DNSPARSER_Packet \<Rightarrow> unit option" where
  "GNUNET_DNSPARSER_free_packet p =
     do {
       free_records (answers p);
       free_records (authority_records p);
       free_records (additional_records p)
     }"

section \<open>Packets\<close>

text \<open>
  The loops over the queries and the records of a section; the first component of the result tells whether all were
  well-formed.  If not, the last element is the malformed one, and the rest of the array, which was zeroed when it was
  allocated, is left out.
\<close>

fun parse_queries ::
    "(cstring \<Rightarrow> cstring option) \<Rightarrow> byte list \<Rightarrow> nat \<Rightarrow> nat \<Rightarrow> (bool \<times> GNUNET_DNSPARSER_Query list \<times> nat) option" where
  "parse_queries to_unicode p 0 off = Some (True, [], off)"
| "parse_queries to_unicode p (Suc n) off =
     do {
       (ret, q, off1) \<leftarrow> parse_query to_unicode p off;
       if ret \<noteq> GNUNET_OK then Some (False, [q], off1)
       else do {
         (ok, qs, off2) \<leftarrow> parse_queries to_unicode p n off1;
         Some (ok, q # qs, off2)
       }
     }"

fun parse_records ::
    "(cstring \<Rightarrow> cstring option) \<Rightarrow> (nat \<Rightarrow> GNUNET_TIME_Absolute) \<Rightarrow> byte list \<Rightarrow> nat \<Rightarrow> nat \<Rightarrow>
     (bool \<times> GNUNET_DNSPARSER_Record list \<times> nat) option" where
  "parse_records to_unicode clk p 0 off = Some (True, [], off)"
| "parse_records to_unicode clk p (Suc n) off =
     do {
       (ret, r, off1) \<leftarrow> parse_record to_unicode (clk 0) p off;
       if ret \<noteq> GNUNET_OK then Some (False, [r], off1)
       else do {
         (ok, rs, off2) \<leftarrow> parse_records to_unicode (\<lambda>i. clk (Suc i)) p n off1;
         Some (ok, r # rs, off2)
       }
     }"

definition parse_error :: "GNUNET_DNSPARSER_Packet \<Rightarrow> GNUNET_DNSPARSER_Packet option option" where
  "parse_error pk = do { GNUNET_DNSPARSER_free_packet pk; Some None }"

text \<open>\<open>clk s i\<close> is the reading of the clock for record \<open>i\<close> of section \<open>s\<close>.\<close>

definition GNUNET_DNSPARSER_parse ::
    "(cstring \<Rightarrow> cstring option) \<Rightarrow> (nat \<Rightarrow> nat \<Rightarrow> GNUNET_TIME_Absolute) \<Rightarrow> byte list \<Rightarrow>
     GNUNET_DNSPARSER_Packet option option" where
  "GNUNET_DNSPARSER_parse to_unicode clk p =
     (if length p < DnsHeader_size then Some None
      else do {
        (ok0, qs, off0) \<leftarrow> parse_queries to_unicode p (unat (get_be16 p 4)) DnsHeader_size;
        let pk0 = \<lparr>queries = qs, answers = [], authority_records = [], additional_records = [],
                   flags = flags_of_bytes (p ! 2) (p ! 3), packet_id = take 2 p\<rparr>;
        if \<not> ok0 then parse_error pk0
        else do {
          (ok1, an, off1) \<leftarrow> parse_records to_unicode (clk 0) p (unat (get_be16 p 6)) off0;
          let pk1 = pk0\<lparr>answers := an\<rparr>;
          if \<not> ok1 then parse_error pk1
          else do {
            (ok2, au, off2) \<leftarrow> parse_records to_unicode (clk 1) p (unat (get_be16 p 8)) off1;
            let pk2 = pk1\<lparr>authority_records := au\<rparr>;
            if \<not> ok2 then parse_error pk2
            else do {
              (ok3, ad, off3) \<leftarrow> parse_records to_unicode (clk 2) p (unat (get_be16 p 10)) off2;
              let pk3 = pk2\<lparr>additional_records := ad\<rparr>;
              if \<not> ok3 then parse_error pk3 else Some (Some pk3)
            }
          }
        }
      })"


section \<open>Memory safety\<close>

lemma byte_ge_192: "(b :: byte) AND (64 OR 128) = 64 OR 128 \<Longrightarrow> 192 \<le> b"
  using word_and_le2 [of b "64 OR 128"] by simp

lemma byte_ge_192_iff: "(b :: byte) AND (64 OR 128) = 64 OR 128 \<longleftrightarrow> 192 \<le> b"
proof
  assume "192 \<le> b"
  then have "192 \<le> unat b" by (simp add: word_le_nat_alt)
  moreover have "unat b < 256" using unsigned_less [of b] by simp
  ultimately have "unat b \<in> {192..<256}" by simp
  moreover have "b = of_nat (unat b)" by simp
  ultimately have "b \<in> of_nat ` {192..<256}" by blast
  moreover have "\<forall>n \<in> {192..<256}. (of_nat n :: byte) AND (64 OR 128) = 64 OR 128" by code_simp
  ultimately show "b AND (64 OR 128) = 64 OR 128" by auto
qed (rule byte_ge_192)



section \<open>Names on the wire\<close>

definition label_ok :: "cstring \<Rightarrow> bool" where
  "label_ok l \<longleftrightarrow> l \<noteq> [] \<and> length l < 64 \<and> 0 \<notin> set l"

definition label_wire :: "cstring \<Rightarrow> byte list" where
  "label_wire l = of_nat (length l) # l"

definition name_wire :: "cstring list \<Rightarrow> byte list" where
  "name_wire ls = concat (map label_wire ls) @ [0]"

definition decode_labels :: "(cstring \<Rightarrow> cstring option) \<Rightarrow> cstring list \<Rightarrow> cstring" where
  "decode_labels to_unicode ls = butlast (concat (map (\<lambda>l. unicode_label to_unicode l @ [dot]) ls))"

lemma unat_label_length: "label_ok l \<Longrightarrow> unat (of_nat (length l) :: byte) = length l"
  by (simp add: label_ok_def unat_of_nat)

lemma print_bytes_label: "label_ok l \<Longrightarrow> print_bytes (length l) (l @ rest) = l"
  by (auto simp: print_bytes_def label_ok_def)

lemma parse_labels_wire:
  assumes "\<forall>l \<in> set ls. label_ok l"
  shows "parse_labels to_unicode (pre @ name_wire ls @ rest) depth ret (length pre) =
    Some (length pre + length (name_wire ls),
          Some (butlast (ret @ concat (map (\<lambda>l. unicode_label to_unicode l @ [dot]) ls))))"
  using assms
proof (induction ls arbitrary: pre ret)
  case Nil
  then show ?case by (subst parse_labels.simps) (simp add: name_wire_def nth_append)
next
  case (Cons l ls)
  let ?p = "pre @ name_wire (l # ls) @ rest" and ?len = "of_nat (length l) :: byte"
  have l: "label_ok l" and ls: "\<forall>l \<in> set ls. label_ok l" using Cons.prems by simp_all
  have w: "name_wire (l # ls) = label_wire l @ name_wire ls" by (simp add: name_wire_def)
  have nth: "?p ! length pre = ?len" "drop (length pre + 1) ?p = l @ name_wire ls @ rest"
    by (simp_all add: w label_wire_def nth_append)
  have len: "unat ?len = length l" "?len < 64" "?len \<noteq> 0"
    using unat_label_length [OF l] l
    by (simp_all add: label_ok_def word_less_nat_alt) (metis l label_ok_def length_0_conv unat_0 unat_label_length)
  have fits: "\<not> length ?p \<le> length pre" "\<not> length ?p < length pre + 1 + unat ?len"
    using len(1) by (simp_all add: w label_wire_def name_wire_def)
  have p: "?p = (pre @ label_wire l) @ name_wire ls @ rest" by (simp add: w)
  have off: "length pre + 1 + unat ?len = length (pre @ label_wire l)" using len(1) by (simp add: label_wire_def)
  have "parse_labels to_unicode ?p depth ret (length pre) =
      parse_labels to_unicode ?p depth (ret @ unicode_label to_unicode l @ [dot]) (length pre + 1 + unat ?len)"
    by (subst parse_labels.simps) (simp only: Let_def nth len(2,3) fits [unfolded len(1)] if_False if_True len(1) print_bytes_label [OF l])
  also have "\<dots> = Some (length (pre @ label_wire l) + length (name_wire ls),
      Some (butlast ((ret @ unicode_label to_unicode l @ [dot]) @
        concat (map (\<lambda>l. unicode_label to_unicode l @ [dot]) ls))))"
    unfolding off unfolding p by (rule Cons.IH [OF ls])
  finally show ?case by (simp add: w)
qed

lemma parse_name_wire:
  assumes "\<forall>l \<in> set ls. label_ok l"
  shows "parse_name to_unicode (pre @ name_wire ls @ rest) (length pre) depth =
    Some (length pre + length (name_wire ls), Some (decode_labels to_unicode ls))"
  unfolding parse_name_def decode_labels_def using parse_labels_wire [OF assms, of to_unicode pre rest depth "[]"] by simp

section \<open>What the parser returns\<close>

definition record_typed :: "GNUNET_DNSPARSER_Record \<Rightarrow> bool" where
  "record_typed r \<longleftrightarrow>
     (case r_data r of
        Hostname h \<Rightarrow> h \<noteq> None \<and>
          r_type r \<in> {GNUNET_DNSPARSER_TYPE_NS, GNUNET_DNSPARSER_TYPE_CNAME, GNUNET_DNSPARSER_TYPE_PTR}
      | Soa soa \<Rightarrow> mname soa \<noteq> None \<and> rname soa \<noteq> None \<and> r_type r = GNUNET_DNSPARSER_TYPE_SOA
      | Mx mx \<Rightarrow> r_type r = GNUNET_DNSPARSER_TYPE_MX
      | Srv srv \<Rightarrow> service srv \<noteq> None \<and> proto srv \<noteq> None \<and> domain_name srv \<noteq> None \<and>
          r_type r = GNUNET_DNSPARSER_TYPE_SRV
      | Raw d \<Rightarrow> r_type r \<notin> {GNUNET_DNSPARSER_TYPE_NS, GNUNET_DNSPARSER_TYPE_CNAME, GNUNET_DNSPARSER_TYPE_PTR,
          GNUNET_DNSPARSER_TYPE_SOA, GNUNET_DNSPARSER_TYPE_MX, GNUNET_DNSPARSER_TYPE_SRV}
      | _ \<Rightarrow> False)"

lemma record_typed_free: "record_typed r \<Longrightarrow> free_record r = Some ()"
  by (auto simp: record_typed_def free_record_def free_mx_def free_soa_def free_srv_def split: record_data.splits)

definition srv_bytes :: "byte list \<Rightarrow> bool" where
  "srv_bytes p \<longleftrightarrow> (\<exists>i. Suc i < length p \<and> p ! i = 0 \<and> p ! Suc i = 33)"

lemma get_be16_33: "get_be16 p i = 33 \<Longrightarrow> p ! i = 0 \<and> p ! Suc i = 33"
proof -
  assume a: "get_be16 p i = 33"
  have "be16 (get_be16 p i) = [p ! i, p ! Suc i]"
    using be16_get_be16 [of "[p ! i, p ! Suc i]"] by (simp add: get_be16_def)
  then show ?thesis unfolding a by (simp add: be16_def)
qed

lemma parse_hostname_typed:
  assumes "parse_hostname to_unicode p off n = Some (ret, d, off')"
  shows "\<exists>h. d = Hostname h \<and> (ret = GNUNET_OK \<longrightarrow> h \<noteq> None)"
  using assms by (auto simp: parse_hostname_def bind_eq_Some_conv split: if_splits)

lemma parse_soa_typed:
  assumes "parse_soa to_unicode p off n = Some (ret, d, off')"
  shows "\<exists>soa. d = Soa soa \<and> (ret = GNUNET_OK \<longrightarrow> mname soa \<noteq> None \<and> rname soa \<noteq> None)"
  using assms by (auto simp: parse_soa_def bind_eq_Some_conv Let_def split: if_splits)

lemma parse_mx_typed:
  assumes "parse_mx to_unicode p off n = Some (ret, d, off')"
  shows "(d = Data_zero \<and> ret \<noteq> GNUNET_OK) \<or> (\<exists>mx. d = Mx mx)"
  using assms by (auto simp: parse_mx_def bind_eq_Some_conv split: if_splits)

lemma parse_srv_typed:
  assumes "parse_srv to_unicode name p off n = Some (ret, d, off')" "ret = GNUNET_OK"
  shows "\<exists>srv. d = Srv srv \<and> service srv \<noteq> None \<and> proto srv \<noteq> None \<and> domain_name srv \<noteq> None"
  using assms by (auto simp: parse_srv_def bind_eq_Some_conv split: if_splits option.splits prod.splits)

lemma parse_record_typed:
  assumes "parse_record to_unicode now p off = Some (ret, r, off')"
  shows "(ret = GNUNET_OK \<longrightarrow> record_typed r \<and> r_name r \<noteq> None) \<and>
    (r_type r \<noteq> GNUNET_DNSPARSER_TYPE_SRV \<longrightarrow> free_record r = Some ()) \<and>
    (r_type r = GNUNET_DNSPARSER_TYPE_SRV \<longrightarrow> srv_bytes p)"
proof -
  obtain off1 nm where n: "parse_name to_unicode p off 0 = Some (off1, nm)"
    using assms by (auto simp: parse_record_def bind_eq_Some_conv)
  show ?thesis
  proof (cases "nm = None \<or> length p < off1 + record_line_size")
    case True
    then show ?thesis using assms n
      by (auto simp: parse_record_def record_zero_def free_record_def split: option.splits)
  next
    case False
    then obtain name where name: "nm = Some name" by auto
    let ?t = "get_be16 p off1" and ?n = "unat (get_be16 p (off1 + 8))"
    have srv: "?t = GNUNET_DNSPARSER_TYPE_SRV \<longrightarrow> srv_bytes p"
      using get_be16_33 [of p off1] False unfolding srv_bytes_def by (intro impI exI [of _ off1]) auto
    show ?thesis
    proof (cases "length p < off1 + record_line_size + ?n")
      case True
      then show ?thesis using assms n False srv
        by (auto simp: parse_record_def name Let_def free_record_def free_mx_def free_soa_def)
    next
      case fits: False
      then obtain d off2 where d: "parse_data to_unicode ?t name p (off1 + record_line_size) ?n = Some (ret, d, off2)"
          "r_type r = ?t" "r_data r = d" "r_name r = Some name"
        using assms n False by (auto simp: parse_record_def name Let_def bind_eq_Some_conv)
      show ?thesis using d srv
        by (auto simp: parse_data_def record_typed_def free_record_def free_mx_def free_soa_def
            dest!: parse_hostname_typed parse_soa_typed parse_mx_typed parse_srv_typed split: if_splits record_data.splits)
    qed
  qed
qed

lemma free_records_iff: "free_records rs = Some () \<longleftrightarrow> (\<forall>r \<in> set rs. free_record r = Some ())"
  by (induction rs) (auto simp: bind_eq_Some_conv)







lemma parse_queries_typed:
  "parse_queries to_unicode p n off = Some (True, qs, off') \<Longrightarrow> length qs = n \<and> (\<forall>q \<in> set qs. q_name q \<noteq> None)"
proof (induction n arbitrary: off qs)
  case (Suc n)
  then obtain q off1 qs' where q: "parse_query to_unicode p off = Some (GNUNET_OK, q, off1)"
      "parse_queries to_unicode p n off1 = Some (True, qs', off')" "qs = q # qs'"
    by (auto simp: bind_eq_Some_conv split: if_splits)
  have "q_name q \<noteq> None"
    using q(1) by (auto simp: parse_query_def Let_def bind_eq_Some_conv split: option.splits if_splits)
  then show ?case using Suc.IH [OF q(2)] q(3) by simp
qed simp

lemma parse_records_typed:
  "parse_records to_unicode clk p n off = Some (ok, rs, off') \<Longrightarrow>
    (ok \<longrightarrow> length rs = n \<and> (\<forall>r \<in> set rs. record_typed r \<and> r_name r \<noteq> None)) \<and>
    (\<not> srv_bytes p \<longrightarrow> free_records rs = Some ())"
proof (induction n arbitrary: off clk rs ok)
  case (Suc n)
  then obtain ret r off1 where r: "parse_record to_unicode (clk 0) p off = Some (ret, r, off1)"
    by (auto simp: bind_eq_Some_conv)
  note t = parse_record_typed [OF r]
  show ?case
  proof (cases "ret = GNUNET_OK")
    case False
    then show ?thesis using Suc.prems r t by auto
  next
    case True
    then obtain rs' where rs: "parse_records to_unicode (\<lambda>i. clk (Suc i)) p n off1 = Some (ok, rs', off')" "rs = r # rs'"
      using Suc.prems r by (auto simp: bind_eq_Some_conv)
    then show ?thesis using Suc.IH [OF rs(1)] t True by auto
  qed
qed simp



text \<open>
  C11: What the parser returns is well-typed.  Every query has a name, every record has a name and the member of the
  union that belongs to its type, with the names that the member must have; the numbers of queries and records are those
  that the header of the payload announces; and the packet can be freed.
\<close>

theorem dns_parse_typed:
  assumes "GNUNET_DNSPARSER_parse to_unicode clk p = Some (Some pk)"
  shows "length (queries pk) = unat (get_be16 p 4) \<and> length (answers pk) = unat (get_be16 p 6) \<and>
    length (authority_records pk) = unat (get_be16 p 8) \<and> length (additional_records pk) = unat (get_be16 p 10) \<and>
    (\<forall>q \<in> set (queries pk). q_name q \<noteq> None) \<and>
    (\<forall>r \<in> set (answers pk @ authority_records pk @ additional_records pk). record_typed r \<and> r_name r \<noteq> None) \<and>
    GNUNET_DNSPARSER_free_packet pk = Some ()"
proof -
  obtain qs off0 an off1 au off2 ad off3 where
    q: "parse_queries to_unicode p (unat (get_be16 p 4)) DnsHeader_size = Some (True, qs, off0)" and
    an: "parse_records to_unicode (clk 0) p (unat (get_be16 p 6)) off0 = Some (True, an, off1)" and
    au: "parse_records to_unicode (clk 1) p (unat (get_be16 p 8)) off1 = Some (True, au, off2)" and
    ad: "parse_records to_unicode (clk 2) p (unat (get_be16 p 10)) off2 = Some (True, ad, off3)" and
    pk: "queries pk = qs" "answers pk = an" "authority_records pk = au" "additional_records pk = ad"
    using assms
    by (auto simp: GNUNET_DNSPARSER_parse_def parse_error_def Let_def bind_eq_Some_conv split: if_splits)
  have typed: "\<forall>r \<in> set (an @ au @ ad). record_typed r \<and> r_name r \<noteq> None"
    using parse_records_typed [OF an] parse_records_typed [OF au] parse_records_typed [OF ad] by auto
  then have "free_records an = Some ()" "free_records au = Some ()" "free_records ad = Some ()"
    using record_typed_free by (auto simp: free_records_iff)
  then show ?thesis
    using typed parse_queries_typed [OF q] parse_records_typed [OF an] parse_records_typed [OF au]
      parse_records_typed [OF ad]
    by (simp add: pk GNUNET_DNSPARSER_free_packet_def)
qed

theorem dns_parse_typed_witness:
  "\<exists>pk. GNUNET_DNSPARSER_parse Some (\<lambda>_ _. \<lparr>abs_value = 7\<rparr>)
      [0, 7, 1, 0, 0, 0, 0, 1, 0, 0, 0, 0, 1, 97, 0, 0, 15, 0, 1, 0, 0, 0, 60, 0, 5, 0, 9, 1, 98, 0] = Some (Some pk) \<and>
    length (answers pk) = 1 \<and> record_typed (answers pk ! 0)"
proof -
  let ?p = "[0, 7, 1, 0, 0, 0, 0, 1, 0, 0, 0, 0, 1, 97, 0, 0, 15, 0, 1, 0, 0, 0, 60, 0, 5, 0, 9, 1, 98, 0 :: byte]"
  have "case GNUNET_DNSPARSER_parse Some (\<lambda>_ _. \<lparr>abs_value = 7\<rparr>) ?p of Some (Some pk) \<Rightarrow> True | _ \<Rightarrow> False"
    by code_simp
  then obtain pk where pk: "GNUNET_DNSPARSER_parse Some (\<lambda>_ _. \<lparr>abs_value = 7\<rparr>) ?p = Some (Some pk)"
    by (auto split: option.splits)
  have "unat (get_be16 ?p 6) = 1" by code_simp
  then show ?thesis using dns_parse_typed [OF pk] pk by (auto simp: nth_append)
qed

text \<open>
  C14: A compression pointer whose second byte is missing is not detected.  Every packet that announces a query and ends with
  the first byte of a pointer in place of its name makes the parser read behind the end of the payload.
\<close>

theorem dns_parse_reads_past_end:
  assumes "length header = DnsHeader_size" "get_be16 header 4 \<noteq> 0" "192 \<le> b"
  shows "GNUNET_DNSPARSER_parse to_unicode clk (header @ [b]) = None"
proof -
  let ?p = "header @ [b]"
  have b: "?p ! 12 = b" "length ?p = 13" using assms(1) by (simp_all add: nth_append)
  have "\<not> b < 64" "b \<noteq> 0" using assms(3) by (auto simp: word_le_nat_alt word_less_nat_alt)
  then have "parse_name to_unicode ?p 12 0 = None"
    unfolding parse_name_def
    by (subst parse_labels.simps) (use b byte_ge_192_iff [of b] assms(3) in \<open>simp add: Let_def\<close>)
  then have query: "parse_query to_unicode ?p 12 = None" by (simp add: parse_query_def)
  have "get_be16 ?p 4 = get_be16 header 4" using assms(1) by (simp add: get_be16_def nth_append)
  then obtain n where "unat (get_be16 ?p 4) = Suc n" using assms(2) by (metis not0_implies_Suc unat_eq_zero)
  then show ?thesis using b(2) query by (simp add: GNUNET_DNSPARSER_parse_def)
qed

theorem dns_parse_reads_past_end_witness:
  "GNUNET_DNSPARSER_parse Some (\<lambda>_ _. \<lparr>abs_value = 7\<rparr>) [0, 7, 1, 0, 0, 1, 0, 0, 0, 0, 0, 0, 192] = None"
  using dns_parse_reads_past_end [of "[0, 7, 1, 0, 0, 1, 0, 0, 0, 0, 0, 0]" 192 Some "\<lambda>_ _. \<lparr>abs_value = 7\<rparr>"]
  by (simp add: get_be16_def)

text \<open>
  C13: A malformed SRV record makes the parser free memory twice.  If the first answer of a packet is an SRV record whose name
  is just a service and a protocol, without a domain, then \<^verbatim>\<open>parse_record\<close> frees the record it allocated and reports an error,
  and the clean-up in \<^verbatim>\<open>GNUNET_DNSPARSER_parse\<close> accesses and frees it again.
\<close>

theorem dns_parse_srv_double_free:
  assumes header: "length header = DnsHeader_size" "get_be16 header 4 = 0" "get_be16 header 6 \<noteq> 0"
    and svc: "length svc < 63" "0 \<notin> set svc" "dot \<notin> set svc" "to_unicode (underscore # svc) = Some (underscore # svc)"
    and prot: "length prot < 63" "0 \<notin> set prot" "dot \<notin> set prot"
      "to_unicode (underscore # prot) = Some (underscore # prot)"
    and data: "length data = unat n" "srv_data_size \<le> length data"
  shows "GNUNET_DNSPARSER_parse to_unicode clk
    (header @ name_wire [underscore # svc, underscore # prot] @ be16 GNUNET_DNSPARSER_TYPE_SRV @ be16 c @ be32 ttl @
     be16 n @ data @ rest) = None"
proof -
  let ?ls = "[underscore # svc, underscore # prot]"
  let ?name = "underscore # svc @ dot # underscore # prot"
  let ?pre = "header @ name_wire ?ls"
  let ?tail = "be16 33 @ be16 c @ be32 ttl @ be16 n @ data @ rest"
  let ?p = "header @ name_wire ?ls @ ?tail" and ?o = "12 + length (name_wire ?ls)"
  have ok: "\<forall>l \<in> set ?ls. label_ok l" using svc prot by (simp add: label_ok_def)
  have name: "parse_name to_unicode ?p 12 0 = Some (?o, Some ?name)"
    using parse_name_wire [OF ok, of to_unicode header ?tail 0] header(1) svc(4) prot(4)
    by (simp add: decode_labels_def unicode_label_def butlast_append)
  have f: "get_be16 ?p ?o = 33" "get_be16 ?p (?o + 8) = n" "length ?p = ?o + 10 + unat n + length rest"
    using get_be_append(1) [of ?pre ?tail 0] get_be_append(1) [of "?pre @ be16 33 @ be16 c @ be32 ttl" "be16 n @ data @ rest" 0]
      header(1) data(1)
    by (simp_all add: add_ac)
  have drop: "dropWhile (\<lambda>b. b \<noteq> 46) prot = []" using prot(3) by (auto simp: dropWhile_eq_Nil_conv)
  have "strtok ?name = Some (underscore # svc, underscore # prot)" "strtok (underscore # prot) = Some (underscore # prot, [])"
      "strtok [] = None"
    using svc(3) prot(3) by (auto simp: strtok_def takeWhile_append dropWhile_append drop)
  moreover have "strstr ?name [dot, underscore]"
  proof -
    have "Suc (length svc) \<in> set [0..<Suc (length ?name)]" unfolding set_upt by simp
    moreover have "take (length [dot, underscore]) (List.drop (Suc (length svc)) ?name) = [dot, underscore]" by simp
    ultimately show ?thesis unfolding strstr_def list_ex_iff by blast
  qed
  ultimately have "parse_data to_unicode 33 ?name ?p (?o + 10) (unat n) = Some (GNUNET_SYSERR, Srv_freed, ?o + 16)"
    using data f(3) by (simp add: parse_data_def parse_srv_def)
  then obtain r where r: "parse_record to_unicode (clk 0 0) ?p 12 = Some (GNUNET_SYSERR, r, ?o + 16)" "r_type r = 33"
      "r_data r = Srv_freed"
    using name f by (simp add: parse_record_def Let_def)
  have counts: "get_be16 ?p 4 = 0" "get_be16 ?p 6 = get_be16 header 6"
    using header by (simp_all add: get_be16_def nth_append)
  then obtain m where "unat (get_be16 ?p 6) = Suc m" using header(3) by (metis not0_implies_Suc unat_eq_zero)
  then show ?thesis
    using r f(3) counts(1)
    by (simp add: GNUNET_DNSPARSER_parse_def Let_def parse_error_def GNUNET_DNSPARSER_free_packet_def free_record_def free_srv_def)
qed

theorem dns_parse_srv_double_free_witness:
  "GNUNET_DNSPARSER_parse Some (\<lambda>_ _. \<lparr>abs_value = 7\<rparr>)
    [0, 7, 1, 0, 0, 0, 0, 1, 0, 0, 0, 0, 2, 95, 97, 2, 95, 98, 0, 0, 33, 0, 1, 0, 0, 0, 60, 0, 6, 0, 1, 0, 2, 0, 3] = None"
  using dns_parse_srv_double_free [of "[0, 7, 1, 0, 0, 0, 0, 1, 0, 0, 0, 0]" "[97]" Some "[98]" "[0, 1, 0, 2, 0, 3]" 6
      "\<lambda>_ _. \<lparr>abs_value = 7\<rparr>" 1 60 "[]"]
  by (simp add: get_be16_def name_wire_def label_wire_def be16_def be32_def)

end
