(* ===== verification/Dns_Pack.thy ===== *)
theory Dns_Pack
  imports Dns_Parser
begin

unbundle bit_operations_syntax

text \<open>
  Assembly of DNS packets, the second half of \<^verbatim>\<open>src/src/dns/dnsparser.c\<close>.  The buffer is a list of bytes that
  keeps its length, and a write behind its end is the result \<open>None\<close>, like the access to a member of the union that the record
  does not have.  The offset that the code updates through a pointer is an argument and a result.
\<close>

section \<open>The code\<close>

definition write_bytes :: "byte list \<Rightarrow> nat \<Rightarrow> byte list \<Rightarrow> byte list option" where
  "write_bytes dst pos bs =
     (if pos + length bs \<le> length dst then Some (take pos dst @ bs @ drop (pos + length bs) dst) else None)"

text \<open>The difference of two values of type \<^verbatim>\<open>size_t\<close>.\<close>

definition size_sub :: "nat \<Rightarrow> nat \<Rightarrow> nat" where
  "size_sub m n = (if n \<le> m then m - n else 2 ^ 64 + m - n)"

text \<open>A name up to its first dot, and from there on.\<close>

definition first_label :: "cstring \<Rightarrow> cstring" where
  "first_label name = takeWhile (\<lambda>b. b \<noteq> dot) name"

definition from_dot :: "cstring \<Rightarrow> cstring" where
  "from_dot name = dropWhile (\<lambda>b. b \<noteq> dot) name"

lemma first_label_all: "from_dot name = [] \<Longrightarrow> first_label name = name"
  by (simp add: first_label_def from_dot_def takeWhile_eq_all_conv)

lemma first_label_dot: "from_dot name \<noteq> [] \<Longrightarrow> name = first_label name @ [dot] @ tl (from_dot name)"
  unfolding first_label_def from_dot_def
  by (metis (mono_tags, lifting) append_Cons append_Nil hd_Cons_tl hd_dropWhile takeWhile_dropWhile_id)

lemma length_first_label: "from_dot name \<noteq> [] \<Longrightarrow> length name = length (first_label name) + 1 + length (tl (from_dot name))"
  using arg_cong [OF first_label_dot, of name length] by simp

function add_labels :: "byte list \<Rightarrow> nat \<Rightarrow> cstring \<Rightarrow> (int \<times> byte list \<times> nat) option" where
  "add_labels dst pos name =
     (let label = first_label name;
          rest = from_dot name in
      if 64 \<le> length label \<or> label = [] then Some (GNUNET_NO, dst, pos)
      else do {
        dst1 \<leftarrow> write_bytes dst pos [of_nat (length label)];
        dst2 \<leftarrow> write_bytes dst1 (pos + 1) label;
        if rest = [] then do {
          dst3 \<leftarrow> write_bytes dst2 (pos + 1 + length label) [0];
          Some (GNUNET_OK, dst3, pos + 1 + length label + 1)
        }
        else add_labels dst2 (pos + 1 + length label) (tl rest)
      })"
  by pat_completeness auto
termination
  by (relation "measure (\<lambda>(_, _, name). length name)") (auto dest: length_first_label)

declare add_labels.simps [simp del]

definition add_name ::
    "(cstring \<Rightarrow> cstring option) \<Rightarrow> byte list \<Rightarrow> nat \<Rightarrow> nat \<Rightarrow> cstring option \<Rightarrow> (int \<times> byte list \<times> nat) option" where
  "add_name to_ascii dst dst_len off name =
     (case name of
        None \<Rightarrow> Some (GNUNET_SYSERR, dst, off)
      | Some nm \<Rightarrow>
          (case to_ascii nm of
             None \<Rightarrow> Some (GNUNET_NO, dst, off)
           | Some idna_name \<Rightarrow>
               if dst_len < off + length idna_name + 2 then Some (GNUNET_NO, dst, off)
               else do {
                 (ret, dst1, pos) \<leftarrow> add_labels dst off idna_name;
                 Some (ret, dst1, if ret = GNUNET_OK then pos else off)
               }))"

definition add_query ::
    "(cstring \<Rightarrow> cstring option) \<Rightarrow> byte list \<Rightarrow> nat \<Rightarrow> nat \<Rightarrow> GNUNET_DNSPARSER_Query \<Rightarrow> (int \<times> byte list \<times> nat) option" where
  "add_query to_ascii dst dst_len off q =
     do {
       (ret, dst1, off1) \<leftarrow> add_name to_ascii dst (size_sub dst_len query_line_size) off (q_name q);
       if ret \<noteq> GNUNET_OK then Some (ret, dst1, off1)
       else do {
         dst2 \<leftarrow> write_bytes dst1 off1 (be16 (q_type q) @ be16 (q_class q));
         Some (GNUNET_OK, dst2, off1 + query_line_size)
       }
     }"

definition add_mx ::
    "(cstring \<Rightarrow> cstring option) \<Rightarrow> byte list \<Rightarrow> nat \<Rightarrow> nat \<Rightarrow> GNUNET_DNSPARSER_MxRecord \<Rightarrow> (int \<times> byte list \<times> nat) option" where
  "add_mx to_ascii dst dst_len off mx =
     (if dst_len < off + 2 then Some (GNUNET_NO, dst, off)
      else do {
        dst1 \<leftarrow> write_bytes dst off (be16 (preference mx));
        add_name to_ascii dst1 dst_len (off + 2) (mxhost mx)
      })"

definition add_soa ::
    "(cstring \<Rightarrow> cstring option) \<Rightarrow> byte list \<Rightarrow> nat \<Rightarrow> nat \<Rightarrow> GNUNET_DNSPARSER_SoaRecord \<Rightarrow> (int \<times> byte list \<times> nat) option" where
  "add_soa to_ascii dst dst_len off soa =
     do {
       (ret1, dst1, off1) \<leftarrow> add_name to_ascii dst dst_len off (mname soa);
       if ret1 \<noteq> GNUNET_OK then Some (ret1, dst1, off1)
       else do {
         (ret2, dst2, off2) \<leftarrow> add_name to_ascii dst1 dst_len off1 (rname soa);
         if ret2 \<noteq> GNUNET_OK then Some (ret2, dst2, off2)
         else if dst_len < off2 + soa_data_size then Some (GNUNET_NO, dst2, off2)
         else do {
           dst3 \<leftarrow> write_bytes dst2 off2 (be32 (serial soa) @ be32 (refresh soa) @ be32 (retry soa) @ be32 (expire soa) @
                                     be32 (minimum_ttl soa));
           Some (GNUNET_OK, dst3, off2 + soa_data_size)
         }
       }
     }"

definition add_srv ::
    "(cstring \<Rightarrow> cstring option) \<Rightarrow> byte list \<Rightarrow> nat \<Rightarrow> nat \<Rightarrow> GNUNET_DNSPARSER_SrvRecord \<Rightarrow> (int \<times> byte list \<times> nat) option" where
  "add_srv to_ascii dst dst_len off srv =
     (if dst_len < off + srv_data_size then Some (GNUNET_NO, dst, off)
      else do {
        dst1 \<leftarrow> write_bytes dst off (be16 (priority srv) @ be16 (weight srv) @ be16 (port srv));
        add_name to_ascii dst1 dst_len (off + srv_data_size) (target srv)
      })"

definition add_data ::
    "(cstring \<Rightarrow> cstring option) \<Rightarrow> byte list \<Rightarrow> nat \<Rightarrow> nat \<Rightarrow> GNUNET_DNSPARSER_Record \<Rightarrow> (int \<times> byte list \<times> nat) option" where
  "add_data to_ascii dst dst_len pos r =
     (if r_type r = GNUNET_DNSPARSER_TYPE_MX
      then (case r_data r of Mx mx \<Rightarrow> add_mx to_ascii dst dst_len pos mx | _ \<Rightarrow> None)
      else if r_type r = GNUNET_DNSPARSER_TYPE_SOA
      then (case r_data r of Soa soa \<Rightarrow> add_soa to_ascii dst dst_len pos soa | _ \<Rightarrow> None)
      else if r_type r \<in> {GNUNET_DNSPARSER_TYPE_NS, GNUNET_DNSPARSER_TYPE_CNAME, GNUNET_DNSPARSER_TYPE_PTR}
      then (case r_data r of Hostname h \<Rightarrow> add_name to_ascii dst dst_len pos h | _ \<Rightarrow> None)
      else if r_type r = GNUNET_DNSPARSER_TYPE_SRV
      then (case r_data r of Srv srv \<Rightarrow> add_srv to_ascii dst dst_len pos srv | _ \<Rightarrow> None)
      else (case r_data r of
              Raw d \<Rightarrow> if dst_len < pos + length d then Some (GNUNET_NO, dst, pos)
                      else do { dst1 \<leftarrow> write_bytes dst pos d; Some (GNUNET_OK, dst1, pos + length d) }
            | _ \<Rightarrow> None))"

text \<open>The name of an SRV record may be left to the library.\<close>

definition record_name :: "GNUNET_DNSPARSER_Record \<Rightarrow> cstring option option" where
  "record_name r =
     (if r_type r = GNUNET_DNSPARSER_TYPE_SRV \<and> r_name r = None
      then (case r_data r of
              Srv srv \<Rightarrow>
                (case (service srv, proto srv, domain_name srv) of
                   (Some s, Some p, Some d) \<Rightarrow> Some (Some ([underscore] @ s @ [dot, underscore] @ p @ [dot] @ d))
                 | _ \<Rightarrow> None)
            | _ \<Rightarrow> None)
      else Some (r_name r))"

definition record_ttl :: "GNUNET_TIME_Absolute \<Rightarrow> GNUNET_DNSPARSER_Record \<Rightarrow> u32" where
  "record_ttl now r = ucast (rel_value (GNUNET_TIME_absolute_get_remaining now (expiration_time r)) div 1000)"

definition add_record ::
    "(cstring \<Rightarrow> cstring option) \<Rightarrow> GNUNET_TIME_Absolute \<Rightarrow> byte list \<Rightarrow> nat \<Rightarrow> nat \<Rightarrow> GNUNET_DNSPARSER_Record \<Rightarrow>
     (int \<times> byte list \<times> nat) option" where
  "add_record to_ascii now dst dst_len start r =
     do {
       name \<leftarrow> record_name r;
       (ret, dst1, off) \<leftarrow> add_name to_ascii dst (size_sub dst_len record_line_size) start name;
       if ret \<noteq> GNUNET_OK then Some (ret, dst1, off)
       else do {
         (ret2, dst2, pos) \<leftarrow> add_data to_ascii dst1 dst_len (off + record_line_size) r;
         if ret2 \<noteq> GNUNET_OK then Some (GNUNET_NO, dst2, start)
         else if 65535 < pos - (off + record_line_size) then Some (GNUNET_NO, dst2, start)
         else do {
           dst3 \<leftarrow> write_bytes dst2 off (be16 (r_type r) @ be16 (r_class r) @ be32 (record_ttl now r) @
                                    be16 (of_nat (pos - (off + record_line_size))));
           Some (GNUNET_OK, dst3, pos)
         }
       }
     }"

text \<open>
  The loops over queries and records.  The last component of the result is the number of the element that did not fit, if
  there is one.
\<close>

fun add_queries ::
    "(cstring \<Rightarrow> cstring option) \<Rightarrow> byte list \<Rightarrow> nat \<Rightarrow> nat \<Rightarrow> GNUNET_DNSPARSER_Query list \<Rightarrow>
     (int \<times> byte list \<times> nat \<times> nat option) option" where
  "add_queries to_ascii dst off i [] = Some (GNUNET_OK, dst, off, None)"
| "add_queries to_ascii dst off i (q # qs) =
     do {
       (ret, dst1, off1) \<leftarrow> add_query to_ascii dst (length dst) off q;
       if ret = GNUNET_SYSERR then Some (GNUNET_SYSERR, dst1, off1, None)
       else if ret = GNUNET_NO then Some (GNUNET_OK, dst1, off1, Some i)
       else add_queries to_ascii dst1 off1 (Suc i) qs
     }"

fun add_records ::
    "(cstring \<Rightarrow> cstring option) \<Rightarrow> (nat \<Rightarrow> GNUNET_TIME_Absolute) \<Rightarrow> byte list \<Rightarrow> nat \<Rightarrow> nat \<Rightarrow>
     GNUNET_DNSPARSER_Record list \<Rightarrow> (int \<times> byte list \<times> nat \<times> nat option) option" where
  "add_records to_ascii clk dst off i [] = Some (GNUNET_OK, dst, off, None)"
| "add_records to_ascii clk dst off i (r # rs) =
     do {
       (ret, dst1, off1) \<leftarrow> add_record to_ascii (clk i) dst (length dst) off r;
       if ret = GNUNET_SYSERR then Some (GNUNET_SYSERR, dst1, off1, None)
       else if ret = GNUNET_NO then Some (GNUNET_OK, dst1, off1, Some i)
       else add_records to_ascii clk dst1 off1 (Suc i) rs
     }"

text \<open>The counter of a section in the header, given the number of the first element that did not fit.\<close>

definition section_count :: "nat \<Rightarrow> nat option \<Rightarrow> u16" where
  "section_count n miss = (case miss of None \<Rightarrow> of_nat n | Some i \<Rightarrow> of_nat i - 1)"

definition dns_header :: "byte list \<Rightarrow> GNUNET_DNSPARSER_Flags \<Rightarrow> u16 \<Rightarrow> u16 \<Rightarrow> u16 \<Rightarrow> u16 \<Rightarrow> byte list" where
  "dns_header pid fl qc ac auc adc = pid @ bytes_of_flags fl @ be16 qc @ be16 ac @ be16 auc @ be16 adc"

definition finish_packet :: "GNUNET_DNSPARSER_Packet \<Rightarrow> byte list \<Rightarrow> nat \<Rightarrow> nat option \<Rightarrow> nat option \<Rightarrow> nat option \<Rightarrow> nat option \<Rightarrow>
     (int \<times> byte list) option" where
  "finish_packet pk tmp off c0 c1 c2 c3 =
     (let trc = \<not> (c0 = None \<and> c1 = None \<and> c2 = None \<and> c3 = None);
          fl = (if trc then (flags pk)\<lparr>message_truncated := True\<rparr> else flags pk) in
      do {
        tmp1 \<leftarrow> write_bytes tmp 0 (dns_header (packet_id pk) fl (section_count (length (queries pk)) c0)
                 (section_count (length (answers pk)) c1) (section_count (length (authority_records pk)) c2)
                 (section_count (length (additional_records pk)) c3));
        if length tmp1 < off then None
        else Some (if trc then GNUNET_NO else GNUNET_OK, take off tmp1)
      })"

text \<open>\<open>tmp\<close> is the content of the uninitialised local buffer, whose length is the argument \<^verbatim>\<open>max\<close> of the function.\<close>

definition GNUNET_DNSPARSER_pack ::
    "(cstring \<Rightarrow> cstring option) \<Rightarrow> (nat \<Rightarrow> nat \<Rightarrow> GNUNET_TIME_Absolute) \<Rightarrow> byte list \<Rightarrow> GNUNET_DNSPARSER_Packet \<Rightarrow>
     (int \<times> byte list) option" where
  "GNUNET_DNSPARSER_pack to_ascii clk tmp pk =
     (if 65535 < length (queries pk) \<or> 65535 < length (answers pk) \<or> 65535 < length (authority_records pk) \<or>
         65535 < length (additional_records pk)
      then Some (GNUNET_SYSERR, [])
      else do {
        (ret0, tmp0, off0, c0) \<leftarrow> add_queries to_ascii tmp DnsHeader_size 0 (queries pk);
        if ret0 = GNUNET_SYSERR then Some (GNUNET_SYSERR, []) else do {
        (ret1, tmp1, off1, c1) \<leftarrow> add_records to_ascii (clk 0) tmp0 off0 0 (answers pk);
        if ret1 = GNUNET_SYSERR then Some (GNUNET_SYSERR, []) else do {
        (ret2, tmp2, off2, c2) \<leftarrow> add_records to_ascii (clk 1) tmp1 off1 0 (authority_records pk);
        if ret2 = GNUNET_SYSERR then Some (GNUNET_SYSERR, []) else do {
        (ret3, tmp3, off3, c3) \<leftarrow> add_records to_ascii (clk 2) tmp2 off2 0 (additional_records pk);
        if ret3 = GNUNET_SYSERR then Some (GNUNET_SYSERR, [])
        else finish_packet pk tmp3 off3 c0 c1 c2 c3 }}}})"

section \<open>Bytes appended to a buffer\<close>

text \<open>
  What every operation of the assembly promises: it keeps the length of the buffer and everything before its offset, and if
  it succeeds, it puts bytes that satisfy \<open>W\<close> at its offset and moves the offset behind them, at most to \<open>lim\<close>.
\<close>

definition appends ::
    "byte list \<Rightarrow> nat \<Rightarrow> nat \<Rightarrow> (byte list \<Rightarrow> bool) \<Rightarrow> (int \<times> byte list \<times> nat) option \<Rightarrow> bool" where
  "appends dst lim off W res \<longleftrightarrow>
     (\<exists>ret dst' off'. res = Some (ret, dst', off') \<and> length dst' = length dst \<and> take off dst' = take off dst \<and>
        ret \<in> {GNUNET_OK, GNUNET_NO, GNUNET_SYSERR} \<and>
        (ret = GNUNET_OK \<longrightarrow>
          (\<exists>bs. W bs \<and> off' = off + length bs \<and> off' \<le> lim \<and> take off' dst' = take off dst @ bs)))"

lemma appendsI:
  assumes "res = Some (ret, dst', off')" "length dst' = length dst" "take off dst' = take off dst"
    and "ret \<in> {GNUNET_OK, GNUNET_NO, GNUNET_SYSERR}"
    and "ret = GNUNET_OK \<Longrightarrow> \<exists>bs. W bs \<and> off' = off + length bs \<and> off' \<le> lim \<and> take off' dst' = take off dst @ bs"
  shows "appends dst lim off W res"
  using assms unfolding appends_def by blast

lemma appendsE:
  assumes "appends dst lim off W res"
  obtains ret dst' off' where "res = Some (ret, dst', off')" "length dst' = length dst" "take off dst' = take off dst"
    "ret \<in> {GNUNET_OK, GNUNET_NO, GNUNET_SYSERR}"
    "ret = GNUNET_OK \<Longrightarrow> \<exists>bs. W bs \<and> off' = off + length bs \<and> off' \<le> lim \<and> take off' dst' = take off dst @ bs"
  using assms unfolding appends_def by blast

lemma write_bytes_Some:
  assumes "pos + length bs \<le> length dst"
  obtains dst' where "write_bytes dst pos bs = Some dst'" "length dst' = length dst" "take pos dst' = take pos dst"
    "take (pos + length bs) dst' = take pos dst @ bs" "drop (pos + length bs) dst' = drop (pos + length bs) dst"
  using assms by (intro that [of "take pos dst @ bs @ drop (pos + length bs) dst"]) (simp_all add: write_bytes_def)

lemma take_take_eq:
  assumes "take n xs = take n ys" "m \<le> n"
  shows "take m xs = take m ys"
  using assms by (metis min.absorb1 take_take)

section \<open>The labels of a name\<close>

function labels :: "cstring \<Rightarrow> cstring list" where
  "labels name = first_label name # (if from_dot name = [] then [] else labels (tl (from_dot name)))"
  by pat_completeness auto
termination
  by (relation "measure length") (auto dest: length_first_label)

declare labels.simps [simp del]

lemma name_wire_labels:
  "name_wire (labels name) =
     label_wire (first_label name) @ (if from_dot name = [] then [0] else name_wire (labels (tl (from_dot name))))"
  by (subst labels.simps) (simp add: name_wire_def)

lemma length_name_wire: "length (name_wire (labels name)) = length name + 2"
proof (induction name rule: labels.induct)
  case (1 name)
  then show ?case
    using length_first_label [of name] first_label_all [of name]
    by (subst name_wire_labels) (auto simp: label_wire_def)
qed


definition name_ok :: "cstring \<Rightarrow> bool" where
  "name_ok name \<longleftrightarrow> (\<forall>l \<in> set (labels name). l \<noteq> [] \<and> length l < 64)"

lemma name_ok_first:
  "name_ok name \<longleftrightarrow> first_label name \<noteq> [] \<and> length (first_label name) < 64 \<and>
     (from_dot name \<noteq> [] \<longrightarrow> name_ok (tl (from_dot name)))"
  unfolding name_ok_def by (subst labels.simps) auto

lemma add_labels_spec:
  "pos + length name + 2 \<le> length dst \<Longrightarrow>
   \<exists>ret dst' pos'. add_labels dst pos name = Some (ret, dst', pos') \<and> length dst' = length dst \<and> take pos dst' = take pos dst \<and>
     (if name_ok name
      then ret = GNUNET_OK \<and> pos' = pos + length name + 2 \<and> take pos' dst' = take pos dst @ name_wire (labels name)
      else ret = GNUNET_NO)"
proof (induction dst pos name rule: add_labels.induct)
  case (1 dst pos name)
  let ?l = "first_label name" and ?r = "from_dot name"
  show ?case
  proof (cases "64 \<le> length ?l \<or> ?l = []")
    case True
    then have "\<not> name_ok name" by (auto simp: name_ok_first [of name])
    then show ?thesis using True by (subst add_labels.simps) (simp add: Let_def)
  next
    case False
    have len: "pos + 1 + length ?l + 1 \<le> length dst"
      using 1(2) length_first_label [of name] first_label_all [of name] by (cases "?r = []") auto
    obtain dst1 where d1: "write_bytes dst pos [of_nat (length ?l)] = Some dst1" "length dst1 = length dst"
        "take pos dst1 = take pos dst" "take (pos + 1) dst1 = take pos dst @ [of_nat (length ?l)]"
      using write_bytes_Some [of pos "[of_nat (length ?l)]" dst] len by auto
    obtain dst2 where d2: "write_bytes dst1 (pos + 1) ?l = Some dst2" "length dst2 = length dst"
        "take (pos + 1) dst2 = take (pos + 1) dst1"
        "take (pos + 1 + length ?l) dst2 = take (pos + 1) dst1 @ ?l"
      using write_bytes_Some [of "pos + 1" ?l dst1] len d1(2) by auto
    have pre: "take (pos + 1 + length ?l) dst2 = take pos dst @ label_wire ?l"
      unfolding d2(4) d1(4) by (simp add: label_wire_def)
    have keep: "take pos dst2 = take pos dst" using take_take_eq [OF d2(3), of pos] d1(3) by simp
    show ?thesis
    proof (cases "?r = []")
      case True
      obtain dst3 where d3: "write_bytes dst2 (pos + 1 + length ?l) [0] = Some dst3" "length dst3 = length dst"
          "take (pos + 1 + length ?l) dst3 = take (pos + 1 + length ?l) dst2"
          "take (pos + 1 + length ?l + 1) dst3 = take (pos + 1 + length ?l) dst2 @ [0]"
        using write_bytes_Some [of "pos + 1 + length ?l" "[0]" dst2] len d2(2) by auto
      have "add_labels dst pos name = Some (GNUNET_OK, dst3, pos + 1 + length ?l + 1)"
        using False True d1(1) d2(1) d3(1) by (subst add_labels.simps) (simp add: Let_def)
      moreover have "name_ok name" using False True by (auto simp: name_ok_first [of name])
      moreover have "take pos dst3 = take pos dst" using take_take_eq [OF d3(3), of pos] keep by simp
      moreover have "take (pos + 1 + length ?l + 1) dst3 = take pos dst @ name_wire (labels name)"
        using d3(4) pre True by (simp add: name_wire_labels [of name])
      ultimately show ?thesis using d3(2) first_label_all [OF True] by simp
    next
      case more: False
      note n = length_first_label [OF more]
      have step: "add_labels dst pos name = add_labels dst2 (pos + 1 + length ?l) (tl ?r)"
        using False more d1(1) d2(1) by (subst add_labels.simps) (simp add: Let_def)
      obtain ret dst' pos' where r: "add_labels dst2 (pos + 1 + length ?l) (tl ?r) = Some (ret, dst', pos')"
          "length dst' = length dst2" "take (pos + 1 + length ?l) dst' = take (pos + 1 + length ?l) dst2"
          "if name_ok (tl ?r)
           then ret = GNUNET_OK \<and> pos' = pos + 1 + length ?l + length (tl ?r) + 2 \<and>
             take pos' dst' = take (pos + 1 + length ?l) dst2 @ name_wire (labels (tl ?r))
           else ret = GNUNET_NO"
        using "1.IH" [OF refl refl False d1(1) d2(1) more] 1(2) d2(2) n by auto
      have "name_ok name \<longleftrightarrow> name_ok (tl ?r)" using False more by (auto simp: name_ok_first [of name])
      moreover have "take pos dst' = take pos dst" using take_take_eq [OF r(3), of pos] keep by simp
      moreover have "ret = GNUNET_OK \<and> pos' = pos + length name + 2 \<and> take pos' dst' = take pos dst @ name_wire (labels name)"
        if "name_ok (tl ?r)"
      proof -
        have "pos' = pos + 1 + length ?l + length (tl ?r) + 2" "ret = GNUNET_OK"
            "take pos' dst' = take (pos + 1 + length ?l) dst2 @ name_wire (labels (tl ?r))"
          using r(4) unfolding if_P [OF that] by blast+
        then show ?thesis unfolding pre n using more by (simp add: name_wire_labels [of name] del: length_tl)
      qed
      ultimately show ?thesis unfolding step r(1) using r(2,4) d2(2) by simp
    qed
  qed
qed

section \<open>Names, queries and records on the wire\<close>

definition name_bytes :: "(cstring \<Rightarrow> cstring option) \<Rightarrow> cstring option \<Rightarrow> byte list \<Rightarrow> bool" where
  "name_bytes to_ascii name bs \<longleftrightarrow>
     (\<exists>n a. name = Some n \<and> to_ascii n = Some a \<and> name_ok a \<and> bs = name_wire (labels a))"

lemma add_name_appends:
  assumes "dst_len \<le> length dst"
  shows "appends dst dst_len off (name_bytes to_ascii name) (add_name to_ascii dst dst_len off name)"
proof (cases "\<exists>n a. name = Some n \<and> to_ascii n = Some a \<and> off + length a + 2 \<le> dst_len")
  case False
  then have "\<exists>ret. add_name to_ascii dst dst_len off name = Some (ret, dst, off) \<and> ret \<in> {GNUNET_NO, GNUNET_SYSERR}"
    by (auto simp: add_name_def split: option.splits)
  then show ?thesis by (auto simp: appends_def)
next
  case True
  then obtain n a where a: "name = Some n" "to_ascii n = Some a" "off + length a + 2 \<le> dst_len" by blast
  obtain ret dst' pos where l: "add_labels dst off a = Some (ret, dst', pos)" "length dst' = length dst"
      "take off dst' = take off dst"
      "if name_ok a then ret = GNUNET_OK \<and> pos = off + length a + 2 \<and> take pos dst' = take off dst @ name_wire (labels a)
       else ret = GNUNET_NO"
    using add_labels_spec [of off a dst] a(3) assms by auto
  show ?thesis
  proof (rule appendsI)
    show "add_name to_ascii dst dst_len off name = Some (ret, dst', if ret = GNUNET_OK then pos else off)"
      using a l(1) by (simp add: add_name_def)
    show "ret \<in> {GNUNET_OK, GNUNET_NO, GNUNET_SYSERR}" using l(4) by (auto split: if_splits)
    show "\<exists>bs. name_bytes to_ascii name bs \<and> (if ret = GNUNET_OK then pos else off) = off + length bs \<and>
        (if ret = GNUNET_OK then pos else off) \<le> dst_len \<and>
        take (if ret = GNUNET_OK then pos else off) dst' = take off dst @ bs" if "ret = GNUNET_OK"
      using that l(4) a by (intro exI [of _ "name_wire (labels a)"]) (auto simp: name_bytes_def length_name_wire split: if_splits)
  qed (fact l)+
qed

text \<open>Steps of a sequence of writes.\<close>

lemma appends_mono:
  assumes "appends dst lim off W res" "lim \<le> lim'" "\<And>bs. W bs \<Longrightarrow> W' bs"
  shows "appends dst lim' off W' res"
  using assms(1) unfolding appends_def using assms(2,3) le_trans by blast

lemma appends_write:
  assumes "off + length bs \<le> length dst"
    and "\<And>dst'. length dst' = length dst \<Longrightarrow> appends dst' lim (off + length bs) W (f dst')"
    and "\<And>cs. W cs \<Longrightarrow> W' (bs @ cs)"
  shows "appends dst lim off W' (write_bytes dst off bs \<bind> f)"
proof -
  obtain d where d: "write_bytes dst off bs = Some d" "length d = length dst" "take off d = take off dst"
      "take (off + length bs) d = take off dst @ bs"
    using write_bytes_Some [OF assms(1)] by metis
  obtain ret dst' off' where r: "f d = Some (ret, dst', off')" "length dst' = length d"
      "take (off + length bs) dst' = take (off + length bs) d" "ret \<in> {GNUNET_OK, GNUNET_NO, GNUNET_SYSERR}"
      "ret = GNUNET_OK \<Longrightarrow> \<exists>cs. W cs \<and> off' = off + length bs + length cs \<and> off' \<le> lim \<and>
        take off' dst' = take (off + length bs) d @ cs"
    using appendsE [OF assms(2) [OF d(2)]] by metis
  show ?thesis
  proof (rule appendsI)
    show "write_bytes dst off bs \<bind> f = Some (ret, dst', off')" using d(1) r(1) by simp
    show "length dst' = length dst" using r(2) d(2) by simp
    show "take off dst' = take off dst" using take_take_eq [OF r(3), of off] d(3) by simp
    show "\<exists>bs. W' bs \<and> off' = off + length bs \<and> off' \<le> lim \<and> take off' dst' = take off dst @ bs" if ok: "ret = GNUNET_OK"
    proof -
      obtain cs where cs: "W cs" "off' = off + length bs + length cs" "off' \<le> lim"
          "take off' dst' = take (off + length bs) d @ cs"
        using r(5) [OF ok] by blast
      then show ?thesis using assms(3) [OF cs(1)] d(4) by (intro exI [of _ "bs @ cs"]) simp
    qed
  qed (fact r)
qed

lemma appends_bind:
  assumes "appends dst lim off V res"
    and "\<And>bs dst'. V bs \<Longrightarrow> length dst' = length dst \<Longrightarrow> off + length bs \<le> lim \<Longrightarrow>
      appends dst' lim' (off + length bs) W (f dst' (off + length bs))"
    and "\<And>bs cs. V bs \<Longrightarrow> W cs \<Longrightarrow> W' (bs @ cs)"
  shows "appends dst lim' off W'
    (res \<bind> (\<lambda>(ret, dst', off'). if ret \<noteq> GNUNET_OK then Some (ret, dst', off') else f dst' off'))"
proof -
  obtain ret d o1 where r: "res = Some (ret, d, o1)" "length d = length dst" "take off d = take off dst"
      "ret \<in> {GNUNET_OK, GNUNET_NO, GNUNET_SYSERR}"
      "ret = GNUNET_OK \<Longrightarrow> \<exists>bs. V bs \<and> o1 = off + length bs \<and> o1 \<le> lim \<and> take o1 d = take off dst @ bs"
    using appendsE [OF assms(1)] by metis
  show ?thesis
  proof (cases "ret = GNUNET_OK")
    case False
    then show ?thesis using r by (auto intro!: appendsI)
  next
    case True
    obtain bs where bs: "V bs" "o1 = off + length bs" "o1 \<le> lim" "take o1 d = take off dst @ bs" using r(5) [OF True] by blast
    obtain ret2 d2 o2 where s: "f d o1 = Some (ret2, d2, o2)" "length d2 = length d" "take o1 d2 = take o1 d"
        "ret2 \<in> {GNUNET_OK, GNUNET_NO, GNUNET_SYSERR}"
        "ret2 = GNUNET_OK \<Longrightarrow> \<exists>cs. W cs \<and> o2 = o1 + length cs \<and> o2 \<le> lim' \<and> take o2 d2 = take o1 d @ cs"
      using appendsE [OF assms(2) [OF bs(1) r(2)]] bs(2,3) by metis
    show ?thesis
    proof (rule appendsI)
      show "(res \<bind> (\<lambda>(ret, dst', off'). if ret \<noteq> GNUNET_OK then Some (ret, dst', off') else f dst' off')) = Some (ret2, d2, o2)"
        using r(1) s(1) True by simp
      show "length d2 = length dst" using s(2) r(2) by simp
      show "take off d2 = take off dst" using take_take_eq [OF s(3), of off] r(3) bs(2) by simp
      show "\<exists>bs. W' bs \<and> o2 = off + length bs \<and> o2 \<le> lim' \<and> take o2 d2 = take off dst @ bs" if ok: "ret2 = GNUNET_OK"
      proof -
        obtain cs where "W cs" "o2 = o1 + length cs" "o2 \<le> lim'" "take o2 d2 = take o1 d @ cs" using s(5) [OF ok] by blast
        then show ?thesis using assms(3) [OF bs(1)] bs(2,4) by (intro exI [of _ "bs @ cs"]) simp
      qed
    qed (fact s)
  qed
qed

lemma appends_done: "off \<le> lim \<Longrightarrow> W [] \<Longrightarrow> appends dst lim off W (Some (GNUNET_OK, dst, off))"
  by (simp add: appends_def)

lemma appends_fail:
  "ret \<in> {GNUNET_NO, GNUNET_SYSERR} \<Longrightarrow> appends dst lim off W (Some (ret, dst, off'))"
  by (auto simp: appends_def)

lemma size_sub_le: "n \<le> m \<Longrightarrow> size_sub m n = m - n"
  by (simp add: size_sub_def)

definition query_bytes :: "(cstring \<Rightarrow> cstring option) \<Rightarrow> GNUNET_DNSPARSER_Query \<Rightarrow> byte list \<Rightarrow> bool" where
  "query_bytes to_ascii q bs \<longleftrightarrow>
     (\<exists>nb. name_bytes to_ascii (q_name q) nb \<and> bs = nb @ be16 (q_type q) @ be16 (q_class q))"

lemma add_query_appends:
  assumes "DnsHeader_size \<le> length dst"
  shows "appends dst (length dst) off (query_bytes to_ascii q) (add_query to_ascii dst (length dst) off q)"
  unfolding add_query_def
proof (rule appends_bind [where V = "name_bytes to_ascii (q_name q)" and W = "\<lambda>bs. bs = be16 (q_type q) @ be16 (q_class q)"
      and f = "\<lambda>d o1. write_bytes d o1 (be16 (q_type q) @ be16 (q_class q)) \<bind> (\<lambda>d2. Some (GNUNET_OK, d2, o1 + query_line_size))"])
  show "appends dst (length dst - 4) off (name_bytes to_ascii (q_name q))
      (add_name to_ascii dst (size_sub (length dst) query_line_size) off (q_name q))"
    using add_name_appends [of "length dst - 4" dst off to_ascii "q_name q"] assms by (simp add: size_sub_le)
next
  fix bs dst' :: "byte list"
  assume "length dst' = length dst" "off + length bs \<le> length dst - 4"
  then show "appends dst' (length dst) (off + length bs) (\<lambda>bs. bs = be16 (q_type q) @ be16 (q_class q))
      (write_bytes dst' (off + length bs) (be16 (q_type q) @ be16 (q_class q)) \<bind>
       (\<lambda>d2. Some (GNUNET_OK, d2, off + length bs + query_line_size)))"
    using assms by (intro appends_write [where W = "\<lambda>bs. bs = []"]) (auto simp: appends_def)
qed (auto simp: query_bytes_def)

definition mx_bytes :: "(cstring \<Rightarrow> cstring option) \<Rightarrow> GNUNET_DNSPARSER_MxRecord \<Rightarrow> byte list \<Rightarrow> bool" where
  "mx_bytes to_ascii mx bs \<longleftrightarrow> (\<exists>nb. name_bytes to_ascii (mxhost mx) nb \<and> bs = be16 (preference mx) @ nb)"

lemma add_mx_appends:
  "appends dst (length dst) off (mx_bytes to_ascii mx) (add_mx to_ascii dst (length dst) off mx)"
proof (cases "length dst < off + 2")
  case False
  have "appends dst (length dst) off (mx_bytes to_ascii mx)
      (write_bytes dst off (be16 (preference mx)) \<bind> (\<lambda>d. add_name to_ascii d (length dst) (off + 2) (mxhost mx)))"
  proof (rule appends_write [where W = "name_bytes to_ascii (mxhost mx)"])
    fix dst' :: "byte list"
    assume "length dst' = length dst"
    then show "appends dst' (length dst) (off + length (be16 (preference mx))) (name_bytes to_ascii (mxhost mx))
        (add_name to_ascii dst' (length dst) (off + 2) (mxhost mx))"
      using add_name_appends [of "length dst" dst' "off + 2" to_ascii "mxhost mx"] by simp
  qed (use False in \<open>auto simp: mx_bytes_def\<close>)
  then show ?thesis using False by (simp add: add_mx_def)
qed (simp add: add_mx_def appends_fail)

definition srv_wire :: "(cstring \<Rightarrow> cstring option) \<Rightarrow> GNUNET_DNSPARSER_SrvRecord \<Rightarrow> byte list \<Rightarrow> bool" where
  "srv_wire to_ascii srv bs \<longleftrightarrow>
     (\<exists>nb. name_bytes to_ascii (target srv) nb \<and> bs = (be16 (priority srv) @ be16 (weight srv) @ be16 (port srv)) @ nb)"

lemma add_srv_appends:
  "appends dst (length dst) off (srv_wire to_ascii srv) (add_srv to_ascii dst (length dst) off srv)"
proof (cases "length dst < off + srv_data_size")
  case False
  have "appends dst (length dst) off (srv_wire to_ascii srv)
      (write_bytes dst off (be16 (priority srv) @ be16 (weight srv) @ be16 (port srv)) \<bind>
       (\<lambda>d. add_name to_ascii d (length dst) (off + srv_data_size) (target srv)))"
  proof (rule appends_write [where W = "name_bytes to_ascii (target srv)"])
    fix dst' :: "byte list"
    assume "length dst' = length dst"
    then show "appends dst' (length dst) (off + length (be16 (priority srv) @ be16 (weight srv) @ be16 (port srv)))
        (name_bytes to_ascii (target srv)) (add_name to_ascii dst' (length dst) (off + srv_data_size) (target srv))"
      using add_name_appends [of "length dst" dst' "off + srv_data_size" to_ascii "target srv"] by simp
  qed (use False in \<open>auto simp: srv_wire_def\<close>)
  then show ?thesis using False by (simp add: add_srv_def)
qed (simp add: add_srv_def appends_fail)

definition soa_line :: "GNUNET_DNSPARSER_SoaRecord \<Rightarrow> byte list" where
  "soa_line soa = be32 (serial soa) @ be32 (refresh soa) @ be32 (retry soa) @ be32 (expire soa) @ be32 (minimum_ttl soa)"

definition soa_bytes :: "(cstring \<Rightarrow> cstring option) \<Rightarrow> GNUNET_DNSPARSER_SoaRecord \<Rightarrow> byte list \<Rightarrow> bool" where
  "soa_bytes to_ascii soa bs \<longleftrightarrow>
     (\<exists>mb rb. name_bytes to_ascii (mname soa) mb \<and> name_bytes to_ascii (rname soa) rb \<and> bs = mb @ rb @ soa_line soa)"

lemma length_soa_line [simp]: "length (soa_line soa) = 20"
  by (simp add: soa_line_def)

lemma add_soa_appends:
  "appends dst (length dst) off (soa_bytes to_ascii soa) (add_soa to_ascii dst (length dst) off soa)"
  unfolding add_soa_def soa_line_def [symmetric]
proof (rule appends_bind [where V = "name_bytes to_ascii (mname soa)" and lim = "length dst"
      and W = "\<lambda>bs. \<exists>rb. name_bytes to_ascii (rname soa) rb \<and> bs = rb @ soa_line soa"])
  show "appends dst (length dst) off (name_bytes to_ascii (mname soa)) (add_name to_ascii dst (length dst) off (mname soa))"
    by (rule add_name_appends) simp
next
  fix bs and d1 :: "byte list"
  let ?o = "off + length bs"
  assume d1: "length d1 = length dst"
  show "appends d1 (length dst) ?o (\<lambda>bs. \<exists>rb. name_bytes to_ascii (rname soa) rb \<and> bs = rb @ soa_line soa)
      (add_name to_ascii d1 (length dst) ?o (rname soa) \<bind>
       (\<lambda>(ret2, dst2, off2).
          if ret2 \<noteq> GNUNET_OK then Some (ret2, dst2, off2)
          else if length dst < off2 + soa_data_size then Some (GNUNET_NO, dst2, off2)
          else write_bytes dst2 off2 (soa_line soa) \<bind> (\<lambda>dst3. Some (GNUNET_OK, dst3, off2 + soa_data_size))))"
  proof (rule appends_bind [where V = "name_bytes to_ascii (rname soa)" and lim = "length dst" and W = "\<lambda>bs. bs = soa_line soa"])
    show "appends d1 (length dst) ?o (name_bytes to_ascii (rname soa)) (add_name to_ascii d1 (length dst) ?o (rname soa))"
      using add_name_appends [of "length dst" d1] d1 by simp
  next
    fix cs and d2 :: "byte list"
    assume "length d2 = length d1"
    then show "appends d2 (length dst) (?o + length cs) (\<lambda>bs. bs = soa_line soa)
        (if length dst < ?o + length cs + soa_data_size then Some (GNUNET_NO, d2, ?o + length cs)
         else write_bytes d2 (?o + length cs) (soa_line soa) \<bind>
           (\<lambda>dst3. Some (GNUNET_OK, dst3, ?o + length cs + soa_data_size)))"
      using d1 by (cases "length dst < ?o + length cs + soa_data_size")
        (auto simp: appends_fail simp del: bind_split intro!: appends_write [where W = "\<lambda>bs. bs = []"] appends_done [simplified])
  qed auto
qed (auto simp: soa_bytes_def)

fun data_bytes :: "(cstring \<Rightarrow> cstring option) \<Rightarrow> record_data \<Rightarrow> byte list \<Rightarrow> bool" where
  "data_bytes to_ascii (Hostname h) = name_bytes to_ascii h"
| "data_bytes to_ascii (Soa soa) = soa_bytes to_ascii soa"
| "data_bytes to_ascii (Mx mx) = mx_bytes to_ascii mx"
| "data_bytes to_ascii (Srv srv) = srv_wire to_ascii srv"
| "data_bytes to_ascii (Raw d) = (\<lambda>bs. bs = d)"
| "data_bytes to_ascii _ = (\<lambda>bs. False)"

text \<open>The member of the union that the type of a record asks for.\<close>

definition data_matches :: "GNUNET_DNSPARSER_Record \<Rightarrow> bool" where
  "data_matches r \<longleftrightarrow>
     (case r_data r of
        Hostname _ \<Rightarrow> r_type r \<in> {GNUNET_DNSPARSER_TYPE_NS, GNUNET_DNSPARSER_TYPE_CNAME, GNUNET_DNSPARSER_TYPE_PTR}
      | Soa _ \<Rightarrow> r_type r = GNUNET_DNSPARSER_TYPE_SOA
      | Mx _ \<Rightarrow> r_type r = GNUNET_DNSPARSER_TYPE_MX
      | Srv _ \<Rightarrow> r_type r = GNUNET_DNSPARSER_TYPE_SRV
      | Raw _ \<Rightarrow> r_type r \<notin> {GNUNET_DNSPARSER_TYPE_NS, GNUNET_DNSPARSER_TYPE_CNAME, GNUNET_DNSPARSER_TYPE_PTR,
          GNUNET_DNSPARSER_TYPE_SOA, GNUNET_DNSPARSER_TYPE_MX, GNUNET_DNSPARSER_TYPE_SRV}
      | _ \<Rightarrow> False)"

lemma add_raw_appends:
  "appends dst (length dst) pos (\<lambda>bs. bs = d)
     (if length dst < pos + length d then Some (GNUNET_NO, dst, pos)
      else write_bytes dst pos d \<bind> (\<lambda>dst1. Some (GNUNET_OK, dst1, pos + length d)))"
  by (cases "length dst < pos + length d")
    (auto simp: appends_fail simp del: bind_split intro!: appends_write [where W = "\<lambda>bs. bs = []"] appends_done [simplified])

lemma add_data_appends:
  assumes "data_matches r"
  shows "appends dst (length dst) pos (data_bytes to_ascii (r_data r)) (add_data to_ascii dst (length dst) pos r)"
proof (cases "r_data r")
  case (Hostname h)
  then have "add_data to_ascii dst (length dst) pos r = add_name to_ascii dst (length dst) pos h"
    using assms by (auto simp: data_matches_def add_data_def)
  then show ?thesis using Hostname add_name_appends [of "length dst" dst pos to_ascii h] by simp
next
  case (Soa soa)
  then have "add_data to_ascii dst (length dst) pos r = add_soa to_ascii dst (length dst) pos soa"
    using assms by (auto simp: data_matches_def add_data_def)
  then show ?thesis using Soa add_soa_appends [of dst pos to_ascii soa] by simp
next
  case (Mx mx)
  then have "add_data to_ascii dst (length dst) pos r = add_mx to_ascii dst (length dst) pos mx"
    using assms by (auto simp: data_matches_def add_data_def)
  then show ?thesis using Mx add_mx_appends [of dst pos to_ascii mx] by simp
next
  case (Srv srv)
  then have "add_data to_ascii dst (length dst) pos r = add_srv to_ascii dst (length dst) pos srv"
    using assms by (auto simp: data_matches_def add_data_def)
  then show ?thesis using Srv add_srv_appends [of dst pos to_ascii srv] by simp
next
  case (Raw d)
  then have "add_data to_ascii dst (length dst) pos r =
     (if length dst < pos + length d then Some (GNUNET_NO, dst, pos)
      else write_bytes dst pos d \<bind> (\<lambda>dst1. Some (GNUNET_OK, dst1, pos + length d)))"
    using assms by (auto simp: data_matches_def add_data_def)
  then show ?thesis unfolding Raw data_bytes.simps using add_raw_appends [of dst pos d] by (simp only:)
qed (use assms in \<open>auto simp: data_matches_def\<close>)

definition record_line :: "GNUNET_TIME_Absolute \<Rightarrow> GNUNET_DNSPARSER_Record \<Rightarrow> nat \<Rightarrow> byte list" where
  "record_line now r n = be16 (r_type r) @ be16 (r_class r) @ be32 (record_ttl now r) @ be16 (of_nat n)"

lemma length_record_line [simp]: "length (record_line now r n) = 10"
  by (simp add: record_line_def)

definition record_bytes ::
    "(cstring \<Rightarrow> cstring option) \<Rightarrow> GNUNET_TIME_Absolute \<Rightarrow> GNUNET_DNSPARSER_Record \<Rightarrow> byte list \<Rightarrow> bool" where
  "record_bytes to_ascii now r bs \<longleftrightarrow>
     (\<exists>name nb db. record_name r = Some name \<and> name_bytes to_ascii name nb \<and> data_bytes to_ascii (r_data r) db \<and>
        length db \<le> 65535 \<and> bs = nb @ record_line now r (length db) @ db)"

lemma write_before:
  assumes "length d = length dst" "off + length line \<le> length dst" "take (off + length line) d = take (off + length line) dst"
    and "take (off + length line + length db) d = take (off + length line) dst @ db"
  obtains d' where "write_bytes d off line = Some d'" "length d' = length dst" "take off d' = take off dst"
    "take (off + length line + length db) d' = take off dst @ line @ db"
proof -
  have "take off d = take off dst" using take_take_eq [OF assms(3), of off] by simp
  moreover have "take (length db) (drop (off + length line) d) = db"
  proof -
    have "take (length db) (drop (off + length line) d) = drop (off + length line) (take (off + length line + length db) d)"
      by (simp add: drop_take)
    then show ?thesis unfolding assms(4) using assms(2) by simp
  qed
  ultimately show ?thesis
    using assms(1,2)
    by (intro that [of "take off d @ line @ drop (off + length line) d"]) (simp_all add: write_bytes_def)
qed

lemma add_record_appends:
  assumes "DnsHeader_size \<le> length dst" "data_matches r" "record_name r \<noteq> None"
  shows "appends dst (length dst) off (record_bytes to_ascii now r) (add_record to_ascii now dst (length dst) off r)"
proof -
  obtain name where name: "record_name r = Some name" using assms(3) by blast
  let ?W = "\<lambda>bs. \<exists>db. data_bytes to_ascii (r_data r) db \<and> length db \<le> 65535 \<and> bs = record_line now r (length db) @ db"
  let ?f = "\<lambda>d o1. add_data to_ascii d (length dst) (o1 + record_line_size) r \<bind> (\<lambda>(ret2, dst2, pos).
      if ret2 \<noteq> GNUNET_OK then Some (GNUNET_NO, dst2, off)
      else if 65535 < pos - (o1 + record_line_size) then Some (GNUNET_NO, dst2, off)
      else write_bytes dst2 o1 (record_line now r (pos - (o1 + record_line_size))) \<bind> (\<lambda>dst3. Some (GNUNET_OK, dst3, pos)))"
  have "appends dst (length dst) off (record_bytes to_ascii now r)
      (add_name to_ascii dst (size_sub (length dst) record_line_size) off name \<bind>
       (\<lambda>(ret, dst1, o1). if ret \<noteq> GNUNET_OK then Some (ret, dst1, o1) else ?f dst1 o1))"
  proof (rule appends_bind [where V = "name_bytes to_ascii name" and W = ?W and f = ?f and lim = "length dst - 10"])
    show "appends dst (length dst - 10) off (name_bytes to_ascii name)
        (add_name to_ascii dst (size_sub (length dst) record_line_size) off name)"
      using add_name_appends [of "length dst - 10" dst off to_ascii name] assms(1) by (simp add: size_sub_le)
  next
    fix bs d1 :: "byte list"
    let ?o = "off + length bs"
    assume d1: "length d1 = length dst" "?o \<le> length dst - 10"
    obtain ret d2 pos where d2: "add_data to_ascii d1 (length dst) (?o + 10) r = Some (ret, d2, pos)" "length d2 = length d1"
        "take (?o + 10) d2 = take (?o + 10) d1"
        "ret = GNUNET_OK \<Longrightarrow> \<exists>db. data_bytes to_ascii (r_data r) db \<and> pos = ?o + 10 + length db \<and> pos \<le> length dst \<and>
          take pos d2 = take (?o + 10) d1 @ db"
      using appendsE [OF add_data_appends [OF assms(2), of d1 "?o + 10" to_ascii]] unfolding d1(1) by metis
    have keep: "take ?o d2 = take ?o d1" using take_take_eq [OF d2(3), of ?o] by simp
    show "appends d1 (length dst) ?o ?W (?f d1 ?o)"
    proof (cases "ret = GNUNET_OK \<and> pos - (?o + 10) \<le> 65535")
      case False
      then have "?f d1 ?o = Some (GNUNET_NO, d2, off)" using d2(1) by auto
      then show ?thesis using d2(2) keep by (auto intro: appendsI)
    next
      case True
      then obtain db where db: "data_bytes to_ascii (r_data r) db" "pos = ?o + 10 + length db" "pos \<le> length dst"
          "take pos d2 = take (?o + 10) d1 @ db"
        using d2(4) by blast
      let ?line = "record_line now r (length db)"
      obtain d3 where d3: "write_bytes d2 ?o ?line = Some d3" "length d3 = length d1" "take ?o d3 = take ?o d1"
          "take pos d3 = take ?o d1 @ ?line @ db"
        using write_before [of d2 d1 ?o ?line db] d1 d2(2,3) db assms(1) by auto
      have "?f d1 ?o = Some (GNUNET_OK, d3, pos)" using d2(1) d3(1) True db(2) by simp
      then show ?thesis
        using d3 db True by (intro appendsI [where ret = GNUNET_OK and dst' = d3 and off' = pos]) (auto intro!: exI [of _ "?line @ db"])
    qed
  qed (auto simp: record_bytes_def name)
  then show ?thesis unfolding add_record_def name bind.bind_lunit record_line_def .
qed

section \<open>Sections of a packet\<close>

fun seq_bytes :: "(nat \<Rightarrow> 'x \<Rightarrow> byte list \<Rightarrow> bool) \<Rightarrow> nat \<Rightarrow> 'x list \<Rightarrow> byte list \<Rightarrow> bool" where
  "seq_bytes W i [] bs \<longleftrightarrow> bs = []"
| "seq_bytes W i (x # xs) bs \<longleftrightarrow> (\<exists>b c. W i x b \<and> seq_bytes W (Suc i) xs c \<and> bs = b @ c)"

text \<open>What the loops over the elements of a section need to know about the operation that adds one element.\<close>

locale section_writer =
  fixes add_item :: "nat \<Rightarrow> byte list \<Rightarrow> nat \<Rightarrow> 'x \<Rightarrow> (int \<times> byte list \<times> nat) option"
    and add_items :: "byte list \<Rightarrow> nat \<Rightarrow> nat \<Rightarrow> 'x list \<Rightarrow> (int \<times> byte list \<times> nat \<times> nat option) option"
    and packable :: "'x \<Rightarrow> bool"
    and wire :: "nat \<Rightarrow> 'x \<Rightarrow> byte list \<Rightarrow> bool"
  assumes items_Nil: "add_items dst off i [] = Some (GNUNET_OK, dst, off, None)"
    and items_Cons: "add_items dst off i (x # xs) =
      add_item i dst off x \<bind> (\<lambda>(ret, dst1, off1).
        if ret = GNUNET_SYSERR then Some (GNUNET_SYSERR, dst1, off1, None)
        else if ret = GNUNET_NO then Some (GNUNET_OK, dst1, off1, Some i)
        else add_items dst1 off1 (Suc i) xs)"
    and item_appends: "DnsHeader_size \<le> length dst \<Longrightarrow> packable x \<Longrightarrow>
      appends dst (length dst) off (wire i x) (add_item i dst off x)"
    and item_fail: "add_item i dst off x = Some (ret, dst', off') \<Longrightarrow> ret \<noteq> GNUNET_OK \<Longrightarrow> off' = off"
begin

lemma items_spec:
  assumes "DnsHeader_size \<le> length dst" "off \<le> length dst" "\<forall>x \<in> set xs. packable x"
  shows "\<exists>ret dst' off' miss. add_items dst off i xs = Some (ret, dst', off', miss) \<and> length dst' = length dst \<and>
    ret \<in> {GNUNET_OK, GNUNET_SYSERR} \<and>
    (ret = GNUNET_OK \<longrightarrow>
      (\<exists>n bs. n \<le> length xs \<and> miss = (if n = length xs then None else Some (i + n)) \<and> seq_bytes wire i (take n xs) bs \<and>
         off' = off + length bs \<and> off' \<le> length dst \<and> take off' dst' = take off dst @ bs))"
  using assms
proof (induction xs arbitrary: dst off i)
  case Nil
  then show ?case by (simp add: items_Nil)
next
  case (Cons x xs)
  obtain ret d o1 where r: "add_item i dst off x = Some (ret, d, o1)" "length d = length dst" "take off d = take off dst"
      "ret \<in> {GNUNET_OK, GNUNET_NO, GNUNET_SYSERR}"
      "ret = GNUNET_OK \<Longrightarrow> \<exists>bs. wire i x bs \<and> o1 = off + length bs \<and> o1 \<le> length dst \<and> take o1 d = take off dst @ bs"
    using appendsE [OF item_appends [OF Cons.prems(1)]] Cons.prems(3) by (metis list.set_intros(1))
  consider "ret = GNUNET_SYSERR" | "ret = GNUNET_NO" | "ret = GNUNET_OK" using r(4) by blast
  then show ?case
  proof cases
    case 1
    then show ?thesis using r(1,2) by (simp add: items_Cons)
  next
    case 2
    then have "o1 = off" using item_fail [OF r(1)] by simp
    then show ?thesis using 2 r(1-3) Cons.prems(2) by (auto simp: items_Cons intro!: exI [of _ "0::nat"])
  next
    case 3
    obtain bs where bs: "wire i x bs" "o1 = off + length bs" "o1 \<le> length dst" "take o1 d = take off dst @ bs"
      using r(5) [OF 3] by blast
    have step: "add_items dst off i (x # xs) = add_items d o1 (Suc i) xs" using r(1) 3 by (simp add: items_Cons)
    obtain ret' d' o2 miss where s: "add_items d o1 (Suc i) xs = Some (ret', d', o2, miss)" "length d' = length d"
        "ret' \<in> {GNUNET_OK, GNUNET_SYSERR}"
      and ok: "ret' = GNUNET_OK \<Longrightarrow>
        \<exists>n cs. n \<le> length xs \<and> miss = (if n = length xs then None else Some (Suc i + n)) \<and>
          seq_bytes wire (Suc i) (take n xs) cs \<and> o2 = o1 + length cs \<and> o2 \<le> length d \<and> take o2 d' = take o1 d @ cs"
      using Cons.IH [of d o1 "Suc i"] Cons.prems r(2) bs(3) by (metis list.set_intros(2))
    have "\<exists>n cs. n \<le> length (x # xs) \<and> miss = (if n = length (x # xs) then None else Some (i + n)) \<and>
        seq_bytes wire i (take n (x # xs)) cs \<and> o2 = off + length cs \<and> o2 \<le> length dst \<and> take o2 d' = take off dst @ cs"
      if fin: "ret' = GNUNET_OK"
    proof -
      obtain n cs where n: "n \<le> length xs" "miss = (if n = length xs then None else Some (Suc i + n))"
          "seq_bytes wire (Suc i) (take n xs) cs" "o2 = o1 + length cs" "o2 \<le> length d" "take o2 d' = take o1 d @ cs"
        using ok [OF fin] by blast
      have "seq_bytes wire i (take (Suc n) (x # xs)) (bs @ cs)" using bs(1) n(3) by auto
      then show ?thesis using n bs r(2) by (intro exI [of _ "Suc n"] exI [of _ "bs @ cs"]) simp
    qed
    then show ?thesis unfolding step using s r(2) by auto
  qed
qed

end

lemma add_name_fail:
  "add_name to_ascii dst n off name = Some (ret, dst', off') \<Longrightarrow> ret \<noteq> GNUNET_OK \<Longrightarrow> off' = off"
  by (auto simp: add_name_def bind_eq_Some_conv split: option.splits if_splits)

interpretation query_writer: section_writer
  "\<lambda>i dst off q. add_query to_ascii dst (length dst) off q" "add_queries to_ascii" "\<lambda>q. True" "\<lambda>i. query_bytes to_ascii"
  for to_ascii
proof
  show "off' = off" if "add_query to_ascii dst (length dst) off q = Some (ret, dst', off')" "ret \<noteq> GNUNET_OK"
    for dst off q ret dst' off'
    using that add_name_fail [of to_ascii dst _ off "q_name q"]
    by (auto simp: add_query_def bind_eq_Some_conv split: if_splits)
qed (simp_all add: add_query_appends [simplified])

definition record_packable :: "GNUNET_DNSPARSER_Record \<Rightarrow> bool" where
  "record_packable r \<longleftrightarrow> data_matches r \<and> record_name r \<noteq> None"

interpretation record_writer: section_writer
  "\<lambda>i dst off r. add_record to_ascii (clk i) dst (length dst) off r" "add_records to_ascii clk" record_packable
  "\<lambda>i. record_bytes to_ascii (clk i)" for to_ascii clk
proof
  show "off' = off" if "add_record to_ascii (clk i) dst (length dst) off r = Some (ret, dst', off')" "ret \<noteq> GNUNET_OK"
    for i dst off r ret dst' off'
    using that add_name_fail [of to_ascii dst _ off "the (record_name r)"]
    by (auto simp: add_record_def bind_eq_Some_conv split: if_splits)
qed (simp_all add: record_packable_def add_record_appends [simplified])

section \<open>What the assembly of a packet writes\<close>

definition packet_packable :: "GNUNET_DNSPARSER_Packet \<Rightarrow> bool" where
  "packet_packable pk \<longleftrightarrow>
     length (packet_id pk) = 2 \<and>
     (\<forall>r \<in> set (answers pk @ authority_records pk @ additional_records pk). record_packable r)"

lemma length_dns_header: "length pid = 2 \<Longrightarrow> length (dns_header pid fl a b c d) = 12"
  by (simp add: dns_header_def bytes_of_flags_def)

text \<open>The state of the buffer after the bytes \<open>bs\<close> have been put behind the place of the header.\<close>

definition wrote :: "byte list \<Rightarrow> byte list \<Rightarrow> nat \<Rightarrow> byte list \<Rightarrow> bool" where
  "wrote buf t off bs \<longleftrightarrow>
     length t = length buf \<and> off = DnsHeader_size + length bs \<and> off \<le> length t \<and> take off t = take DnsHeader_size buf @ bs"

definition missed :: "nat \<Rightarrow> 'x list \<Rightarrow> nat option" where
  "missed n xs = (if n = length xs then None else Some n)"

definition section_result ::
    "byte list \<Rightarrow> byte list \<Rightarrow> (nat \<Rightarrow> 'x \<Rightarrow> byte list \<Rightarrow> bool) \<Rightarrow> 'x list \<Rightarrow> (int \<times> byte list \<times> nat \<times> nat option) option \<Rightarrow> bool" where
  "section_result buf b W xs res \<longleftrightarrow>
     (\<exists>r t off c. res = Some (r, t, off, c) \<and>
        (r = GNUNET_SYSERR \<or>
         r = GNUNET_OK \<and> (\<exists>n b'. n \<le> length xs \<and> c = missed n xs \<and> seq_bytes W 0 (take n xs) b' \<and> wrote buf t off (b @ b'))))"

context section_writer
begin

lemma items_section:
  assumes "wrote buf t off b" "DnsHeader_size \<le> length buf" "\<forall>x \<in> set xs. packable x"
  shows "section_result buf b wire xs (add_items t off 0 xs)"
proof -
  have t: "DnsHeader_size \<le> length t" "off \<le> length t" using assms(1,2) by (simp_all add: wrote_def)
  obtain r t' o' c where r: "add_items t off 0 xs = Some (r, t', o', c)" "length t' = length t"
      "r \<in> {GNUNET_OK, GNUNET_SYSERR}"
      "r = GNUNET_OK \<longrightarrow> (\<exists>n bs. n \<le> length xs \<and> c = (if n = length xs then None else Some (0 + n)) \<and>
         seq_bytes wire 0 (take n xs) bs \<and> o' = off + length bs \<and> o' \<le> length t \<and> take o' t' = take off t @ bs)"
    using items_spec [OF t assms(3), of 0] by blast
  show ?thesis
  proof (cases "r = GNUNET_OK")
    case False
    then show ?thesis using r(1,3) by (auto simp: section_result_def)
  next
    case True
    then obtain n bs where n: "n \<le> length xs" "c = missed n xs" "seq_bytes wire 0 (take n xs) bs" "o' = off + length bs"
        "o' \<le> length t" "take o' t' = take off t @ bs"
      using r(4) by (auto simp: missed_def)
    then have "wrote buf t' o' (b @ bs)" using assms(1) r(2) by (auto simp: wrote_def)
    then show ?thesis unfolding section_result_def using r(1) True n(1-3) by blast
  qed
qed

end

lemma section_bind:
  assumes "section_result buf b W xs res" "P (Some (GNUNET_SYSERR, []))"
    and "\<And>t off n b'. n \<le> length xs \<Longrightarrow> seq_bytes W 0 (take n xs) b' \<Longrightarrow> wrote buf t off (b @ b') \<Longrightarrow>
      P (f t off (missed n xs))"
  shows "P (res \<bind> (\<lambda>(r, t, off, c). if r = GNUNET_SYSERR then Some (GNUNET_SYSERR, []) else f t off c))"
  using assms by (auto simp: section_result_def)

lemma finish_packet_spec:
  fixes c0 c1 c2 c3 :: "nat option"
  assumes "length (packet_id pk) = 2" "DnsHeader_size \<le> length buf" "wrote buf tmp off bs"
  defines "trc \<equiv> \<not> (c0 = None \<and> c1 = None \<and> c2 = None \<and> c3 = None)"
  shows "finish_packet pk tmp off c0 c1 c2 c3 =
    Some (if trc then GNUNET_NO else GNUNET_OK,
      dns_header (packet_id pk) (if trc then (flags pk)\<lparr>message_truncated := True\<rparr> else flags pk)
        (section_count (length (queries pk)) c0) (section_count (length (answers pk)) c1)
        (section_count (length (authority_records pk)) c2) (section_count (length (additional_records pk)) c3) @ bs)"
proof -
  define h where "h = dns_header (packet_id pk) (if trc then (flags pk)\<lparr>message_truncated := True\<rparr> else flags pk)
        (section_count (length (queries pk)) c0) (section_count (length (answers pk)) c1)
        (section_count (length (authority_records pk)) c2) (section_count (length (additional_records pk)) c3)"
  have len: "length h = 12" unfolding h_def by (rule length_dns_header [OF assms(1)])
  have w: "length tmp = length buf" "off = 12 + length bs" "off \<le> length tmp" "take off tmp = take 12 buf @ bs"
    using assms(3) by (auto simp: wrote_def)
  have "take off (h @ drop 12 tmp) = h @ drop 12 (take off tmp)" using w(2) len by (simp add: drop_take)
  also have "drop 12 (take off tmp) = bs" unfolding w(4) using assms(2) by simp
  finally have out: "take off (h @ drop 12 tmp) = h @ bs" .
  have "write_bytes tmp 0 h = Some (h @ drop 12 tmp)" using assms(2) w(1) len by (simp add: write_bytes_def)
  moreover have "\<not> length (h @ drop 12 tmp) < off" using assms(2) w(1,3) len by simp
  ultimately show ?thesis
    unfolding finish_packet_def Let_def trc_def [symmetric] h_def [symmetric] using out by simp
qed

text \<open>The first elements of each section, as many as fit, and the bytes they take.\<close>

definition sections_bytes ::
    "(cstring \<Rightarrow> cstring option) \<Rightarrow> (nat \<Rightarrow> nat \<Rightarrow> GNUNET_TIME_Absolute) \<Rightarrow> GNUNET_DNSPARSER_Packet \<Rightarrow>
     nat \<Rightarrow> nat \<Rightarrow> nat \<Rightarrow> nat \<Rightarrow> byte list \<Rightarrow> bool" where
  "sections_bytes to_ascii clk pk n0 n1 n2 n3 body \<longleftrightarrow>
     n0 \<le> length (queries pk) \<and> n1 \<le> length (answers pk) \<and> n2 \<le> length (authority_records pk) \<and>
     n3 \<le> length (additional_records pk) \<and>
     (\<exists>b0 b1 b2 b3.
        seq_bytes (\<lambda>i. query_bytes to_ascii) 0 (take n0 (queries pk)) b0 \<and>
        seq_bytes (\<lambda>i. record_bytes to_ascii (clk 0 i)) 0 (take n1 (answers pk)) b1 \<and>
        seq_bytes (\<lambda>i. record_bytes to_ascii (clk 1 i)) 0 (take n2 (authority_records pk)) b2 \<and>
        seq_bytes (\<lambda>i. record_bytes to_ascii (clk 2 i)) 0 (take n3 (additional_records pk)) b3 \<and>
        body = b0 @ b1 @ b2 @ b3)"

definition packed ::
    "(cstring \<Rightarrow> cstring option) \<Rightarrow> (nat \<Rightarrow> nat \<Rightarrow> GNUNET_TIME_Absolute) \<Rightarrow> GNUNET_DNSPARSER_Packet \<Rightarrow> nat \<Rightarrow>
     (int \<times> byte list) option \<Rightarrow> bool" where
  "packed to_ascii clk pk lim res \<longleftrightarrow>
     (\<exists>ret out. res = Some (ret, out) \<and>
        (ret = GNUNET_SYSERR \<or>
         (\<exists>n0 n1 n2 n3 body. sections_bytes to_ascii clk pk n0 n1 n2 n3 body \<and>
           (let c0 = missed n0 (queries pk); c1 = missed n1 (answers pk); c2 = missed n2 (authority_records pk);
                c3 = missed n3 (additional_records pk);
                trc = (\<not> (c0 = None \<and> c1 = None \<and> c2 = None \<and> c3 = None)) in
            ret = (if trc then GNUNET_NO else GNUNET_OK) \<and> length out \<le> lim \<and>
            out = dns_header (packet_id pk) (if trc then (flags pk)\<lparr>message_truncated := True\<rparr> else flags pk)
                    (section_count (length (queries pk)) c0) (section_count (length (answers pk)) c1)
                    (section_count (length (authority_records pk)) c2)
                    (section_count (length (additional_records pk)) c3) @ body))))"

lemma pack_spec:
  assumes "packet_packable pk" "DnsHeader_size \<le> length buf"
  shows "packed to_ascii clk pk (length buf) (GNUNET_DNSPARSER_pack to_ascii clk buf pk)"
proof -
  have rs: "\<forall>r \<in> set (answers pk). record_packable r" "\<forall>r \<in> set (authority_records pk). record_packable r"
      "\<forall>r \<in> set (additional_records pk). record_packable r" and pid: "length (packet_id pk) = 2"
    using assms(1) by (auto simp: packet_packable_def)
  have err: "packed to_ascii clk pk (length buf) (Some (GNUNET_SYSERR, []))" by (simp add: packed_def)
  note bind = section_bind [where P = "packed to_ascii clk pk (length buf)", OF _ err]
  have start: "wrote buf buf DnsHeader_size []" using assms(2) by (simp add: wrote_def)
  have fin: "packed to_ascii clk pk (length buf) (finish_packet pk t off (missed n0 (queries pk)) (missed n1 (answers pk))
      (missed n2 (authority_records pk)) (missed n3 (additional_records pk)))"
    if w: "wrote buf t off body" "sections_bytes to_ascii clk pk n0 n1 n2 n3 body" for t off n0 n1 n2 n3 body
  proof -
    have "12 + length body \<le> length buf" using w(1) by (simp add: wrote_def)
    then show ?thesis
      unfolding finish_packet_spec [OF pid assms(2) w(1)] packed_def Let_def
      using w(2) length_dns_header [OF pid] by (intro exI conjI disjI2; (rule refl | assumption | simp))
  qed
  show ?thesis
  proof (cases "65535 < length (queries pk) \<or> 65535 < length (answers pk) \<or> 65535 < length (authority_records pk) \<or>
         65535 < length (additional_records pk)")
    case True
    then show ?thesis unfolding GNUNET_DNSPARSER_pack_def using err by (simp only: if_True)
  next
    case False
    show ?thesis
      unfolding GNUNET_DNSPARSER_pack_def if_not_P [OF False]
      by (rule bind, rule query_writer.items_section [OF start assms(2)], simp,
          rule bind, rule record_writer.items_section [OF _ assms(2) rs(1)], assumption,
          rule bind, rule record_writer.items_section [OF _ assms(2) rs(2)], assumption,
          rule bind, rule record_writer.items_section [OF _ assms(2) rs(3)], assumption,
          rule fin, assumption, force simp: sections_bytes_def)
  qed
qed

section \<open>Parsing what was written\<close>

text \<open>
  What the round trip needs to know about the IDNA library: \<open>to_unicode\<close> undoes \<open>to_ascii\<close> label by label, and C strings have
  no zero byte.
\<close>

definition idna_inverse :: "(cstring \<Rightarrow> cstring option) \<Rightarrow> (cstring \<Rightarrow> cstring option) \<Rightarrow> cstring \<Rightarrow> bool" where
  "idna_inverse to_unicode to_ascii n \<longleftrightarrow>
     (case to_ascii n of None \<Rightarrow> True | Some a \<Rightarrow> 0 \<notin> set a \<and> decode_labels to_unicode (labels a) = n)"








text \<open>
  The names that \<^verbatim>\<open>parse_record\<close> takes apart without loss: a service, a protocol and a domain of a single label.
\<close>

definition srv_named :: "cstring option \<Rightarrow> GNUNET_DNSPARSER_SrvRecord \<Rightarrow> bool" where
  "srv_named name srv \<longleftrightarrow>
     (\<exists>s p d. service srv = Some s \<and> proto srv = Some p \<and> domain_name srv = Some d \<and>
        dot \<notin> set s \<and> dot \<notin> set p \<and> dot \<notin> set d \<and> d \<noteq> [] \<and>
        name = Some ([underscore] @ s @ [dot, underscore] @ p @ [dot] @ d))"




section \<open>Round trip\<close>

fun data_names :: "record_data \<Rightarrow> cstring set" where
  "data_names (Hostname h) = set_option h"
| "data_names (Soa soa) = set_option (mname soa) \<union> set_option (rname soa)"
| "data_names (Mx mx) = set_option (mxhost mx)"
| "data_names (Srv srv) = set_option (target srv)"
| "data_names _ = {}"

text \<open>The records that survive the round trip, and what arrives: the remaining time is rounded to seconds.\<close>

definition record_stable ::
    "(cstring \<Rightarrow> cstring option) \<Rightarrow> (cstring \<Rightarrow> cstring option) \<Rightarrow> GNUNET_DNSPARSER_Record \<Rightarrow> bool" where
  "record_stable to_unicode to_ascii r \<longleftrightarrow>
     record_packable r \<and>
     (\<forall>n \<in> set_option (the (record_name r)) \<union> data_names (r_data r). idna_inverse to_unicode to_ascii n) \<and>
     (case r_data r of Srv srv \<Rightarrow> srv_named (the (record_name r)) srv | _ \<Rightarrow> True)"







definition packet_stable ::
    "(cstring \<Rightarrow> cstring option) \<Rightarrow> (cstring \<Rightarrow> cstring option) \<Rightarrow> GNUNET_DNSPARSER_Packet \<Rightarrow> bool" where
  "packet_stable to_unicode to_ascii pk \<longleftrightarrow>
     length (packet_id pk) = 2 \<and>
     (\<forall>q \<in> set (queries pk). \<forall>n \<in> set_option (q_name q). idna_inverse to_unicode to_ascii n) \<and>
     (\<forall>r \<in> set (answers pk @ authority_records pk @ additional_records pk). record_stable to_unicode to_ascii r)"



lemma bit_flag_bit: "bit (flag_bit c k) i \<longleftrightarrow> c \<and> i = k \<and> k < 8"
  by (auto simp: flag_bit_def bit_exp_iff)

lemma bit_ucast_nibble: "bit (ucast (w :: 4 word) :: byte) i \<longleftrightarrow> i < 4 \<and> bit w i"
  by (auto simp: bit_simps dest: bit_imp_le_length)

lemma flags_round_trip:
  assumes "bytes_of_flags f = [b0, b1]"
  shows "flags_of_bytes b0 b1 = f"
proof -
  have b0: "bit b0 i \<longleftrightarrow> recursion_desired f \<and> i = 0 \<or> message_truncated f \<and> i = 1 \<or> authoritative_answer f \<and> i = 2 \<or>
      3 \<le> i \<and> i < 7 \<and> bit (opcode f) (i - 3) \<or> query_or_response f \<and> i = 7" for i
    using assms by (auto simp: bytes_of_flags_def bit_or_iff bit_push_bit_iff bit_flag_bit bit_ucast_nibble)
  have b1: "bit b1 i \<longleftrightarrow> i < 4 \<and> bit (return_code f) i \<or> checking_disabled f \<and> i = 4 \<or> authenticated_data f \<and> i = 5 \<or>
      zero_flag f \<and> i = 6 \<or> recursion_available f \<and> i = 7" for i
    using assms by (auto simp: bytes_of_flags_def bit_or_iff bit_flag_bit bit_ucast_nibble)
  have "(ucast (drop_bit 3 b0) :: 4 word) = opcode f" "(ucast b1 :: 4 word) = return_code f"
    by (auto intro!: bit_word_eqI simp: bit_unsigned_iff bit_drop_bit_eq b0 b1)
  then show ?thesis unfolding flags_of_bytes_def b0 b1 by simp
qed

lemma dns_header_fields:
  fixes fl :: GNUNET_DNSPARSER_Flags and a b c d :: u16 and rest :: "byte list"
  assumes "length pid = 2"
  defines "p \<equiv> dns_header pid fl a b c d @ rest"
  shows "take 2 p = pid" "flags_of_bytes (p ! 2) (p ! 3) = fl"
    "get_be16 p 4 = a" "get_be16 p 6 = b" "get_be16 p 8 = c" "get_be16 p 10 = d"
proof -
  obtain f0 f1 where f: "bytes_of_flags fl = [f0, f1]" by (simp add: bytes_of_flags_def)
  obtain x y where pid: "pid = [x, y]" using assms(1) by (auto simp: numeral_2_eq_2 length_Suc_conv)
  show "take 2 p = pid" "flags_of_bytes (p ! 2) (p ! 3) = fl"
    using flags_round_trip [OF f] by (simp_all add: p_def dns_header_def pid f)
  show "get_be16 p 4 = a" "get_be16 p 6 = b" "get_be16 p 8 = c" "get_be16 p 10 = d"
    using get_be_append(1) [of "pid @ bytes_of_flags fl" "be16 a @ be16 b @ be16 c @ be16 d @ rest" 0]
      get_be_append(1) [of "pid @ bytes_of_flags fl @ be16 a" "be16 b @ be16 c @ be16 d @ rest" 0]
      get_be_append(1) [of "pid @ bytes_of_flags fl @ be16 a @ be16 b" "be16 c @ be16 d @ rest" 0]
      get_be_append(1) [of "pid @ bytes_of_flags fl @ be16 a @ be16 b @ be16 c" "be16 d @ rest" 0]
    by (simp_all add: p_def dns_header_def pid f eval_nat_numeral)
qed


text \<open>A query with its answer, for names that need no conversion.\<close>

definition example_packet :: GNUNET_DNSPARSER_Packet where
  "example_packet =
     \<lparr>queries = [\<lparr>q_name = Some [97, 46, 98], q_type = 15, q_class = 1\<rparr>],
      answers = [\<lparr>r_name = Some [97, 46, 98], r_data = Mx \<lparr>preference = 9, mxhost = Some [99]\<rparr>,
                  expiration_time = \<lparr>abs_value = 61500\<rparr>, r_type = 15, r_class = 1\<rparr>],
      authority_records = [], additional_records = [],
      flags = flags_of_bytes 0x81 0x80, packet_id = [1, 2]\<rparr>"

definition example_clock :: "nat \<Rightarrow> nat \<Rightarrow> GNUNET_TIME_Absolute" where
  "example_clock i j = \<lparr>abs_value = 1000\<rparr>"

lemmas example_pack_simps = GNUNET_DNSPARSER_pack_def finish_packet_def dns_header_def bytes_of_flags_def add_query_def
  add_name_def add_labels.simps first_label_def from_dot_def add_record_def record_name_def add_data_def add_mx_def
  size_sub_def write_bytes_def example_packet_def Let_def

lemma example_stable: "packet_stable Some Some example_packet"
proof -
  have "decode_labels Some (labels [97, 46, 98]) = [97, 46, 98]" "decode_labels Some (labels [99]) = [99]" by code_simp+
  then show ?thesis
    by (simp add: packet_stable_def example_packet_def record_stable_def record_packable_def data_matches_def record_name_def
        idna_inverse_def)
qed

lemma example_packable: "packet_packable example_packet"
  using example_stable by (auto simp: packet_stable_def packet_packable_def record_stable_def)



text \<open>
  C12: Packing never writes outside of the buffer.  For every packet whose records have the data that their types ask for, and
  every buffer with room for the header, the result fits into the buffer; it is complete, truncated, or refused.
\<close>

theorem dns_pack_safe:
  assumes "packet_packable pk" "DnsHeader_size \<le> length buf"
  shows "\<exists>ret out. GNUNET_DNSPARSER_pack to_ascii clk buf pk = Some (ret, out) \<and>
    ret \<in> {GNUNET_OK, GNUNET_NO, GNUNET_SYSERR} \<and> (ret \<noteq> GNUNET_SYSERR \<longrightarrow> length out \<le> length buf)"
  using pack_spec [OF assms, of to_ascii clk] by (auto simp: packed_def Let_def)

theorem dns_pack_safe_witness:
  "\<exists>ret out. GNUNET_DNSPARSER_pack Some example_clock (replicate 30 7) example_packet = Some (ret, out) \<and>
     (ret \<noteq> GNUNET_SYSERR \<longrightarrow> length out \<le> 30)"
  using dns_pack_safe [OF example_packable, of "replicate 30 7" Some example_clock] by auto

text \<open>
  C15: The header of a truncated packet is wrong.  If a packet of queries does not fit, then the first queries that fit
  follow the header, and the header announces one query less than there are; if not even the first query fits, it
  announces 65535 queries.
\<close>

theorem dns_pack_truncation_miscounts:
  assumes "packet_packable pk" "DnsHeader_size \<le> length buf" "answers pk = []" "authority_records pk = []" "additional_records pk = []"
    and "GNUNET_DNSPARSER_pack to_ascii clk buf pk = Some (GNUNET_NO, out)"
  shows "\<exists>n. n < length (queries pk) \<and> seq_bytes (\<lambda>i. query_bytes to_ascii) 0 (take n (queries pk)) (drop DnsHeader_size out) \<and>
    get_be16 out 4 = of_nat n - 1"
proof -
  have pid: "length (packet_id pk) = 2" using assms(1) by (simp add: packet_packable_def)
  have "packed to_ascii clk pk (length buf) (Some (GNUNET_NO, out))" using pack_spec [OF assms(1,2), of to_ascii clk] assms(6) by simp
  then obtain n body where n: "sections_bytes to_ascii clk pk n 0 0 0 body" "missed n (queries pk) \<noteq> None"
      "out = dns_header (packet_id pk) ((flags pk)\<lparr>message_truncated := True\<rparr>)
         (section_count (length (queries pk)) (missed n (queries pk))) 0 0 0 @ body"
    using assms(3-5)
    by (auto simp: packed_def Let_def sections_bytes_def missed_def section_count_def split: if_splits)
  have "n < length (queries pk)" using n(1,2) by (auto simp: sections_bytes_def missed_def split: if_splits)
  moreover have "seq_bytes (\<lambda>i. query_bytes to_ascii) 0 (take n (queries pk)) body" using n(1) by (auto simp: sections_bytes_def)
  moreover have "drop DnsHeader_size out = body" using length_dns_header [OF pid] n(3) by simp
  moreover have "get_be16 out 4 = of_nat n - 1"
    using calculation(1) unfolding n(3) dns_header_fields [OF pid] by (simp add: section_count_def missed_def)
  ultimately show ?thesis by blast
qed

theorem dns_pack_truncation_miscounts_witness:
  "\<exists>out. GNUNET_DNSPARSER_pack Some example_clock (replicate 16 7) (example_packet\<lparr>answers := []\<rparr>) = Some (GNUNET_NO, out) \<and>
     get_be16 out 4 = 65535"
proof -
  let ?pk = "example_packet\<lparr>answers := []\<rparr>"
  have "map_option fst (GNUNET_DNSPARSER_pack Some example_clock (replicate 16 7) ?pk) = Some GNUNET_NO"
    by (simp add: example_pack_simps)
  then obtain out where out: "GNUNET_DNSPARSER_pack Some example_clock (replicate 16 7) ?pk = Some (GNUNET_NO, out)" by auto
  have "packet_packable ?pk" using example_packable by (simp add: packet_packable_def)
  then obtain n where "n < length (queries ?pk)" "get_be16 out 4 = of_nat n - 1"
    using dns_pack_truncation_miscounts [OF _ _ _ _ _ out] by (auto simp: example_packet_def)
  then show ?thesis using out by (simp add: example_packet_def)
qed

end
