(* ===== verification/Spec2Isabelle.thy ===== *)
theory Spec2Isabelle
  imports Time_Lib Multi_Hash_Map Peer Bandwidth Container_Heap Message_Tokenizer Container_SList
    Lock_Manager Fragment_Protocol Dns_Pack
begin

text \<open>
  A verification library for the core of GNUnet, a framework for peer-to-peer networking in C.  It covers the
  containers and time functions of \<^verbatim>\<open>src/src/util\<close> that every service uses, the splitting of byte streams
  into messages, the fragmentation of messages for transports with a small packet size, the lock manager service and
  the DNS packet library.

  \<^bold>\<open>Conventions.\<close>  C structures are records, unions and enumerations are datatypes, unsigned integers are words of
  their width, so that overflow is what the processor does.  A failing \<^verbatim>\<open>GNUNET_assert\<close>, an access outside of
  allocated memory, the use of freed memory, a division by zero and an undefined shift are the result \<open>None\<close>, and the
  theorems show where these cannot occur.  Readings of the clock, addresses from the allocator, random numbers and
  results of library functions outside of the repository are arguments.  Callbacks are functions on the state of their
  closure, and messages that the code hands to other components are part of the result.  Logging and statistics
  counters are left out.

  \<^bold>\<open>Theories and sources.\<close>
  \<^item> \<open>Prelude\<close>: integer widths, result codes of \<^verbatim>\<open>gnunet_common.h\<close>, collections of facts, lemmas on words.
  \<^item> \<open>Endian\<close>: \<^verbatim>\<open>common_endian.c\<close> and the layout of integers in network messages, with round trips.
  \<^item> \<open>Time_Lib\<close>: \<^verbatim>\<open>time.c\<close>.  Addition, scaling and deadlines are exact or saturate at forever;
    difference and remaining time undo addition; network byte order is lossless.
  \<^item> \<open>Hash_Code\<close>, \<open>Multi_Hash_Map\<close>: \<^verbatim>\<open>container_multihashmap.c\<close>.  The map is an array of buckets that grows;
    the invariant puts every entry into the bucket of its key.  Each operation acts on the multiset of entries as its
    name says.  The locale \<open>multimap\<close> is the contract for clients and is interpreted on the code.
  \<^item> \<open>Peer\<close>: \<^verbatim>\<open>peer.c\<close>, a table of peer identities with reference counters and a free list, on top of the hash
    map.  Identifiers are stable and injective; releasing several references at once equals releasing one by one.
  \<^item> \<open>Bandwidth\<close>: \<^verbatim>\<open>bandwidth.c\<close>.  The tracker is a token bucket with a limit for the bytes carried over, and the
    delay that it computes is sufficient.
  \<^item> \<open>Container_Heap\<close>: \<^verbatim>\<open>container_heap.c\<close>.  The tree keeps its order and its subtree sizes under insertion,
    removal and cost updates.  The locale \<open>priority_queue\<close> derives sorting from the contract of the operations.
  \<^item> \<open>Container_SList\<close>: \<^verbatim>\<open>container_slist.c\<close> on an explicit store of list elements.
  \<^item> \<open>Message_Tokenizer\<close>: \<^verbatim>\<open>server_mst.c\<close>.  The function \<^verbatim>\<open>GNUNET_SERVER_mst_receive\<close> is split at its labels;
    it refines reading messages off a byte sequence, so that it does not matter how a stream is cut into pieces.
  \<^item> \<open>Lock_Manager\<close>: \<^verbatim>\<open>gnunet-service-lockmanager.c\<close>, on top of the hash map.  Handlers of acquire and release
    messages refine one queue of clients per lock; clients that disconnect pass on their locks, except that the
    disconnect of a client that only waits for a lock grants it while it is held.
  \<^item> \<open>Fragmentation\<close>, \<open>Defragmentation\<close>: \<^verbatim>\<open>fragmentation.c\<close> and \<^verbatim>\<open>defragmentation.c\<close>, with the bandwidth tracker.
    Sets of bits are the fragments that are not acknowledged and not received.  The receiver restores a message from
    its fragments in any order and survives arbitrary input.
  \<^item> \<open>Fragment_Protocol\<close>: both sides, connected by an unreliable network, as a step relation.  The invariant relates
    the two bit sets and the acknowledgements under way.  It gives delivery of the message at most once and unchanged,
    completion only after delivery, and the absence of failures in all reachable states.
  \<^item> \<open>Dns_Parser\<close>, \<open>Dns_Pack\<close>: \<^verbatim>\<open>dnsparser.c\<close>, parsing, freeing and assembly of DNS packets.  The locale
    \<open>section_writer\<close> treats the loops over queries and over records in one way.  Parsing undoes packing, parsed
    records fit their types, packing stays in its buffer, and the inputs on which the parser faults are delimited.

  \<^bold>\<open>Loops and bounds.\<close>  Loops are recursive functions with a termination proof.  Where the C code may loop forever the
  function is a \<^verbatim>\<open>partial_function\<close> and a lemma shows that it returns under the invariant: the search for
  the next fragment to send, which ends because a bit is set, and the loops over linked lists, which end because the
  lists are acyclic.  Compression pointers in DNS names end because the code bounds their depth by 32.  Growth of the
  hash map is exact below \<open>2\<^sup>3\<^sup>1\<close> buckets, hence the bound on the number of requests to the lock manager.
  No theorem uses fuel.

  \<^bold>\<open>Assumptions on other code.\<close>  The allocator returns addresses that are not in use; the hash function of the lock
  manager is arbitrary, so collisions are covered.  The IDNA library is arbitrary except for the round trip of DNS packets,
  where its conversions of the names in the packet are inverse to each other.  The least-squares fit that estimates the
  latency of a connection is a parameter, and so are the values of undefined shifts in the computation of delays.

  \<^bold>\<open>Not modelled.\<close>  The scheduler, network, disk and process functions of \<^verbatim>\<open>src/src/util\<close> are wrappers of
  system calls.  The cryptographic functions call \<^verbatim>\<open>libgcrypt\<close>.  The database plugins send SQL to external databases.
  The services for the distributed hash table, mesh, transport, file sharing, name system and test bed are driven by
  callbacks of these layers and by messages between processes; the library covers parts that they share, not the
  services themselves.  Functions with floating-point arithmetic and the functions that only free memory are left out.
\<close>

end
